(* ===== verification/Prelude.thy ===== *)
theory Prelude
  imports Main "HOL-Library.Word"
begin

text \<open>
  Shared material of the development: the fixed-width integer types of the C sources,
  the error numbers of \<open>include/fio/port/errno.h\<close> and \<open>linux/errno.h\<close> (a negated
  number is what the functions return), the collections that carry the component proofs, and
  generic lemmas on words, lists and sums.

  Conventions used in every theory.  Unsigned C integers are words of their width, so \<open>+\<close>,
  \<open>-\<close> and \<open>*\<close> wrap.  A C \<open>int\<close> used as a return code is an \<open>int\<close>.  A pointer is an
  address of type \<open>addr\<close>, a 64-bit word, and NULL is address 0.  The models are of the release build:
  \<open>kassert\<close> expands to nothing there (\<open>include/fio/port/common-linux/kassert.h\<close>), and
  the asserted conditions appear as proved facts or as hypotheses, never as behaviour.
\<close>

unbundle bit_operations_syntax

type_synonym u8 = "8 word"
type_synonym u16 = "16 word"
type_synonym u32 = "32 word"
type_synonym u64 = "64 word"

text \<open>Addresses: \<open>NULL\<close> is the C null pointer.\<close>

type_synonym addr = "64 word"

abbreviation NULL :: addr where
  "NULL \<equiv> 0"

subsection \<open>Error numbers\<close>

abbreviation (input) ENOENT :: int where "ENOENT \<equiv> 2"
abbreviation (input) EIO :: int where "EIO \<equiv> 5"
abbreviation (input) ENXIO :: int where "ENXIO \<equiv> 6"
abbreviation (input) EAGAIN :: int where "EAGAIN \<equiv> 11"
abbreviation (input) ENOMEM :: int where "ENOMEM \<equiv> 12"
abbreviation (input) EFAULT :: int where "EFAULT \<equiv> 14"
abbreviation (input) EBUSY :: int where "EBUSY \<equiv> 16"
abbreviation (input) EEXIST :: int where "EEXIST \<equiv> 17"
abbreviation (input) ENODEV :: int where "ENODEV \<equiv> 19"
abbreviation (input) EINVAL :: int where "EINVAL \<equiv> 22"
abbreviation (input) ENOTTY :: int where "ENOTTY \<equiv> 25"
abbreviation (input) ENOSPC :: int where "ENOSPC \<equiv> 28"

subsection \<open>Collections\<close>

named_theorems mask_simps \<open>bit tables unfolded to bits\<close>
named_theorems ptr_simps \<open>reads of a pointer heap after a write\<close>
named_theorems frame_simps \<open>fields an operation leaves alone\<close>

subsection \<open>Transition systems\<close>

text \<open>
  The components with clients that interleave are step relations.  The contract of an invariant is stated once: it
  is interpreted for each of the systems, with that system's step relation and invariant.
\<close>

inductive reach :: "('s \<Rightarrow> 's \<Rightarrow> bool) \<Rightarrow> 's \<Rightarrow> 's \<Rightarrow> bool" for step_rel s0 where
  start: "reach step_rel s0 s0"
| step: "reach step_rel s0 s \<Longrightarrow> step_rel s s' \<Longrightarrow> reach step_rel s0 s'"

locale transition_invariant =
  fixes step_rel :: "'s \<Rightarrow> 's \<Rightarrow> bool"
    and inv :: "'s \<Rightarrow> bool"
  assumes step_keeps: "inv s \<Longrightarrow> step_rel s s' \<Longrightarrow> inv s'"
begin

lemma reach_inv: "reach step_rel s0 s \<Longrightarrow> inv s0 \<Longrightarrow> inv s"
  by (induction rule: reach.induct) (auto intro: step_keeps)

end

subsection \<open>Words\<close>

text \<open>An increment that does not wrap, and the decrement that undoes it.\<close>

lemma unat_incr: "w + 1 \<noteq> 0 \<Longrightarrow> unat (w + 1) = unat w + 1"
  for w :: "'a::len word"
  by (metis Suc_eq_plus1 add.commute unatSuc)

lemma unat_decr: "w \<noteq> 0 \<Longrightarrow> unat (w - 1) = unat w - 1"
  for w :: "'a::len word"
  by (metis unat_minus_one)

lemma word_incr_zero_iff: "w + 1 = 0 \<longleftrightarrow> unat w = 2 ^ LENGTH('a) - 1"
  for w :: "'a::len word"
proof
  assume "w + 1 = 0"
  then have "w = - 1" by (simp add: eq_neg_iff_add_eq_0)
  then show "unat w = 2 ^ LENGTH('a) - 1" by (simp add: unsigned_minus_1_eq_mask mask_eq_exp_minus_1)
next
  assume "unat w = 2 ^ LENGTH('a) - 1"
  then have "unat w = unat (- 1 :: 'a word)" by (simp add: unsigned_minus_1_eq_mask mask_eq_exp_minus_1)
  then have "w = - 1" using word_unat_eq_iff by blast
  then show "w + 1 = 0" by simp
qed

text \<open>Addition that stays within the width is addition of the values.\<close>

lemma unat_add_no_wrap:
  "unat a + unat b < 2 ^ LENGTH('a) \<Longrightarrow> unat (a + b) = unat a + unat b"
  for a b :: "'a::len word"
  by (simp add: unat_add_lem)

lemma sint_of_nat_small: "n < 2 ^ 63 \<Longrightarrow> sint (of_nat n :: u64) = int n"
proof -
  assume "n < 2 ^ 63"
  then have "int n < 2 ^ 63" by simp
  then show ?thesis by (simp add: signed_of_nat signed_take_bit_int_eq_self)
qed

lemma sint_small: "unat w < 2 ^ 63 \<Longrightarrow> sint w = int (unat w)"
  for w :: u64
  using sint_of_nat_small [of "unat w"] by simp

lemma unat_sub_le: "b \<le> a \<Longrightarrow> unat (a - b) = unat a - unat b"
  for a b :: "'a::len word"
  by (rule unat_sub)

subsection \<open>Lists\<close>

lemma sum_list_take_Suc:
  "i < length xs \<Longrightarrow> sum_list (map f (take (Suc i) xs)) = sum_list (map f (take i xs)) + f (xs ! i)"
  for f :: "'a \<Rightarrow> 'b::comm_monoid_add"
  by (simp add: take_Suc_conv_app_nth)

lemma take_list_update_last:
  "i < length xs \<Longrightarrow> take (Suc i) (xs[i := v]) = take i xs @ [v]"
  by (simp add: take_Suc_conv_app_nth)

end
