(* ===== verification/Six_Lock.thy ===== *)
theory Six_Lock
  imports Prelude
begin

text \<open>
  The multi-granularity lock of \<open>six_lock.c\<close> and \<open>include/fio/port/six_lock.h\<close>.

  The lock modes, the mask tables, the conversion table and every API function are translated
  as they stand.  Each API function runs under the spin lock \<open>sixsem_lock\<close>, so a function, or
  the part of \<open>fusion_sixsem_upgrade\<close> between two condition waits, is one atomic step;
  \<open>fusion_sixsem_upgrade\<close> is therefore split at its \<open>fusion_condvar_wait\<close>:
  \<open>fusion_sixsem_upgrade\<close> runs up to the first wait or the return and
  \<open>fusion_sixsem_resume\<close> runs one iteration after a wake-up.  Waits are made with
  TASK_INTERRUPTIBLE, so the step relation lets any waiter re-test at any time; the calls of
  \<open>fusion_condvar_signal\<close> are counted in \<open>cv_signals\<close>.
\<close>

subsection \<open>Modes and tables\<close>

datatype fusion_sixsem_lock_t =
  LOCK_NULL | LOCK_IS | LOCK_IX | LOCK_S | LOCK_SIX | LOCK_U | LOCK_X

instantiation fusion_sixsem_lock_t :: enum
begin

definition enum_fusion_sixsem_lock_t :: "fusion_sixsem_lock_t list" where
  "enum_fusion_sixsem_lock_t = [LOCK_NULL, LOCK_IS, LOCK_IX, LOCK_S, LOCK_SIX, LOCK_U, LOCK_X]"

definition enum_all_fusion_sixsem_lock_t :: "(fusion_sixsem_lock_t \<Rightarrow> bool) \<Rightarrow> bool" where
  "enum_all_fusion_sixsem_lock_t P \<longleftrightarrow>
     P LOCK_NULL \<and> P LOCK_IS \<and> P LOCK_IX \<and> P LOCK_S \<and> P LOCK_SIX \<and> P LOCK_U \<and> P LOCK_X"

definition enum_ex_fusion_sixsem_lock_t :: "(fusion_sixsem_lock_t \<Rightarrow> bool) \<Rightarrow> bool" where
  "enum_ex_fusion_sixsem_lock_t P \<longleftrightarrow>
     P LOCK_NULL \<or> P LOCK_IS \<or> P LOCK_IX \<or> P LOCK_S \<or> P LOCK_SIX \<or> P LOCK_U \<or> P LOCK_X"

instance
proof
  have UNIV_modes: "(UNIV :: fusion_sixsem_lock_t set) =
      {LOCK_NULL, LOCK_IS, LOCK_IX, LOCK_S, LOCK_SIX, LOCK_U, LOCK_X}"
    by (auto intro: fusion_sixsem_lock_t.exhaust)
  then show "(UNIV :: fusion_sixsem_lock_t set) = set enum_class.enum"
    by (simp add: enum_fusion_sixsem_lock_t_def)
  show "distinct (enum_class.enum :: fusion_sixsem_lock_t list)"
    by (simp add: enum_fusion_sixsem_lock_t_def)
  show "enum_class.enum_all P \<longleftrightarrow> Ball UNIV P" for P :: "fusion_sixsem_lock_t \<Rightarrow> bool"
    by (simp add: enum_all_fusion_sixsem_lock_t_def UNIV_modes)
  show "enum_class.enum_ex P \<longleftrightarrow> Bex UNIV P" for P :: "fusion_sixsem_lock_t \<Rightarrow> bool"
    by (simp add: enum_ex_fusion_sixsem_lock_t_def UNIV_modes)
qed

end

text \<open>The numeric value of the C enumerator, which indexes every table.\<close>

primrec lock_index :: "fusion_sixsem_lock_t \<Rightarrow> nat" where
  "lock_index LOCK_NULL = 0"
| "lock_index LOCK_IS = 1"
| "lock_index LOCK_IX = 2"
| "lock_index LOCK_S = 3"
| "lock_index LOCK_SIX = 4"
| "lock_index LOCK_U = 5"
| "lock_index LOCK_X = 6"

text \<open>\<open>fusion_sixsem_mask_size_t\<close> is an \<open>int8_t\<close>; only its bit pattern is used.\<close>

definition lock_mode_masks :: "fusion_sixsem_lock_t \<Rightarrow> u8" where
  "lock_mode_masks m = push_bit (lock_index m) 1"

primrec compat_mask :: "fusion_sixsem_lock_t \<Rightarrow> u8" where
  "compat_mask LOCK_NULL =
     lock_mode_masks LOCK_NULL OR lock_mode_masks LOCK_S OR lock_mode_masks LOCK_IS OR
     lock_mode_masks LOCK_IX OR lock_mode_masks LOCK_SIX OR lock_mode_masks LOCK_X OR
     lock_mode_masks LOCK_U"
| "compat_mask LOCK_IS =
     lock_mode_masks LOCK_NULL OR lock_mode_masks LOCK_S OR lock_mode_masks LOCK_IS OR
     lock_mode_masks LOCK_IX OR lock_mode_masks LOCK_SIX"
| "compat_mask LOCK_IX =
     lock_mode_masks LOCK_NULL OR lock_mode_masks LOCK_IS OR lock_mode_masks LOCK_IX"
| "compat_mask LOCK_S =
     lock_mode_masks LOCK_NULL OR lock_mode_masks LOCK_S OR lock_mode_masks LOCK_IS"
| "compat_mask LOCK_SIX = lock_mode_masks LOCK_NULL OR lock_mode_masks LOCK_IS"
| "compat_mask LOCK_U = lock_mode_masks LOCK_NULL OR lock_mode_masks LOCK_S"
| "compat_mask LOCK_X = lock_mode_masks LOCK_NULL"

definition incompat_masks :: "fusion_sixsem_lock_t \<Rightarrow> u8" where
  "incompat_masks m = NOT (compat_mask m)"

text \<open>\<open>upgrade_conversion[new_mode][old_mode]\<close>.\<close>

definition upgrade_conversion_table :: "fusion_sixsem_lock_t list list" where
  "upgrade_conversion_table =
    [[LOCK_NULL, LOCK_IS,  LOCK_IX,  LOCK_S,   LOCK_SIX, LOCK_U,   LOCK_X],
     [LOCK_IS,   LOCK_IS,  LOCK_IX,  LOCK_S,   LOCK_SIX, LOCK_U,   LOCK_X],
     [LOCK_IX,   LOCK_IX,  LOCK_IX,  LOCK_SIX, LOCK_SIX, LOCK_X,   LOCK_X],
     [LOCK_S,    LOCK_S,   LOCK_SIX, LOCK_S,   LOCK_SIX, LOCK_U,   LOCK_X],
     [LOCK_SIX,  LOCK_SIX, LOCK_SIX, LOCK_SIX, LOCK_SIX, LOCK_SIX, LOCK_X],
     [LOCK_U,    LOCK_U,   LOCK_X,   LOCK_U,   LOCK_SIX, LOCK_U,   LOCK_X],
     [LOCK_X,    LOCK_X,   LOCK_X,   LOCK_X,   LOCK_X,   LOCK_X,   LOCK_X]]"

definition upgrade_conversion ::
  "fusion_sixsem_lock_t \<Rightarrow> fusion_sixsem_lock_t \<Rightarrow> fusion_sixsem_lock_t" where
  "upgrade_conversion new_mode old_mode =
     upgrade_conversion_table ! lock_index new_mode ! lock_index old_mode"

subsection \<open>State and operations\<close>

record fusion_sixsem_t =
  cur_locks_mask :: u8
  lock_counts :: "fusion_sixsem_lock_t \<Rightarrow> u16"
  wait_count :: u16
  wake_serial :: u64
  wait_serial :: u64
  cv_signals :: nat

definition six_lock_is_compatible ::
  "fusion_sixsem_t \<Rightarrow> fusion_sixsem_lock_t \<Rightarrow> fusion_sixsem_lock_t \<Rightarrow> bool" where
  "six_lock_is_compatible sem old_mode new_mode =
     (if cur_locks_mask sem = 0 then True
      else
        let locks_mask = cur_locks_mask sem;
            locks_mask = (if lock_counts sem old_mode = 1
                          then locks_mask AND NOT (lock_mode_masks old_mode) else locks_mask)
        in incompat_masks new_mode AND locks_mask = 0)"

definition fusion_sixsem_init :: fusion_sixsem_t where
  "fusion_sixsem_init =
     \<lparr>cur_locks_mask = 0, lock_counts = (\<lambda>_. 0), wait_count = 0,
      wake_serial = 0, wait_serial = 0, cv_signals = 0\<rparr>"

text \<open>Both branches of \<open>serial64_compare\<close> subtract \<open>s1\<close> from \<open>s2\<close>, as the source does.\<close>

definition serial64_compare :: "u64 \<Rightarrow> u64 \<Rightarrow> int" where
  "serial64_compare s1 s2 =
     (if s1 = s2 then 0
      else if s1 < s2 then (if s2 - s1 < push_bit 63 1 then -1 else 1)
      else if s2 - s1 < push_bit 63 1 then 1
      else -1)"

text \<open>The condition of the wait loop.\<close>

definition upgrade_must_wait ::
  "fusion_sixsem_t \<Rightarrow> bool \<Rightarrow> u64 \<Rightarrow> fusion_sixsem_lock_t \<Rightarrow> fusion_sixsem_lock_t \<Rightarrow> bool" where
  "upgrade_must_wait sem init_flag serial old_mode new_mode \<longleftrightarrow>
     (wait_count sem > 1 \<and> init_flag) \<or>
     serial64_compare serial (wake_serial sem) < 0 \<or>
     \<not> six_lock_is_compatible sem old_mode new_mode"

text \<open>A lock count reaching zero clears its bit of the mask.\<close>

definition drop_count :: "fusion_sixsem_t \<Rightarrow> fusion_sixsem_lock_t \<Rightarrow> fusion_sixsem_t" where
  "drop_count sem mode =
     (let c = lock_counts sem mode - 1;
          sem = sem\<lparr>lock_counts := (lock_counts sem)(mode := c)\<rparr>
      in if c = 0
         then sem\<lparr>cur_locks_mask := cur_locks_mask sem AND NOT (lock_mode_masks mode)\<rparr>
         else sem)"

definition fusion_condvar_signal :: "fusion_sixsem_t \<Rightarrow> fusion_sixsem_t" where
  "fusion_condvar_signal sem = sem\<lparr>cv_signals := cv_signals sem + 1\<rparr>"

text \<open>
  What \<open>fusion_sixsem_upgrade\<close> does once the loop is left, with the value it returns.
  On overflow of the new count the source jumps to \<open>exit\<close>, past the decrement of
  \<open>wait_count\<close>.
\<close>

definition upgrade_grant ::
  "fusion_sixsem_t \<Rightarrow> fusion_sixsem_lock_t \<Rightarrow> fusion_sixsem_lock_t \<Rightarrow> int \<times> fusion_sixsem_t" where
  "upgrade_grant sem old_mode new_mode =
     (let sem = (if old_mode \<noteq> LOCK_NULL then sem\<lparr>wake_serial := wake_serial sem + 1\<rparr> else sem);
          sem = (if old_mode \<noteq> LOCK_NULL then drop_count sem old_mode else sem);
          c = lock_counts sem new_mode + 1
      in if c = 0 then (- EAGAIN, sem)
         else
           let sem = sem\<lparr>lock_counts := (lock_counts sem)(new_mode := c)\<rparr>;
               sem = sem\<lparr>cur_locks_mask := cur_locks_mask sem OR lock_mode_masks new_mode\<rparr>;
               sem = sem\<lparr>wait_count := wait_count sem - 1\<rparr>;
               sem = (if wait_count sem > 0 then fusion_condvar_signal sem else sem)
           in (0, sem))"

datatype upgrade_outcome = Returned int | Sleeping u64 fusion_sixsem_lock_t

text \<open>\<open>fusion_sixsem_upgrade\<close> up to its return or its first wait (with the serial drawn).\<close>

definition fusion_sixsem_upgrade ::
  "fusion_sixsem_t \<Rightarrow> fusion_sixsem_lock_t \<Rightarrow> fusion_sixsem_lock_t
     \<Rightarrow> upgrade_outcome \<times> fusion_sixsem_t" where
  "fusion_sixsem_upgrade sem old_mode req_mode =
     (let new_mode = upgrade_conversion req_mode old_mode
      in if wait_count sem + 1 = 0 then (Returned (- EAGAIN), sem)
         else
           let sem = sem\<lparr>wait_count := wait_count sem + 1\<rparr>;
               serial = wait_serial sem;
               sem = (if old_mode \<noteq> LOCK_NULL
                      then sem\<lparr>wait_serial := wait_serial sem + 1\<rparr> else sem)
           in if upgrade_must_wait sem True serial old_mode new_mode
              then (Sleeping serial new_mode, sem)
              else let (rc, sem) = upgrade_grant sem old_mode new_mode in (Returned rc, sem))"

text \<open>One pass of the loop after \<open>fusion_condvar_wait\<close> returned; \<open>init_flag\<close> is false by then.\<close>

definition fusion_sixsem_resume ::
  "fusion_sixsem_t \<Rightarrow> u64 \<Rightarrow> fusion_sixsem_lock_t \<Rightarrow> fusion_sixsem_lock_t
     \<Rightarrow> upgrade_outcome \<times> fusion_sixsem_t" where
  "fusion_sixsem_resume sem serial old_mode new_mode =
     (if upgrade_must_wait sem False serial old_mode new_mode
      then (Sleeping serial new_mode, sem)
      else let (rc, sem) = upgrade_grant sem old_mode new_mode in (Returned rc, sem))"

definition fusion_sixsem_down ::
  "fusion_sixsem_t \<Rightarrow> fusion_sixsem_lock_t \<Rightarrow> upgrade_outcome \<times> fusion_sixsem_t" where
  "fusion_sixsem_down sem new_mode = fusion_sixsem_upgrade sem LOCK_NULL new_mode"

definition fusion_sixsem_down_trylock ::
  "fusion_sixsem_t \<Rightarrow> fusion_sixsem_lock_t \<Rightarrow> bool \<times> fusion_sixsem_t" where
  "fusion_sixsem_down_trylock sem mode =
     (if wait_count sem > 0 then (False, sem)
      else if wait_serial sem = wake_serial sem \<and> six_lock_is_compatible sem LOCK_NULL mode
      then
        let c = lock_counts sem mode + 1
        in if c = 0 then (False, sem)
           else
             let sem = sem\<lparr>lock_counts := (lock_counts sem)(mode := c)\<rparr>;
                 sem = sem\<lparr>cur_locks_mask := cur_locks_mask sem OR lock_mode_masks mode\<rparr>
             in (True, sem)
      else (False, sem))"

definition fusion_sixsem_up :: "fusion_sixsem_t \<Rightarrow> fusion_sixsem_lock_t \<Rightarrow> fusion_sixsem_t" where
  "fusion_sixsem_up sem mode = fusion_condvar_signal (drop_count sem mode)"

subsection \<open>The lock and its clients\<close>

text \<open>
  A client holds nothing, holds a mode, or sleeps in \<open>fusion_sixsem_upgrade\<close>; a sleeper that
  asked for a conversion still holds its old mode.
\<close>

datatype client =
    Released
  | Holding fusion_sixsem_lock_t
  | Waiting fusion_sixsem_lock_t fusion_sixsem_lock_t u64

record six_sys =
  sem :: fusion_sixsem_t
  clients :: "nat \<Rightarrow> client"

definition six_init :: six_sys where
  "six_init = \<lparr>sem = fusion_sixsem_init, clients = (\<lambda>_. Released)\<rparr>"

text \<open>
  The client's state after an upgrade step: the mode granted, the wait entered, or, on
  \<open>-EAGAIN\<close>, what it is left with.  A request refused because the queue is full keeps the old
  mode; one refused because the count is full has already given it up.
\<close>

fun client_after :: "fusion_sixsem_lock_t \<Rightarrow> client \<Rightarrow> upgrade_outcome \<Rightarrow> fusion_sixsem_lock_t \<Rightarrow> client" where
  "client_after old refused (Sleeping serial new) _ = Waiting old new serial"
| "client_after old refused (Returned rc) new = (if rc = 0 then Holding new else refused)"

definition wait_queue_full :: "fusion_sixsem_t \<Rightarrow> bool" where
  "wait_queue_full s \<longleftrightarrow> wait_count s + 1 = 0"

inductive six_step :: "six_sys \<Rightarrow> six_sys \<Rightarrow> bool" where
  down: "clients s t = Released \<Longrightarrow> fusion_sixsem_down (sem s) req = (out, sem') \<Longrightarrow>
     six_step s \<lparr>sem = sem',
       clients = (clients s)(t := client_after LOCK_NULL Released out
                                    (upgrade_conversion req LOCK_NULL))\<rparr>"
| upgrade: "clients s t = Holding old \<Longrightarrow> old \<noteq> LOCK_NULL \<Longrightarrow>
     fusion_sixsem_upgrade (sem s) old req = (out, sem') \<Longrightarrow>
     six_step s \<lparr>sem = sem',
       clients = (clients s)(t := client_after old
                    (if wait_queue_full (sem s) then Holding old else Released) out
                    (upgrade_conversion req old))\<rparr>"
| resume: "clients s t = Waiting old new serial \<Longrightarrow>
     fusion_sixsem_resume (sem s) serial old new = (out, sem') \<Longrightarrow>
     six_step s \<lparr>sem = sem', clients = (clients s)(t := client_after old Released out new)\<rparr>"
| trylock: "clients s t = Released \<Longrightarrow> fusion_sixsem_down_trylock (sem s) mode = (got, sem') \<Longrightarrow>
     six_step s \<lparr>sem = sem',
       clients = (clients s)(t := (if got then Holding mode else Released))\<rparr>"
| up: "clients s t = Holding mode \<Longrightarrow>
     six_step s \<lparr>sem = fusion_sixsem_up (sem s) mode, clients = (clients s)(t := Released)\<rparr>"

text \<open>\<open>six_steps n s s'\<close>: \<open>n\<close> steps lead from \<open>s\<close> to \<open>s'\<close>.\<close>

inductive six_steps :: "nat \<Rightarrow> six_sys \<Rightarrow> six_sys \<Rightarrow> bool" where
  none: "six_steps 0 s s"
| more: "six_steps n s s' \<Longrightarrow> six_step s' s'' \<Longrightarrow> six_steps (Suc n) s s''"

definition six_reachable :: "six_sys \<Rightarrow> bool" where
  "six_reachable = reach six_step six_init"

fun held_mode :: "client \<Rightarrow> fusion_sixsem_lock_t option" where
  "held_mode Released = None"
| "held_mode (Holding m) = Some m"
| "held_mode (Waiting old new serial) = (if old = LOCK_NULL then None else Some old)"

text \<open>\<open>grantable new old\<close>: the table admits a grant of \<open>new\<close> while another client holds \<open>old\<close>.\<close>

definition grantable :: "fusion_sixsem_lock_t \<Rightarrow> fusion_sixsem_lock_t \<Rightarrow> bool" where
  "grantable new old \<longleftrightarrow> bit (compat_mask new) (lock_index old)"

text \<open>Two modes may be held together: one of them could be granted beside the other.\<close>

definition may_coexist :: "fusion_sixsem_lock_t \<Rightarrow> fusion_sixsem_lock_t \<Rightarrow> bool" where
  "may_coexist m n \<longleftrightarrow> grantable m n \<or> grantable n m"

text \<open>The mask mirrors the counts.\<close>

definition mask_inv :: "fusion_sixsem_t \<Rightarrow> bool" where
  "mask_inv s \<longleftrightarrow> (\<forall>m. bit (cur_locks_mask s) (lock_index m) \<longleftrightarrow> lock_counts s m \<noteq> 0) \<and>
     \<not> bit (cur_locks_mask s) 7"

text \<open>
  \<open>hold_inv s h\<close>: the semaphore agrees with the modes \<open>h\<close> its clients hold.  The mask mirrors the
  counts, every count is the number of holders, and any two holders may coexist.
\<close>

definition holders :: "(nat \<Rightarrow> fusion_sixsem_lock_t option) \<Rightarrow> fusion_sixsem_lock_t \<Rightarrow> nat set" where
  "holders h m = {t. h t = Some m}"

definition hold_inv :: "fusion_sixsem_t \<Rightarrow> (nat \<Rightarrow> fusion_sixsem_lock_t option) \<Rightarrow> bool" where
  "hold_inv s h \<longleftrightarrow> mask_inv s \<and>
     (\<forall>m. finite (holders h m) \<and> card (holders h m) = unat (lock_counts s m)) \<and>
     (\<forall>t t' m m'. t \<noteq> t' \<longrightarrow> h t = Some m \<longrightarrow> h t' = Some m' \<longrightarrow> may_coexist m m')"

definition six_inv :: "six_sys \<Rightarrow> bool" where
  "six_inv s \<longleftrightarrow> hold_inv (sem s) (\<lambda>t. held_mode (clients s t))"

subsection \<open>Executable schedules\<close>

text \<open>
  A schedule names the client that moves and what it does; \<open>six_exec\<close> runs one entry (an entry
  that is not possible in the state changes nothing), so that runs can be evaluated.
\<close>

datatype six_op =
    Op_down nat fusion_sixsem_lock_t
  | Op_upgrade nat fusion_sixsem_lock_t
  | Op_resume nat
  | Op_trylock nat fusion_sixsem_lock_t
  | Op_up nat

fun six_exec :: "six_sys \<Rightarrow> six_op \<Rightarrow> six_sys" where
  "six_exec s (Op_down t req) =
     (if clients s t = Released
      then let (out, sem') = fusion_sixsem_down (sem s) req
           in \<lparr>sem = sem', clients = (clients s)(t := client_after LOCK_NULL Released out
                                                (upgrade_conversion req LOCK_NULL))\<rparr>
      else s)"
| "six_exec s (Op_upgrade t req) =
     (case clients s t of
        Holding old \<Rightarrow>
          if old = LOCK_NULL then s
          else let (out, sem') = fusion_sixsem_upgrade (sem s) old req
               in \<lparr>sem = sem', clients = (clients s)(t := client_after old
                      (if wait_queue_full (sem s) then Holding old else Released) out
                      (upgrade_conversion req old))\<rparr>
      | _ \<Rightarrow> s)"
| "six_exec s (Op_resume t) =
     (case clients s t of
        Waiting old new serial \<Rightarrow>
          let (out, sem') = fusion_sixsem_resume (sem s) serial old new
          in \<lparr>sem = sem', clients = (clients s)(t := client_after old Released out new)\<rparr>
      | _ \<Rightarrow> s)"
| "six_exec s (Op_trylock t mode) =
     (if clients s t = Released
      then let (got, sem') = fusion_sixsem_down_trylock (sem s) mode
           in \<lparr>sem = sem', clients = (clients s)(t := (if got then Holding mode else Released))\<rparr>
      else s)"
| "six_exec s (Op_up t) =
     (case clients s t of
        Holding mode \<Rightarrow>
          \<lparr>sem = fusion_sixsem_up (sem s) mode, clients = (clients s)(t := Released)\<rparr>
      | _ \<Rightarrow> s)"

definition sharers_run :: "six_op list" where
  "sharers_run = [Op_down 0 LOCK_S, Op_down 1 LOCK_IS]"

text \<open>One holder of LOCK_IS, and LOCK_IX held as often as its count can tell.\<close>

definition full_count_sem :: fusion_sixsem_t where
  "full_count_sem = \<lparr>cur_locks_mask = 6, lock_counts =
     (\<lambda>_. 0)(LOCK_IX := - 1, LOCK_IS := 1), wait_count = 0,
     wake_serial = 0, wait_serial = 0, cv_signals = 0\<rparr>"

definition overtaken_run :: "six_op list" where
  "overtaken_run = [Op_down 0 LOCK_S, Op_down 2 LOCK_S, Op_down 3 LOCK_S, Op_down 1 LOCK_X,
     Op_upgrade 0 LOCK_X, Op_up 2, Op_resume 1, Op_up 3, Op_resume 0, Op_resume 1, Op_up 0]"

lemma lock_index_less [simp]: "lock_index m < 7"
  by (cases m) simp_all

lemma lock_index_bounds [simp]: "lock_index m < 8" "lock_index m \<noteq> 7" "7 \<noteq> lock_index m"
  by (cases m; simp)+

lemma lock_index_eq_iff [simp]: "lock_index m = lock_index n \<longleftrightarrow> m = n"
  by (cases m; cases n) simp_all

lemma bit_lock_mode_masks [mask_simps]:
  "bit (lock_mode_masks m) i \<longleftrightarrow> i = lock_index m"
  by (auto simp: lock_mode_masks_def bit_exp_iff)

lemma index_cases_8: "i < (8::nat) \<Longrightarrow> (\<exists>m. i = lock_index m) \<or> i = 7"
proof -
  assume "i < 8"
  then consider "i = 0" | "i = 1" | "i = 2" | "i = 3" | "i = 4" | "i = 5" | "i = 6" | "i = 7"
    by linarith
  then show ?thesis by cases (metis lock_index.simps)+
qed

text \<open>The compatibility table read as sets of modes.\<close>

lemma grantable_table [simp]:
  "grantable LOCK_NULL n"
  "grantable LOCK_IS n \<longleftrightarrow> n \<in> {LOCK_NULL, LOCK_IS, LOCK_IX, LOCK_S, LOCK_SIX}"
  "grantable LOCK_IX n \<longleftrightarrow> n \<in> {LOCK_NULL, LOCK_IS, LOCK_IX}"
  "grantable LOCK_S n \<longleftrightarrow> n \<in> {LOCK_NULL, LOCK_IS, LOCK_S}"
  "grantable LOCK_SIX n \<longleftrightarrow> n \<in> {LOCK_NULL, LOCK_IS}"
  "grantable LOCK_U n \<longleftrightarrow> n \<in> {LOCK_NULL, LOCK_S}"
  "grantable LOCK_X n \<longleftrightarrow> n = LOCK_NULL"
  by (cases n; simp add: grantable_def bit_or_iff mask_simps)+

lemma grantable_over_null [simp]: "grantable m LOCK_NULL"
  by (cases m) simp_all

text \<open>Under the mask invariant the mask test is a test of the held modes.\<close>

lemma six_lock_is_compatible_iff:
  assumes "mask_inv s"
  shows "six_lock_is_compatible s old new \<longleftrightarrow>
    (\<forall>m. lock_counts s m \<noteq> 0 \<and> \<not> (m = old \<and> lock_counts s old = 1) \<longrightarrow> grantable new m)"
proof -
  let ?k = "cur_locks_mask s"
  let ?l = "if lock_counts s old = 1 then ?k AND NOT (lock_mode_masks old) else ?k"
  have b: "bit ?k (lock_index m) \<longleftrightarrow> lock_counts s m \<noteq> 0" and b7: "\<not> bit ?k 7" for m
    using assms by (auto simp: mask_inv_def)
  have l: "bit ?l (lock_index m) \<longleftrightarrow>
      lock_counts s m \<noteq> 0 \<and> \<not> (m = old \<and> lock_counts s old = 1)" for m
    by (auto simp: b bit_and_iff bit_not_iff mask_simps)
  have l7: "\<not> bit ?l 7" using b7 by (simp add: bit_and_iff)
  have z: "incompat_masks new AND ?l = 0 \<longleftrightarrow>
      (\<forall>m. bit ?l (lock_index m) \<longrightarrow> grantable new m)" (is "?A \<longleftrightarrow> ?B")
  proof
    assume A: ?A
    show ?B
    proof (intro allI impI, rule ccontr)
      fix m assume "bit ?l (lock_index m)" and "\<not> grantable new m"
      then have "bit (incompat_masks new AND ?l) (lock_index m)"
        using lock_index_less [of m]
        by (simp only: bit_and_iff) (simp add: incompat_masks_def bit_not_iff grantable_def)
      then show False by (simp only: A) simp
    qed
  next
    assume B: ?B
    show ?A
    proof (rule bit_eqI)
      fix i assume "possible_bit TYPE(8 word) i"
      then have "i < 8" by simp
      from index_cases_8 [OF this] show "bit (incompat_masks new AND ?l) i \<longleftrightarrow> bit (0::u8) i"
      proof
        assume "\<exists>m. i = lock_index m"
        then show ?thesis using B
          by (auto simp only: bit_and_iff) (auto simp: incompat_masks_def bit_not_iff grantable_def)
      next
        assume "i = 7"
        then show ?thesis using l7 by (simp only: bit_and_iff) simp
      qed
    qed
  qed
  show ?thesis
  proof (cases "?k = 0")
    case True
    then show ?thesis using b by (simp add: six_lock_is_compatible_def)
  next
    case False
    then have "six_lock_is_compatible s old new \<longleftrightarrow> incompat_masks new AND ?l = 0"
      by (simp add: six_lock_is_compatible_def Let_def)
    with z l show ?thesis by simp
  qed
qed

subsection \<open>The mask invariant\<close>

lemma mask_inv_add:
  assumes "mask_inv s" and "c \<noteq> 0"
  shows "mask_inv (s\<lparr>lock_counts := (lock_counts s)(m := c),
     cur_locks_mask := cur_locks_mask s OR lock_mode_masks m\<rparr>)"
  using assms by (auto simp: mask_inv_def bit_or_iff mask_simps)

lemma mask_inv_drop_count:
  assumes inv: "mask_inv s" and c: "lock_counts s m \<noteq> 0"
  shows "mask_inv (drop_count s m)"
proof (cases "lock_counts s m - 1 = 0")
  case True
  then have "drop_count s m = s\<lparr>lock_counts := (lock_counts s)(m := 0),
      cur_locks_mask := cur_locks_mask s AND NOT (lock_mode_masks m)\<rparr>"
    by (simp add: drop_count_def)
  then show ?thesis using inv by (auto simp: mask_inv_def bit_and_iff bit_not_iff mask_simps)
next
  case False
  then have "drop_count s m = s\<lparr>lock_counts := (lock_counts s)(m := lock_counts s m - 1)\<rparr>"
    by (simp add: drop_count_def)
  then show ?thesis using inv c False by (simp add: mask_inv_def)
qed

lemma mask_inv_cong [frame_simps]:
  "mask_inv (s\<lparr>wait_count := a\<rparr>) = mask_inv s"
  "mask_inv (s\<lparr>wake_serial := b\<rparr>) = mask_inv s"
  "mask_inv (s\<lparr>wait_serial := b\<rparr>) = mask_inv s"
  "mask_inv (s\<lparr>cv_signals := n\<rparr>) = mask_inv s"
  by (simp_all add: mask_inv_def)

lemma drop_count_fields [frame_simps]:
  "lock_counts (drop_count s m) = (lock_counts s)(m := lock_counts s m - 1)"
  "wait_count (drop_count s m) = wait_count s"
  "wake_serial (drop_count s m) = wake_serial s"
  "wait_serial (drop_count s m) = wait_serial s"
  by (simp_all add: drop_count_def Let_def)

lemma signal_fields [frame_simps]:
  "lock_counts (fusion_condvar_signal s) = lock_counts s"
  "cur_locks_mask (fusion_condvar_signal s) = cur_locks_mask s"
  "wait_count (fusion_condvar_signal s) = wait_count s"
  "wake_serial (fusion_condvar_signal s) = wake_serial s"
  "wait_serial (fusion_condvar_signal s) = wait_serial s"
  "mask_inv (fusion_condvar_signal s) = mask_inv s"
  by (simp_all add: fusion_condvar_signal_def frame_simps)

subsection \<open>The holders invariant\<close>

lemma hold_inv_cong [frame_simps]:
  "hold_inv (s\<lparr>wait_count := a\<rparr>) h = hold_inv s h"
  "hold_inv (s\<lparr>wake_serial := b\<rparr>) h = hold_inv s h"
  "hold_inv (s\<lparr>wait_serial := b\<rparr>) h = hold_inv s h"
  "hold_inv (fusion_condvar_signal s) h = hold_inv s h"
  by (simp_all add: hold_inv_def frame_simps)

lemma compatible_cong [frame_simps]:
  "six_lock_is_compatible (s\<lparr>wait_count := a\<rparr>) old new = six_lock_is_compatible s old new"
  "six_lock_is_compatible (s\<lparr>wait_serial := b\<rparr>) old new = six_lock_is_compatible s old new"
  by (simp_all add: six_lock_is_compatible_def)

lemma holders_upd_None: "h t = Some m \<Longrightarrow>
    holders (h(t := None)) n = (if n = m then holders h m - {t} else holders h n)"
  by (auto simp: holders_def)

lemma holders_upd_Some: "h t = None \<Longrightarrow>
    holders (h(t := Some m)) n = (if n = m then insert t (holders h m) else holders h n)"
  by (auto simp: holders_def)

lemma hold_inv_count: "hold_inv s h \<Longrightarrow> h t = Some m \<Longrightarrow> lock_counts s m \<noteq> 0"
proof
  assume inv: "hold_inv s h" and "h t = Some m" and "lock_counts s m = 0"
  then have "t \<in> holders h m" "card (holders h m) = 0" "finite (holders h m)"
    by (auto simp: hold_inv_def holders_def)
  then show False by simp
qed

lemma hold_inv_drop:
  assumes inv: "hold_inv s h" and ht: "h t = Some m"
  shows "hold_inv (drop_count s m) (h(t := None))"
proof -
  have c: "lock_counts s m \<noteq> 0" using hold_inv_count [of s h, OF inv ht] .
  have "finite (holders (h(t := None)) n) \<and>
      card (holders (h(t := None)) n) = unat (lock_counts (drop_count s m) n)" for n
    using inv c ht by (auto simp: hold_inv_def holders_upd_None [of h, OF ht] frame_simps unat_decr)
      (simp add: holders_def card_Diff_singleton)
  then show ?thesis
    using inv mask_inv_drop_count [OF _ c] by (auto simp: hold_inv_def)
qed

lemma hold_inv_add:
  assumes inv: "hold_inv s h" and ht: "h t = None" and c: "lock_counts s m + 1 \<noteq> 0"
    and others: "\<And>t' m'. h t' = Some m' \<Longrightarrow> grantable m m'"
  shows "hold_inv (s\<lparr>lock_counts := (lock_counts s)(m := lock_counts s m + 1),
     cur_locks_mask := cur_locks_mask s OR lock_mode_masks m\<rparr>) (h(t := Some m))"
proof -
  have t: "t \<notin> holders h m" using ht by (simp add: holders_def)
  have "finite (holders (h(t := Some m)) n) \<and> card (holders (h(t := Some m)) n) =
      unat (((lock_counts s)(m := lock_counts s m + 1)) n)" for n
    using inv t by (auto simp: hold_inv_def holders_upd_Some [of h, OF ht] unat_incr [OF c])
  moreover have "mask_inv s" using inv by (simp add: hold_inv_def)
  ultimately show ?thesis
    using inv others mask_inv_add [OF _ c] by (auto simp: hold_inv_def may_coexist_def)
qed

text \<open>
  A request the table admits may coexist with every other client's mode: the count of one that
  exempts the old mode is the requester's own.
\<close>

lemma compatible_others:
  assumes inv: "hold_inv s h" and ok: "six_lock_is_compatible s old new"
    and own: "old \<noteq> LOCK_NULL \<Longrightarrow> h t = Some old"
    and other: "h t' = Some m" and ne: "t' \<noteq> t"
  shows "grantable new m"
proof (cases "m = old \<and> lock_counts s old = 1 \<and> old \<noteq> LOCK_NULL")
  case True
  then have "card (holders h old) = 1" using inv by (simp add: hold_inv_def)
  moreover have "t \<in> holders h old" "t' \<in> holders h old"
    using True own other by (auto simp: holders_def)
  ultimately show ?thesis using ne by (metis card_1_singletonE singletonD)
next
  case False
  show ?thesis
  proof (cases "m = LOCK_NULL")
    case False
    with \<open>\<not> (m = old \<and> lock_counts s old = 1 \<and> old \<noteq> LOCK_NULL)\<close>
    have "\<not> (m = old \<and> lock_counts s old = 1)" by blast
    moreover have "lock_counts s m \<noteq> 0" using hold_inv_count [OF inv other] .
    moreover have "mask_inv s" using inv by (simp add: hold_inv_def)
    ultimately show ?thesis using ok six_lock_is_compatible_iff by blast
  qed simp
qed

text \<open>The grant keeps the invariant, whether it succeeds or finds the count full.\<close>

lemma upgrade_grant_inv:
  assumes inv: "hold_inv s h" and ok: "six_lock_is_compatible s old new"
    and own: "h t = (if old = LOCK_NULL then None else Some old)"
    and g: "upgrade_grant s old new = (rc, s')"
  shows "hold_inv s' (h(t := if rc = 0 then Some new else None))"
proof -
  define s1 where "s1 = (if old \<noteq> LOCK_NULL
     then drop_count (s\<lparr>wake_serial := wake_serial s + 1\<rparr>) old else s)"
  have inv1: "hold_inv s1 (h(t := None))"
  proof (cases "old = LOCK_NULL")
    case True
    then have "h(t := None) = h" using own by auto
    with True inv show ?thesis by (simp add: s1_def)
  next
    case False
    then show ?thesis using inv own by (simp add: s1_def hold_inv_drop frame_simps)
  qed
  show ?thesis
  proof (cases "lock_counts s1 new + 1 = 0")
    case True
    then have "rc = - EAGAIN" "s' = s1"
      using g by (auto simp: upgrade_grant_def s1_def Let_def split: if_splits)
    with inv1 show ?thesis by simp
  next
    case False
    define s2 where "s2 = s1\<lparr>lock_counts := (lock_counts s1)(new := lock_counts s1 new + 1),
       cur_locks_mask := cur_locks_mask s1 OR lock_mode_masks new\<rparr>"
    have "grantable new m'" if "(h(t := None)) t' = Some m'" for t' m'
      using that own compatible_others [OF inv ok, of t t' m'] by (auto split: if_splits)
    then have inv2: "hold_inv s2 (h(t := Some new))"
      using hold_inv_add [OF inv1 _ False, of t] by (simp add: s2_def)
    have "rc = 0 \<and> (s' = s2\<lparr>wait_count := wait_count s2 - 1\<rparr> \<or>
        s' = fusion_condvar_signal (s2\<lparr>wait_count := wait_count s2 - 1\<rparr>))"
      using g False by (auto simp: upgrade_grant_def s1_def s2_def Let_def split: if_splits)
    with inv2 show ?thesis by (auto simp: frame_simps)
  qed
qed

lemma trylock_inv:
  assumes inv: "hold_inv s h" and own: "h t = None"
    and g: "fusion_sixsem_down_trylock s mode = (got, s')"
  shows "hold_inv s' (h(t := if got then Some mode else None))"
proof (cases got)
  case True
  with g have ok: "six_lock_is_compatible s LOCK_NULL mode" and c: "lock_counts s mode + 1 \<noteq> 0"
    and s': "s' = s\<lparr>lock_counts := (lock_counts s)(mode := lock_counts s mode + 1),
       cur_locks_mask := cur_locks_mask s OR lock_mode_masks mode\<rparr>"
    by (auto simp: fusion_sixsem_down_trylock_def Let_def split: if_splits)
  have "grantable mode m'" if "h t' = Some m'" for t' m'
    using that own compatible_others [OF inv ok, of t t' m'] by (cases "t' = t") auto
  then show ?thesis using hold_inv_add [of s h t mode, OF inv own c] True s' by simp
next
  case False
  moreover have "h(t := None) = h" using own by auto
  ultimately show ?thesis
    using g inv by (auto simp: fusion_sixsem_down_trylock_def Let_def split: if_splits)
qed

lemma held_upd: "(\<lambda>u. held_mode (if u = t then x else c u)) = (\<lambda>u. held_mode (c u))(t := held_mode x)"
  by auto

lemma fusion_sixsem_resume_inv:
  assumes inv: "hold_inv s h" and own: "h t = (if old = LOCK_NULL then None else Some old)"
    and r: "fusion_sixsem_resume s serial old new = (out, s')"
  shows "hold_inv s' (h(t := held_mode (client_after old Released out new)))"
proof (cases "upgrade_must_wait s False serial old new")
  case True
  moreover have "h(t := if old = LOCK_NULL then None else Some old) = h" using own by auto
  ultimately show ?thesis using r inv by (auto simp: fusion_sixsem_resume_def)
next
  case False
  then have ok: "six_lock_is_compatible s old new" by (simp add: upgrade_must_wait_def)
  obtain rc where "upgrade_grant s old new = (rc, s')" and out: "out = Returned rc"
    using r False by (auto simp: fusion_sixsem_resume_def split: prod.splits)
  from upgrade_grant_inv [OF inv ok own this(1)] out show ?thesis by auto
qed

text \<open>A call of \<open>fusion_sixsem_upgrade\<close> that gets past the full-queue test is a resume with the flag set.\<close>

lemma fusion_sixsem_upgrade_inv:
  assumes inv: "hold_inv s h" and own: "h t = (if old = LOCK_NULL then None else Some old)"
    and u: "fusion_sixsem_upgrade s old req = (out, s')"
    and ref: "held_mode refused = (if wait_queue_full s then h t else None)"
  shows "hold_inv s' (h(t := held_mode (client_after old refused out (upgrade_conversion req old))))"
proof (cases "wait_queue_full s")
  case True
  moreover have "h(t := h t) = h" by auto
  ultimately show ?thesis
    using u inv ref by (auto simp: fusion_sixsem_upgrade_def wait_queue_full_def)
next
  case False
  let ?new = "upgrade_conversion req old"
  define s1 where "s1 = (if old \<noteq> LOCK_NULL
    then s\<lparr>wait_count := wait_count s + 1, wait_serial := wait_serial s + 1\<rparr>
    else s\<lparr>wait_count := wait_count s + 1\<rparr>)"
  have inv1: "hold_inv s1 h" using inv by (simp add: s1_def frame_simps)
  have u1: "(out, s') = (if upgrade_must_wait s1 True (wait_serial s) old ?new
      then (Sleeping (wait_serial s) ?new, s1)
      else let (rc, s) = upgrade_grant s1 old ?new in (Returned rc, s))"
    using u False unfolding fusion_sixsem_upgrade_def s1_def wait_queue_full_def Let_def
    by (simp split: if_splits)
  show ?thesis
  proof (cases "upgrade_must_wait s1 True (wait_serial s) old ?new")
    case True
    moreover have "h(t := if old = LOCK_NULL then None else Some old) = h" using own by auto
    ultimately show ?thesis using u1 inv1 by simp
  next
    case nowait: False
    then have ok: "six_lock_is_compatible s1 old ?new" by (simp add: upgrade_must_wait_def)
    obtain rc where "upgrade_grant s1 old ?new = (rc, s')" and out: "out = Returned rc"
      using u1 nowait by (auto split: prod.splits)
    from upgrade_grant_inv [OF inv1 ok own this(1)] out ref False show ?thesis by auto
  qed
qed

lemma hold_inv_init: "hold_inv fusion_sixsem_init (\<lambda>_. None)"
  by (simp add: hold_inv_def mask_inv_def fusion_sixsem_init_def holders_def)

lemma six_inv_init: "six_inv six_init"
  using hold_inv_init by (simp add: six_inv_def six_init_def)

lemma six_step_inv: "six_step s s' \<Longrightarrow> six_inv s \<Longrightarrow> six_inv s'"
proof (induction rule: six_step.induct)
  case (down s t req out sem')
  then show ?case
    using fusion_sixsem_upgrade_inv [of "sem s" "\<lambda>u. held_mode (clients s u)" t LOCK_NULL req out sem' Released]
    by (simp add: six_inv_def held_upd fusion_sixsem_down_def)
next
  case (upgrade s t old req out sem')
  then show ?case
    using fusion_sixsem_upgrade_inv [of "sem s" "\<lambda>u. held_mode (clients s u)" t old req out sem'
        "if wait_queue_full (sem s) then Holding old else Released"]
    by (simp add: six_inv_def held_upd)
next
  case (resume s t old new serial out sem')
  then show ?case
    using fusion_sixsem_resume_inv [of "sem s" "\<lambda>u. held_mode (clients s u)" t old serial new out sem']
    by (simp add: six_inv_def held_upd)
next
  case (trylock s t mode got sem')
  then show ?case
    using trylock_inv [of "sem s" "\<lambda>u. held_mode (clients s u)" t mode got sem']
    by (cases got) (simp_all add: six_inv_def held_upd)
next
  case (up s t mode)
  then show ?case
    using hold_inv_drop [of "sem s" "\<lambda>u. held_mode (clients s u)" t mode]
    by (simp add: six_inv_def held_upd fusion_sixsem_up_def frame_simps)
qed

interpretation six_sys: transition_invariant six_step six_inv
  by unfold_locales (rule six_step_inv)

lemma six_reachable_inv: "six_reachable s \<Longrightarrow> six_inv s"
  unfolding six_reachable_def using six_sys.reach_inv six_inv_init by blast

lemma six_reachable_init: "six_reachable six_init"
  unfolding six_reachable_def by (rule reach.start)

lemma six_reachable_step: "six_reachable s \<Longrightarrow> six_step s s' \<Longrightarrow> six_reachable s'"
  unfolding six_reachable_def by (rule reach.step)

subsection \<open>Serial numbers\<close>

lemma unat_neg_nonzero: "w \<noteq> 0 \<Longrightarrow> unat (- w) = 2 ^ LENGTH('a) - unat w"
  for w :: "'a::len word"
proof -
  assume "w \<noteq> 0"
  then have pos: "0 < uint w" by (simp add: word_neq_0_conv word_less_def)
  have "uint (- w) = (- uint w) mod 2 ^ LENGTH('a)" by (simp add: uint_word_ariths)
  also have "\<dots> = 2 ^ LENGTH('a) - uint w"
    using pos uint_lt2p [of w] by (simp add: zmod_zminus1_eq_if)
  finally have "uint (- w) = 2 ^ LENGTH('a) - uint w" .
  moreover have "unat w \<le> 2 ^ LENGTH('a)" by (rule less_imp_le, rule unsigned_less)
  ultimately have "int (unat (- w)) = int (2 ^ LENGTH('a) - unat w)"
    by (simp add: of_nat_diff)
  then show ?thesis by (simp only: of_nat_eq_iff)
qed

lemma serial64_compare_behind:
  assumes "unat a < unat b" and "unat b < 2 ^ 63"
  shows "serial64_compare a b = - 1"
proof -
  have lt: "a < b" using assms(1) by (simp add: word_less_nat_alt)
  then have "unat (b - a) = unat b - unat a" by (simp add: unat_sub)
  then have "b - a < push_bit 63 1" using assms by (simp add: word_less_nat_alt)
  with lt show ?thesis by (simp add: serial64_compare_def)
qed

lemma serial64_compare_ahead:
  assumes "unat b < unat a" and "unat a < 2 ^ 63"
  shows "serial64_compare a b = - 1"
proof -
  have lt: "b < a" using assms(1) by (simp add: word_less_nat_alt)
  have "unat (a - b) = unat a - unat b" using lt by (simp add: unat_sub)
  have "a - b \<noteq> 0" using lt by auto
  have "b - a = - (a - b)" by simp
  then have "unat (b - a) = 2 ^ 64 - unat (a - b)"
    using \<open>a - b \<noteq> 0\<close> unat_neg_nonzero [of "a - b"] by simp
  then have "\<not> b - a < push_bit 63 1"
    using assms \<open>unat (a - b) = _\<close> by (simp add: word_less_nat_alt)
  moreover have "\<not> a < b" "a \<noteq> b" using lt by auto
  ultimately show ?thesis by (simp add: serial64_compare_def)
qed

subsection \<open>An overtaken waiter\<close>

lemma upgrade_grant_wake:
  "wake_serial (snd (upgrade_grant s old new)) = wake_serial s \<or>
   wake_serial (snd (upgrade_grant s old new)) = wake_serial s + 1"
  by (auto simp: upgrade_grant_def Let_def frame_simps)

lemma fusion_sixsem_upgrade_wake:
  "wake_serial (snd (fusion_sixsem_upgrade s old req)) = wake_serial s \<or>
   wake_serial (snd (fusion_sixsem_upgrade s old req)) = wake_serial s + 1"
  using upgrade_grant_wake
    [of "s\<lparr>wait_count := wait_count s + 1, wait_serial := wait_serial s + 1\<rparr>" old "upgrade_conversion req old"]
    upgrade_grant_wake [of "s\<lparr>wait_count := wait_count s + 1\<rparr>" old "upgrade_conversion req old"]
  by (auto simp: fusion_sixsem_upgrade_def Let_def split: prod.splits)

lemma fusion_sixsem_resume_wake:
  "wake_serial (snd (fusion_sixsem_resume s serial old new)) = wake_serial s \<or>
   wake_serial (snd (fusion_sixsem_resume s serial old new)) = wake_serial s + 1"
  using upgrade_grant_wake [of s old new]
  by (auto simp: fusion_sixsem_resume_def Let_def split: prod.splits)

lemma six_step_wake:
  "six_step s s' \<Longrightarrow> wake_serial (sem s') = wake_serial (sem s) \<or>
     wake_serial (sem s') = wake_serial (sem s) + 1"
proof (induction rule: six_step.induct)
  case (down s t req out sem')
  then show ?case using fusion_sixsem_upgrade_wake [of "sem s" LOCK_NULL req]
    by (simp add: fusion_sixsem_down_def)
next
  case (upgrade s t old req out sem')
  then show ?case using fusion_sixsem_upgrade_wake [of "sem s" old req] by simp
next
  case (resume s t old new serial out sem')
  then show ?case using fusion_sixsem_resume_wake [of "sem s" serial old new] by simp
next
  case (trylock s t mode got sem')
  then show ?case by (auto simp: fusion_sixsem_down_trylock_def Let_def split: if_splits)
next
  case (up s t mode)
  then show ?case by (simp add: fusion_sixsem_up_def frame_simps)
qed

text \<open>Only its own resume moves a waiter, and that re-tests the serial.\<close>

lemma overtaken_step:
  assumes "six_step s s'" and "clients s t = Waiting old new serial"
    and "serial64_compare serial (wake_serial (sem s)) < 0"
  shows "clients s' t = Waiting old new serial"
  using assms
proof (induction rule: six_step.induct)
  case (resume s u old' new' serial' out sem')
  then show ?case by (auto simp: fusion_sixsem_resume_def upgrade_must_wait_def)
qed auto

lemma overtaken_steps:
  assumes "six_steps n s s'" and "clients s t = Waiting old new serial"
    and "unat serial < unat (wake_serial (sem s))"
    and "unat (wake_serial (sem s)) + n < 2 ^ 63"
  shows "clients s' t = Waiting old new serial \<and>
    unat serial < unat (wake_serial (sem s')) \<and>
    unat (wake_serial (sem s')) \<le> unat (wake_serial (sem s)) + n"
  using assms
proof (induction rule: six_steps.induct)
  case (none s)
  then show ?case by simp
next
  case (more n s s' s'')
  then have IH: "clients s' t = Waiting old new serial"
    "unat serial < unat (wake_serial (sem s'))"
    "unat (wake_serial (sem s')) \<le> unat (wake_serial (sem s)) + n" by auto
  then have lt: "unat (wake_serial (sem s')) + 1 < 2 ^ 63" using more.prems by linarith
  then have "unat (wake_serial (sem s') + 1) = unat (wake_serial (sem s')) + 1"
    using unat_add_no_wrap [of "wake_serial (sem s')" 1] by simp
  with six_step_wake [OF more.hyps(2)] IH
  have "unat serial < unat (wake_serial (sem s''))"
    "unat (wake_serial (sem s'')) \<le> unat (wake_serial (sem s)) + Suc n" by auto
  moreover have "clients s'' t = Waiting old new serial"
    using overtaken_step [OF more.hyps(2) IH(1)] serial64_compare_behind [OF IH(2)] lt by simp
  ultimately show ?case by simp
qed

subsection \<open>Queueing\<close>

lemma must_wait_behind_others:
  "wait_count s \<noteq> 0 \<Longrightarrow> wait_count s + 1 \<noteq> 0 \<Longrightarrow> wait_count s + 1 > 1"
  for s :: fusion_sixsem_t
  by (simp add: word_less_nat_alt unat_incr) (simp add: unat_gt_0)

subsection \<open>Executable schedules\<close>

lemma six_exec_step: "six_exec s op = s \<or> six_step s (six_exec s op)"
proof (cases op)
  case (Op_upgrade t req)
  then show ?thesis
    by (cases "clients s t"; cases "held_mode (clients s t) = Some LOCK_NULL")
      (auto simp: Let_def intro!: disjI2 six_step.upgrade split: prod.splits split del: if_split)
next
  case (Op_trylock t mode)
  then show ?thesis
    by (cases "clients s t")
      (auto simp: Let_def intro!: disjI2 six_step.trylock split: prod.splits split del: if_split)
qed (auto simp: Let_def split: client.splits prod.splits intro: six_step.intros)

lemma six_exec_reachable: "six_reachable s \<Longrightarrow> six_reachable (foldl six_exec s ops)"
proof (induction ops arbitrary: s)
  case (Cons op ops)
  have "six_reachable (six_exec s op)"
    using six_exec_step [of s op] Cons.prems six_reachable_step [of s "six_exec s op"] by auto
  then show ?case using Cons.IH by simp
qed simp

lemma overtaken_run_end:
  "clients (foldl six_exec six_init overtaken_run) 1 = Waiting LOCK_NULL LOCK_X 0"
  "wake_serial (sem (foldl six_exec six_init overtaken_run)) = 1"
  "cur_locks_mask (sem (foldl six_exec six_init overtaken_run)) = 0"
  by code_simp+

lemma two_sharers:
  "clients (foldl six_exec six_init sharers_run) 0 = Holding LOCK_S"
  "clients (foldl six_exec six_init sharers_run) 1 = Holding LOCK_IS"
  by code_simp+

lemmas six_run_simps = six_exec_reachable [OF six_reachable_init] two_sharers overtaken_run_end

subsection \<open>Properties\<close>

text \<open>
  C1: two clients never hold modes the compatibility table keeps apart, in any state that any
  interleaving of down, upgrade, wake-up, trylock and up leads to (a client asleep in a conversion
  still counts with its old mode).
\<close>

theorem six_mutual_exclusion:
  assumes "six_reachable s" and "t \<noteq> t'"
    and "held_mode (clients s t) = Some m" and "held_mode (clients s t') = Some m'"
  shows "may_coexist m m'"
  using six_reachable_inv [OF assms(1)] assms(2-) unfolding six_inv_def hold_inv_def by blast

theorem six_mutual_exclusion_witness: "may_coexist LOCK_S LOCK_IS"
  by (rule six_mutual_exclusion
      [where s = "foldl six_exec six_init sharers_run" and t = 0 and t' = 1])
    (simp_all add: six_run_simps del: One_nat_def)

text \<open>
  C2: in every reachable state a lock count is the number of clients that hold that mode, and the
  bit of the mode in \<open>cur_locks_mask\<close> is set exactly when some client holds it; no other bit is.
\<close>

theorem six_counts_are_holders:
  assumes "six_reachable s"
  shows "unat (lock_counts (sem s) m) = card (holders (\<lambda>t. held_mode (clients s t)) m) \<and>
    (bit (cur_locks_mask (sem s)) (lock_index m) \<longleftrightarrow> (\<exists>t. held_mode (clients s t) = Some m)) \<and>
    \<not> bit (cur_locks_mask (sem s)) 7"
proof (intro conjI)
  let ?h = "\<lambda>t. held_mode (clients s t)"
  have inv: "hold_inv (sem s) ?h" using six_reachable_inv [OF assms] by (simp add: six_inv_def)
  then show card: "unat (lock_counts (sem s) m) = card (holders ?h m)"
    and "\<not> bit (cur_locks_mask (sem s)) 7" by (simp_all add: hold_inv_def mask_inv_def)
  have fin: "finite (holders ?h m)" using inv by (simp add: hold_inv_def)
  have "lock_counts (sem s) m \<noteq> 0 \<longleftrightarrow> card (holders ?h m) \<noteq> 0"
    by (simp add: card [symmetric] unat_eq_zero)
  also have "\<dots> \<longleftrightarrow> holders ?h m \<noteq> {}" by (simp add: fin)
  also have "\<dots> \<longleftrightarrow> (\<exists>t. ?h t = Some m)" by (auto simp: holders_def)
  finally show "bit (cur_locks_mask (sem s)) (lock_index m) \<longleftrightarrow> (\<exists>t. ?h t = Some m)"
    using inv by (simp add: hold_inv_def mask_inv_def)
qed

theorem six_counts_are_holders_witness:
  "unat (lock_counts (sem (foldl six_exec six_init sharers_run)) LOCK_S) =
   card (holders (\<lambda>t. held_mode (clients (foldl six_exec six_init sharers_run) t)) LOCK_S)"
  using six_counts_are_holders [of "foldl six_exec six_init sharers_run" LOCK_S]
  by (simp only: six_run_simps)

text \<open>
  Nobody cuts in line.  While a request waits, a new request for any mode is queued (or refused
  with \<open>-EAGAIN\<close> when 65535 already wait) whatever the lock's state, and a trylock fails and changes
  nothing.
\<close>

lemma six_no_cutting_in_line:
  assumes "wait_count s \<noteq> 0"
  shows "fst (fusion_sixsem_upgrade s old req) =
      (if wait_count s + 1 = 0 then Returned (- EAGAIN)
       else Sleeping (wait_serial s) (upgrade_conversion req old)) \<and>
    fusion_sixsem_down_trylock s mode = (False, s)"
proof (intro conjI)
  show "fusion_sixsem_down_trylock s mode = (False, s)"
    using assms by (simp add: fusion_sixsem_down_trylock_def word_neq_0_conv)
  show "fst (fusion_sixsem_upgrade s old req) =
      (if wait_count s + 1 = 0 then Returned (- EAGAIN)
       else Sleeping (wait_serial s) (upgrade_conversion req old))"
    using must_wait_behind_others [OF assms]
    by (cases "wait_count s + 1 = 0") (simp_all add: fusion_sixsem_upgrade_def upgrade_must_wait_def Let_def)
qed

lemma six_no_cutting_in_line_example:
  "fst (fusion_sixsem_upgrade (fusion_sixsem_init\<lparr>wait_count := 1\<rparr>) LOCK_NULL LOCK_S) =
   Sleeping 0 LOCK_S"
  using six_no_cutting_in_line [of "fusion_sixsem_init\<lparr>wait_count := 1\<rparr>" LOCK_NULL LOCK_S]
  by (simp add: fusion_sixsem_init_def upgrade_conversion_def upgrade_conversion_table_def)

text \<open>
  C3: a request can be lost.  A plain down draws its serial without advancing
  \<open>wait_serial\<close>, so a conversion that queues later and is granted first leaves it behind: there
  is a reachable state in which no client holds any mode, one client waits for LOCK_X, and whatever
  the clients do in any number of steps short of the 2^63 that the serials can tell apart, that
  request is not granted.
\<close>

theorem six_lost_request:
  "\<exists>s. six_reachable s \<and> cur_locks_mask (sem s) = 0 \<and> clients s 1 = Waiting LOCK_NULL LOCK_X 0 \<and>
     (\<forall>n s'. n < 2 ^ 63 - 1 \<longrightarrow> six_steps n s s' \<longrightarrow> clients s' 1 = Waiting LOCK_NULL LOCK_X 0)"
proof (intro exI conjI allI impI)
  let ?s = "foldl six_exec six_init overtaken_run"
  show "six_reachable ?s" by (rule six_run_simps)
  show "cur_locks_mask (sem ?s) = 0" and w: "clients ?s 1 = Waiting LOCK_NULL LOCK_X 0"
    by (rule overtaken_run_end)+
  fix n s' assume "n < 2 ^ 63 - 1" and "six_steps n ?s s'"
  then show "clients s' 1 = Waiting LOCK_NULL LOCK_X 0"
    using overtaken_steps [of n ?s s' 1, OF _ w] by (simp add: overtaken_run_end)
qed

theorem six_lost_request_witness:
  "\<exists>s. six_reachable s \<and> clients s 1 = Waiting LOCK_NULL LOCK_X 0"
  using six_lost_request by blast

text \<open>
  \<open>serial64_compare\<close> does not order serials: for any two distinct serials below 2^63 it returns
  -1 in both directions, where its comment promises 1 for the greater first.
\<close>

lemma serial64_compare_not_antisymmetric:
  assumes "a \<noteq> b" and "unat a < 2 ^ 63" and "unat b < 2 ^ 63"
  shows "serial64_compare a b = - 1 \<and> serial64_compare b a = - 1"
  using assms serial64_compare_behind serial64_compare_ahead
  by (metis linorder_neqE_nat word_unat_eq_iff)

text \<open>
  When the count of the granted mode is at its maximum, a conversion from another mode returns
  \<open>-EAGAIN\<close> having already given up the old mode, and leaves \<open>wait_count\<close> one too high, so
  that every later down and trylock on the semaphore finds a waiter that does not exist.
\<close>

lemma six_full_count_leaks_waiter:
  assumes "old \<noteq> LOCK_NULL" and "old \<noteq> new" and "lock_counts s new = - 1"
    and "wait_count s = 0" and "upgrade_conversion req old = new"
    and "\<not> upgrade_must_wait (s\<lparr>wait_count := 1, wait_serial := wait_serial s + 1\<rparr>)
           True (wait_serial s) old new"
  shows "case fusion_sixsem_upgrade s old req of (out, s') \<Rightarrow>
      out = Returned (- EAGAIN) \<and>
      lock_counts s' old = lock_counts s old - 1 \<and>
      wait_count s' = 1 \<and>
      fusion_sixsem_down_trylock s' mode = (False, s')"
  using assms
  by (simp add: fusion_sixsem_upgrade_def fusion_sixsem_down_trylock_def upgrade_grant_def
      Let_def frame_simps)

lemma six_full_count_leaks_waiter_example:
  "case fusion_sixsem_upgrade full_count_sem LOCK_IS LOCK_IX of (out, s') \<Rightarrow>
      out = Returned (- EAGAIN) \<and>
      lock_counts s' LOCK_IS = lock_counts full_count_sem LOCK_IS - 1 \<and>
      wait_count s' = 1 \<and>
      fusion_sixsem_down_trylock s' LOCK_S = (False, s')"
  by (rule six_full_count_leaks_waiter [where new = LOCK_IX]; code_simp)

text \<open>
  the conversion table is symmetric and idempotent, LOCK_NULL is neutral and LOCK_X absorbing,
  and the converted mode is admitted beside a held mode only if both modes it combines are, with
  one exception: converting between LOCK_U and LOCK_SIX gives LOCK_SIX, which is admitted beside
  LOCK_IS although LOCK_U is not.
\<close>

lemma upgrade_conversion_combines:
  "upgrade_conversion m n = upgrade_conversion n m \<and>
   upgrade_conversion m m = m \<and>
   upgrade_conversion LOCK_NULL m = m \<and>
   upgrade_conversion LOCK_X m = LOCK_X \<and>
   (grantable (upgrade_conversion m n) k \<and> \<not> (grantable m k \<and> grantable n k) \<longleftrightarrow>
     {m, n} = {LOCK_U, LOCK_SIX} \<and> k = LOCK_IS)"
proof (intro conjI)
  show "upgrade_conversion m n = upgrade_conversion n m" "upgrade_conversion m m = m"
    "upgrade_conversion LOCK_NULL m = m" "upgrade_conversion LOCK_X m = LOCK_X"
    by (cases m; cases n; simp add: upgrade_conversion_def upgrade_conversion_table_def)+
  show "grantable (upgrade_conversion m n) k \<and> \<not> (grantable m k \<and> grantable n k) \<longleftrightarrow>
     {m, n} = {LOCK_U, LOCK_SIX} \<and> k = LOCK_IS"
    by (cases m; cases n; cases k;
        simp add: upgrade_conversion_def upgrade_conversion_table_def doubleton_eq_iff)
qed

end
