(* ===== verification/State_Var.thy ===== *)
theory State_Var
  imports Prelude
begin

text \<open>
  State variables: \<open>state.c\<close> and \<open>include/fio/port/state.h\<close>.

  A state variable is a 32-bit state with a lock and a condition variable.  Every change runs
  under the lock, so a function is one atomic step, and \<open>__fio_wait_on_states\<close> is split at its
  condition wait.  \<open>cv_broadcasts\<close> counts the calls of \<open>fusion_condvar_broadcast\<close>.  Results of
  type \<open>option\<close> are None where C leaves the behaviour undefined: an argument read past the
  variable arguments, a table without its terminating entry, a shift by 32 or more.

  The last part puts threads around the variable: a step relation in which threads wait for one
  of several states, are woken by broadcasts, and return holding the lock.
\<close>

subsection \<open>The variable\<close>

record fio_state_t =
  fstate :: u32
  cv_broadcasts :: nat

definition FIO_STATE_INVALID :: u32 where
  "FIO_STATE_INVALID = 0"

definition fio_init_state :: "u32 \<Rightarrow> fio_state_t" where
  "fio_init_state initial = \<lparr>fstate = initial, cv_broadcasts = 0\<rparr>"

definition fio_set_state_locked :: "fio_state_t \<Rightarrow> u32 \<Rightarrow> u32 \<times> fio_state_t" where
  "fio_set_state_locked s new_state =
     (let old_state = fstate s
      in if old_state \<noteq> new_state
         then (old_state, s\<lparr>fstate := new_state, cv_broadcasts := cv_broadcasts s + 1\<rparr>)
         else (old_state, s))"

definition fio_state_valid :: "fio_state_t \<Rightarrow> bool" where
  "fio_state_valid s \<longleftrightarrow> fstate s \<noteq> FIO_STATE_INVALID"

text \<open>\<open>fio_set_state\<close> passes the old state through an \<open>int\<close> and back, which keeps its bits.\<close>

definition fio_set_state :: "fio_state_t \<Rightarrow> u32 \<Rightarrow> u32 \<times> fio_state_t" where
  "fio_set_state s new_state = fio_set_state_locked s new_state"

definition fio_in_state :: "fio_state_t \<Rightarrow> u32 \<Rightarrow> bool" where
  "fio_in_state s wait_on \<longleftrightarrow> fstate s = wait_on"

definition fio_state_in_one_of_2 :: "fio_state_t \<Rightarrow> u32 \<Rightarrow> u32 \<Rightarrow> bool" where
  "fio_state_in_one_of_2 s state0 state1 \<longleftrightarrow> fstate s = state0 \<or> fstate s = state1"

definition fio_state_in_one_of_3 :: "fio_state_t \<Rightarrow> u32 \<Rightarrow> u32 \<Rightarrow> u32 \<Rightarrow> bool" where
  "fio_state_in_one_of_3 s state0 state1 state2 \<longleftrightarrow>
     fstate s = state0 \<or> fstate s = state1 \<or> fstate s = state2"

definition fio_state_in_one_of_4 :: "fio_state_t \<Rightarrow> u32 \<Rightarrow> u32 \<Rightarrow> u32 \<Rightarrow> u32 \<Rightarrow> bool" where
  "fio_state_in_one_of_4 s state0 state1 state2 state3 \<longleftrightarrow>
     fstate s = state0 \<or> fstate s = state1 \<or> fstate s = state2 \<or> fstate s = state3"

definition fio_state_in_one_of_5 :: "fio_state_t \<Rightarrow> u32 \<Rightarrow> u32 \<Rightarrow> u32 \<Rightarrow> u32 \<Rightarrow> u32 \<Rightarrow> bool" where
  "fio_state_in_one_of_5 s state0 state1 state2 state3 state4 \<longleftrightarrow>
     fstate s = state0 \<or> fstate s = state1 \<or> fstate s = state2 \<or> fstate s = state3 \<or>
     fstate s = state4"

definition fio_state_up :: "fio_state_t \<Rightarrow> fio_state_t" where
  "fio_state_up s = snd (fio_set_state_locked s (fstate s + 1))"

definition fio_state_down :: "fio_state_t \<Rightarrow> fio_state_t" where
  "fio_state_down s = snd (fio_set_state_locked s (fstate s - 1))"

subsection \<open>Sets of states as variable arguments\<close>

text \<open>
  The loop over \<open>va_arg\<close> of \<open>__fio_state_in_one_of\<close>: \<open>num_states\<close> says how many arguments to
  read, \<open>ap\<close> holds those that were passed.
\<close>

fun state_in_args :: "u32 \<Rightarrow> nat \<Rightarrow> u32 list \<Rightarrow> bool option" where
  "state_in_args cur_state 0 ap = Some False"
| "state_in_args cur_state (Suc n) [] = None"
| "state_in_args cur_state (Suc n) (state # ap) =
     (if cur_state = state then Some True else state_in_args cur_state n ap)"

definition fio_state_in_one_of :: "fio_state_t \<Rightarrow> u32 \<Rightarrow> u32 list \<Rightarrow> bool option" where
  "fio_state_in_one_of s num_states ap = state_in_args (fstate s) (unat num_states) ap"

definition fio_state_not_in_one_of :: "fio_state_t \<Rightarrow> u32 \<Rightarrow> u32 list \<Rightarrow> bool option" where
  "fio_state_not_in_one_of s num_states ap =
     map_option Not (state_in_args (fstate s) (unat num_states) ap)"

text \<open>
  \<open>fio_transition_state_va\<close>: the value returned, the value stored through \<open>old_state\<close>, and the
  variable.  \<open>nold\<close> is a C int that is cast to unsigned for the loop.
\<close>

definition fio_transition_state_va ::
  "fio_state_t \<Rightarrow> u32 \<Rightarrow> int \<Rightarrow> u32 list \<Rightarrow> (int \<times> u32 \<times> fio_state_t) option" where
  "fio_transition_state_va s new_state nold ap =
     (let old_state = fstate s
      in if nold = 0
         then
           if fstate s = new_state then Some (0, old_state, s)
           else Some (1, old_state, snd (fio_set_state_locked s new_state))
         else
           case fio_state_in_one_of s (word_of_int nold) ap of
             None \<Rightarrow> None
           | Some False \<Rightarrow> Some (0, old_state, s)
           | Some True \<Rightarrow> Some (1, old_state, snd (fio_set_state_locked s new_state)))"

definition fio_transition_state ::
  "fio_state_t \<Rightarrow> u32 \<Rightarrow> int \<Rightarrow> u32 list \<Rightarrow> (int \<times> fio_state_t) option" where
  "fio_transition_state s new_state nold ap =
     map_option (\<lambda>(retval, _, s). (retval, s)) (fio_transition_state_va s new_state nold ap)"

subsection \<open>Arc tables\<close>

record fio_state_arc_t =
  states_from_mask :: u32
  state_to :: u16
  arc_num :: u16

text \<open>\<open>state_to\<close> and \<open>arc_num\<close> are \<open>int16_t\<close>; both use -1 as a special value.\<close>

definition STATE_ARC_NOTFOUND :: int where
  "STATE_ARC_NOTFOUND = - 1"

definition FIO_STATE_SAME :: int where
  "FIO_STATE_SAME = - 1"

definition STATE_M1 :: "u32 \<Rightarrow> u32 option" where
  "STATE_M1 a = (if unat a < 32 then Some (push_bit (unat a) 1) else None)"

text \<open>\<open>STATE_M2\<close> to \<open>STATE_M9\<close> are this macro at two to nine arguments.\<close>

fun STATE_M :: "u32 list \<Rightarrow> u32 option" where
  "STATE_M [] = Some 0"
| "STATE_M (a # as) =
     (case (STATE_M1 a, STATE_M as) of (Some m, Some n) \<Rightarrow> Some (m OR n) | _ \<Rightarrow> None)"

definition STATE_MASK_ANY :: u32 where
  "STATE_MASK_ANY = 0xFFFFFFFF XOR 1"

text \<open>The loop of \<open>fio_state_transition\<close>: the arc number found and the variable.\<close>

fun find_arc :: "fio_state_t \<Rightarrow> u32 \<Rightarrow> fio_state_arc_t list \<Rightarrow> (int \<times> fio_state_t) option" where
  "find_arc s state_mask [] = None"
| "find_arc s state_mask (arc # arcs) =
     (if sint (arc_num arc) = STATE_ARC_NOTFOUND then Some (STATE_ARC_NOTFOUND, s)
      else if state_mask AND states_from_mask arc \<noteq> 0
      then Some (sint (arc_num arc),
             if sint (state_to arc) \<noteq> FIO_STATE_SAME
             then snd (fio_set_state_locked s (scast (state_to arc))) else s)
      else find_arc s state_mask arcs)"

text \<open>\<open>arc_action\<close> is an optional callback on the argument object, run under the lock.\<close>

definition fio_state_transition ::
  "fio_state_t \<Rightarrow> fio_state_arc_t list \<Rightarrow> (int \<Rightarrow> 'a \<Rightarrow> int \<times> 'a) option \<Rightarrow> 'a
     \<Rightarrow> (int \<times> fio_state_t \<times> 'a) option" where
  "fio_state_transition s arcs arc_action arg =
     (case STATE_M1 (fstate s) of
        None \<Rightarrow> None
      | Some state_mask \<Rightarrow>
          (case find_arc s state_mask arcs of
             None \<Rightarrow> None
           | Some (num, s) \<Rightarrow>
               (case arc_action of
                  None \<Rightarrow> Some (num, s, arg)
                | Some action \<Rightarrow> let (num, arg) = action num arg in Some (num, s, arg))))"

subsection \<open>Threads around a state variable\<close>

text \<open>
  A thread is idle, asleep in \<open>__fio_wait_on_states\<close>, woken by a broadcast but not yet running,
  or back from the wait with the lock held until its \<open>fio_unlock_state\<close>.
\<close>

datatype waiter = Idle | Asleep "u32 list" | Woken "u32 list" | Locked "u32 list"

record state_sys =
  var :: fio_state_t
  threads :: "nat \<Rightarrow> waiter"

definition lock_free :: "state_sys \<Rightarrow> bool" where
  "lock_free y \<longleftrightarrow> (\<forall>t ws. threads y t \<noteq> Locked ws)"

text \<open>A broadcast wakes every sleeper.\<close>

fun wake :: "waiter \<Rightarrow> waiter" where
  "wake (Asleep ws) = Woken ws"
| "wake w = w"

definition after_change :: "state_sys \<Rightarrow> fio_state_t \<Rightarrow> state_sys" where
  "after_change y s' = \<lparr>var = s', threads =
     (if cv_broadcasts s' = cv_broadcasts (var y) then threads y else (\<lambda>t. wake (threads y t)))\<rparr>"

text \<open>One test of the wait loop, on entry or after a wake-up.\<close>

definition fio_wait_on_states :: "fio_state_t \<Rightarrow> u32 list \<Rightarrow> waiter" where
  "fio_wait_on_states s ws =
     (if fio_state_in_one_of s (of_nat (length ws)) ws = Some True then Locked ws else Asleep ws)"

definition fio_wait_on_state :: "fio_state_t \<Rightarrow> u32 \<Rightarrow> waiter" where
  "fio_wait_on_state s wait_on = (if fstate s \<noteq> wait_on then Asleep [wait_on] else Locked [wait_on])"

inductive state_step :: "state_sys \<Rightarrow> state_sys \<Rightarrow> bool" where
  wait: "lock_free y \<Longrightarrow> threads y t = Idle \<Longrightarrow> length ws < 2 ^ 32 \<Longrightarrow>
     state_step y (y\<lparr>threads := (threads y)(t := fio_wait_on_states (var y) ws)\<rparr>)"
| wakeup: "lock_free y \<Longrightarrow> threads y t = Woken ws \<Longrightarrow>
     state_step y (y\<lparr>threads := (threads y)(t := fio_wait_on_states (var y) ws)\<rparr>)"
| unlock: "threads y t = Locked ws \<Longrightarrow> state_step y (y\<lparr>threads := (threads y)(t := Idle)\<rparr>)"
| set: "lock_free y \<Longrightarrow> fio_set_state (var y) new = (old, s') \<Longrightarrow> state_step y (after_change y s')"
| transition: "lock_free y \<Longrightarrow> fio_transition_state (var y) new nold ap = Some (rc, s') \<Longrightarrow>
     state_step y (after_change y s')"
| arc: "lock_free y \<Longrightarrow> fio_state_transition (var y) arcs action () = Some (num, s', arg') \<Longrightarrow>
     state_step y (after_change y s')"
| up: "lock_free y \<Longrightarrow> state_step y (after_change y (fio_state_up (var y)))"
| down: "lock_free y \<Longrightarrow> state_step y (after_change y (fio_state_down (var y)))"

definition state_reachable :: "u32 \<Rightarrow> state_sys \<Rightarrow> bool" where
  "state_reachable initial = reach state_step \<lparr>var = fio_init_state initial, threads = (\<lambda>_. Idle)\<rparr>"

fun thread_inv :: "fio_state_t \<Rightarrow> waiter \<Rightarrow> bool" where
  "thread_inv s Idle = True"
| "thread_inv s (Asleep ws) = (fstate s \<notin> set ws \<and> length ws < 2 ^ 32)"
| "thread_inv s (Woken ws) = (length ws < 2 ^ 32)"
| "thread_inv s (Locked ws) = (fstate s \<in> set ws)"

definition state_inv :: "state_sys \<Rightarrow> bool" where
  "state_inv y \<longleftrightarrow> (\<forall>t. thread_inv (var y) (threads y t)) \<and>
     (\<forall>t t' ws ws'. threads y t = Locked ws \<longrightarrow> threads y t' = Locked ws' \<longrightarrow> t = t')"

text \<open>A table the code can run on: it ends with its terminator.\<close>

definition terminated :: "fio_state_arc_t list \<Rightarrow> bool" where
  "terminated arcs \<longleftrightarrow> (\<exists>arc\<in>set arcs. sint (arc_num arc) = STATE_ARC_NOTFOUND)"

text \<open>The entries before the terminator, and the first of them that applies to a state.\<close>

definition live_arcs :: "fio_state_arc_t list \<Rightarrow> fio_state_arc_t list" where
  "live_arcs arcs = takeWhile (\<lambda>arc. sint (arc_num arc) \<noteq> STATE_ARC_NOTFOUND) arcs"

definition arc_for :: "u32 \<Rightarrow> fio_state_arc_t list \<Rightarrow> fio_state_arc_t option" where
  "arc_for state arcs = find (\<lambda>arc. bit (states_from_mask arc) (unat state)) (live_arcs arcs)"

definition arc_target :: "u32 \<Rightarrow> fio_state_arc_t \<Rightarrow> u32" where
  "arc_target state arc =
     (if sint (state_to arc) = FIO_STATE_SAME then state else scast (state_to arc))"

text \<open>A table whose targets are states a mask can express.\<close>

definition closed_arcs :: "fio_state_arc_t list \<Rightarrow> bool" where
  "closed_arcs arcs \<longleftrightarrow>
     terminated arcs \<and> (\<forall>arc\<in>set (live_arcs arcs). \<forall>st. unat st < 32 \<longrightarrow> unat (arc_target st arc) < 32)"

text \<open>A sequence of table-driven transitions without callbacks.\<close>

fun run_tables :: "fio_state_t \<Rightarrow> fio_state_arc_t list list \<Rightarrow> fio_state_t option" where
  "run_tables s [] = Some s"
| "run_tables s (arcs # tables) =
     (case fio_state_transition s arcs None () of
        None \<Rightarrow> None
      | Some (_, s', _) \<Rightarrow> run_tables s' tables)"

text \<open>What every operation that changes the variable promises: a change of state is broadcast.\<close>

definition broadcast_ok :: "fio_state_t \<Rightarrow> fio_state_t \<Rightarrow> bool" where
  "broadcast_ok s s' \<longleftrightarrow> (cv_broadcasts s' = cv_broadcasts s \<longrightarrow> fstate s' = fstate s)"

definition demo_arcs :: "fio_state_arc_t list" where
  "demo_arcs =
     [\<lparr>states_from_mask = 6, state_to = 3, arc_num = 1\<rparr>,
      \<lparr>states_from_mask = 8, state_to = - 1, arc_num = 2\<rparr>,
      \<lparr>states_from_mask = 0, state_to = 0, arc_num = - 1\<rparr>]"

lemma set_state_fields [simp]:
  "fstate (snd (fio_set_state_locked s new)) = new"
  "fst (fio_set_state_locked s new) = fstate s"
  by (simp_all add: fio_set_state_locked_def Let_def)

lemma set_state_broadcasts:
  "cv_broadcasts (snd (fio_set_state_locked s new)) =
     cv_broadcasts s + (if fstate s = new then 0 else 1)"
  by (simp add: fio_set_state_locked_def Let_def)

lemma state_in_args_all: "state_in_args c (length ap) ap = Some (c \<in> set ap)"
  by (induction ap) auto

lemma fio_state_in_one_of_all:
  "length ap < 2 ^ 32 \<Longrightarrow>
     fio_state_in_one_of s (of_nat (length ap)) ap = Some (fstate s \<in> set ap)"
  by (simp add: fio_state_in_one_of_def state_in_args_all unat_of_nat take_bit_nat_eq_self)

text \<open>The bit the macro sets.\<close>

lemma STATE_M1_mask_iff:
  assumes "STATE_M1 st = Some m"
  shows "m AND k \<noteq> 0 \<longleftrightarrow> bit k (unat st)"
proof -
  have "unat st < 32" and m: "m = push_bit (unat st) 1"
    using assms by (auto simp: STATE_M1_def split: if_splits)
  then have "bit (m AND k) i \<longleftrightarrow> i = unat st \<and> bit k i" for i
    by (auto simp: bit_and_iff bit_exp_iff)
  then show ?thesis by (metis bit_0_eq bot_apply bot_bool_def bit_eq_iff)
qed

lemma STATE_M1_Some: "STATE_M1 st = Some m \<longleftrightarrow> unat st < 32 \<and> m = push_bit (unat st) 1"
  by (auto simp: STATE_M1_def)

lemma STATE_M_bit:
  "STATE_M sts = Some m \<Longrightarrow> bit m (unat st) \<longleftrightarrow> st \<in> set sts"
proof (induction sts arbitrary: m)
  case (Cons a sts)
  then obtain k l where "STATE_M1 a = Some k" "STATE_M sts = Some l" "m = k OR l"
    by (auto split: option.splits)
  then show ?case using Cons.IH word_unat_eq_iff [of st a]
    by (auto simp: bit_or_iff STATE_M1_Some bit_exp_iff)
qed simp

lemma STATE_M_defined: "(\<exists>m. STATE_M sts = Some m) \<longleftrightarrow> (\<forall>st\<in>set sts. unat st < 32)"
proof (induction sts)
  case (Cons a sts)
  then show ?case by (cases "STATE_M sts") (auto simp: STATE_M1_def)
qed simp

subsection \<open>Arcs\<close>

lemma live_arcs_simps [simp]:
  "live_arcs [] = []"
  "live_arcs (arc # arcs) =
     (if sint (arc_num arc) = STATE_ARC_NOTFOUND then [] else arc # live_arcs arcs)"
  by (simp_all add: live_arcs_def)

lemma terminated_simps [simp]:
  "\<not> terminated []"
  "terminated (arc # arcs) \<longleftrightarrow> sint (arc_num arc) = STATE_ARC_NOTFOUND \<or> terminated arcs"
  by (auto simp: terminated_def)

text \<open>The loop finds the first live arc whose mask has the bit of the state.\<close>

lemma find_arc_correct:
  assumes "STATE_M1 (fstate s) = Some m" and "terminated arcs"
  shows "find_arc s m arcs =
    (case arc_for (fstate s) arcs of
       None \<Rightarrow> Some (STATE_ARC_NOTFOUND, s)
     | Some arc \<Rightarrow> Some (sint (arc_num arc), snd (fio_set_state_locked s (arc_target (fstate s) arc))))"
  using assms(2)
proof (induction arcs)
  case (Cons arc arcs)
  have same: "snd (fio_set_state_locked s (fstate s)) = s"
    by (simp add: fio_set_state_locked_def)
  show ?case
    using Cons STATE_M1_mask_iff [OF assms(1), of "states_from_mask arc"]
    by (auto simp: arc_for_def arc_target_def same)
qed simp

lemma find_arc_None: "\<not> terminated arcs \<Longrightarrow> find_arc s m arcs = None \<or>
    (\<exists>arc\<in>set arcs. m AND states_from_mask arc \<noteq> 0)"
  by (induction arcs) auto

subsection \<open>Threads\<close>

lemma wake_inv: "thread_inv s w \<Longrightarrow> (\<And>ws. w \<noteq> Locked ws) \<Longrightarrow> thread_inv s' (wake w)"
  by (cases w) auto

lemma wake_Locked [simp]: "wake w = Locked ws \<longleftrightarrow> w = Locked ws"
  by (cases w) auto

lemma broadcast_ok_refl: "broadcast_ok s s"
  by (simp add: broadcast_ok_def)

lemma broadcast_ok_set: "broadcast_ok s (snd (fio_set_state_locked s new))"
  by (simp add: broadcast_ok_def set_state_broadcasts)

lemma broadcast_ok_transition:
  "fio_transition_state s new nold ap = Some (rc, s') \<Longrightarrow> broadcast_ok s s'"
  by (auto simp: fio_transition_state_def fio_transition_state_va_def Let_def
      split: if_splits option.splits bool.splits intro: broadcast_ok_refl broadcast_ok_set)

lemma find_arc_broadcast: "find_arc s m arcs = Some (num, s') \<Longrightarrow> broadcast_ok s s'"
  by (induction arcs) (auto split: if_splits intro: broadcast_ok_refl broadcast_ok_set)

lemma broadcast_ok_arc:
  "fio_state_transition s arcs action arg = Some (num, s', arg') \<Longrightarrow> broadcast_ok s s'"
  by (auto simp: fio_state_transition_def split: option.splits prod.splits dest: find_arc_broadcast)

lemmas broadcast_intros = broadcast_ok_refl broadcast_ok_set broadcast_ok_transition broadcast_ok_arc

lemma after_change_inv:
  assumes inv: "state_inv y" and free: "lock_free y" and ok: "broadcast_ok (var y) s'"
  shows "state_inv (after_change y s')"
proof (cases "cv_broadcasts s' = cv_broadcasts (var y)")
  case True
  then have "fstate s' = fstate (var y)" using ok by (simp add: broadcast_ok_def)
  then have "thread_inv s' w = thread_inv (var y) w" for w by (cases w) auto
  then show ?thesis using inv True by (simp add: state_inv_def after_change_def)
next
  case False
  have "thread_inv s' (wake (threads y t))" for t
    using inv free wake_inv [of "var y" "threads y t"] by (simp add: state_inv_def lock_free_def)
  then show ?thesis using False free by (simp add: state_inv_def after_change_def lock_free_def)
qed

lemma wait_inv:
  assumes "state_inv y" and "lock_free y" and "length ws < 2 ^ 32"
  shows "state_inv (y\<lparr>threads := (threads y)(t := fio_wait_on_states (var y) ws)\<rparr>)"
  using assms fio_state_in_one_of_all [OF assms(3), of "var y"]
  by (auto simp: state_inv_def lock_free_def fio_wait_on_states_def)

lemma state_step_inv: "state_step y y' \<Longrightarrow> state_inv y \<Longrightarrow> state_inv y'"
proof (induction rule: state_step.induct)
  case (wakeup y t ws)
  then have "thread_inv (var y) (Woken ws)" unfolding state_inv_def by metis
  with wakeup show ?case by (simp add: wait_inv)
next
  case (set y new old s')
  then show ?case using broadcast_ok_set [of "var y" new]
    by (simp add: fio_set_state_def after_change_inv)
next
  case (unlock y t ws)
  then show ?case by (auto simp: state_inv_def)
qed (auto intro: wait_inv after_change_inv broadcast_intros simp: fio_state_up_def fio_state_down_def)

interpretation state_sys: transition_invariant state_step state_inv
  by unfold_locales (rule state_step_inv)

lemma state_reachable_inv: "state_reachable initial y \<Longrightarrow> state_inv y"
  unfolding state_reachable_def by (erule state_sys.reach_inv) (simp add: state_inv_def)


lemma fio_state_transition_closed:
  assumes "unat (fstate s) < 32" and "closed_arcs arcs"
  shows "\<exists>num s'. fio_state_transition s arcs None () = Some (num, s', ()) \<and> unat (fstate s') < 32"
proof -
  obtain m where m: "STATE_M1 (fstate s) = Some m" using assms(1) by (simp add: STATE_M1_def)
  have "terminated arcs" using assms(2) by (simp add: closed_arcs_def)
  note fa = find_arc_correct [OF m this]
  show ?thesis
  proof (cases "arc_for (fstate s) arcs")
    case None
    then show ?thesis using fa m assms(1) by (simp add: fio_state_transition_def)
  next
    case (Some arc)
    then have "arc \<in> set (live_arcs arcs)" unfolding arc_for_def by (metis find_Some_iff nth_mem)
    then show ?thesis using Some fa m assms by (simp add: fio_state_transition_def closed_arcs_def)
  qed
qed

subsection \<open>Properties\<close>

text \<open>
  C4: no wake-up is lost.  In every state that waits, broadcasts and changes of the variable in any
  order lead to, a thread asleep in \<open>__fio_wait_on_states\<close> waits for none of the current state, and a
  thread that has returned from it and not yet unlocked finds the variable in one of its states.
  Only one thread holds the lock at a time.
\<close>

theorem state_no_lost_wakeup:
  assumes "state_reachable initial y"
  shows "(threads y t = Asleep ws \<longrightarrow> fstate (var y) \<notin> set ws) \<and>
    (threads y t = Locked ws \<longrightarrow> fstate (var y) \<in> set ws) \<and>
    (threads y t = Locked ws \<and> threads y t' = Locked ws' \<longrightarrow> t = t')"
proof -
  have inv: "state_inv y" using state_reachable_inv [OF assms] .
  then have "thread_inv (var y) (threads y t)" by (simp add: state_inv_def)
  moreover have "t = t'" if "threads y t = Locked ws" "threads y t' = Locked ws'"
    using inv that unfolding state_inv_def by metis
  ultimately show ?thesis by auto
qed

theorem state_no_lost_wakeup_witness:
  "fstate (var (\<lparr>var = fio_init_state 1, threads = (\<lambda>_. Idle)(0 := Asleep [2, 3])\<rparr>)) \<notin> set [2, 3]"
proof -
  let ?i = "\<lparr>var = fio_init_state 1, threads = (\<lambda>_. Idle)\<rparr>"
  have "fio_wait_on_states (fio_init_state 1) [2, 3] = Asleep [2, 3]"
    by code_simp
  then have "state_step ?i \<lparr>var = fio_init_state 1, threads = (\<lambda>_. Idle)(0 := Asleep [2, 3])\<rparr>"
    using state_step.wait [of ?i 0 "[2, 3]"] by (simp add: lock_free_def)
  then have "state_reachable 1 \<lparr>var = fio_init_state 1, threads = (\<lambda>_. Idle)(0 := Asleep [2, 3])\<rparr>"
    unfolding state_reachable_def using reach.intros [of state_step ?i] by blast
  from state_no_lost_wakeup [OF this, of 0 "[2, 3]"] show ?thesis by simp
qed

text \<open>
  \<open>fio_state_transition\<close> follows its table.  For a state a mask can express and a table that has
  its terminator, the first live arc whose mask contains the state decides: the arc number goes
  through the callback, the state becomes the arc's target (or stays for FIO_STATE_SAME), and
  waiters are woken exactly when the state changed.  Without such an arc the callback sees
  STATE_ARC_NOTFOUND and the variable is untouched.
\<close>

lemma fio_state_transition_correct:
  assumes "unat (fstate s) < 32" and "terminated arcs"
  shows "\<exists>s'. fio_state_transition s arcs (Some action) arg =
      (let (num, arg') =
         action (case arc_for (fstate s) arcs of None \<Rightarrow> STATE_ARC_NOTFOUND | Some arc \<Rightarrow> sint (arc_num arc)) arg
       in Some (num, s', arg')) \<and>
    fstate s' = (case arc_for (fstate s) arcs of None \<Rightarrow> fstate s | Some arc \<Rightarrow> arc_target (fstate s) arc) \<and>
    cv_broadcasts s' = cv_broadcasts s + (if fstate s' = fstate s then 0 else 1)"
proof -
  obtain m where m: "STATE_M1 (fstate s) = Some m" using assms(1) by (simp add: STATE_M1_def)
  show ?thesis
    using find_arc_correct [OF m assms(2)] m
    by (cases "arc_for (fstate s) arcs")
      (auto simp: fio_state_transition_def set_state_broadcasts)
qed

lemma demo_arcs_terminated: "terminated demo_arcs"
  by (simp add: demo_arcs_def STATE_ARC_NOTFOUND_def)

lemma fio_state_transition_correct_example:
  "\<exists>s'. fio_state_transition (fio_init_state 2) demo_arcs (Some Pair) () = Some (1, s', ()) \<and> fstate s' = 3"
proof -
  have "arc_for 2 demo_arcs = Some \<lparr>states_from_mask = 6, state_to = 3, arc_num = 1\<rparr>"
    by code_simp
  moreover have "arc_target 2 \<lparr>states_from_mask = 6, state_to = 3, arc_num = 1\<rparr> = 3" by code_simp
  ultimately show ?thesis
    using fio_state_transition_correct [OF _ demo_arcs_terminated, of "fio_init_state 2" Pair "()"]
    by (auto simp: fio_init_state_def)
qed

text \<open>
  A variable driven by tables whose targets are below 32 never meets an undefined shift: from a
  state below 32, any sequence of such transitions runs to its end, and the state stays below 32.
\<close>

lemma fio_state_transition_safe:
  assumes "unat (fstate s) < 32" and "\<forall>arcs\<in>set tables. closed_arcs arcs"
  shows "\<exists>s'. run_tables s tables = Some s' \<and> unat (fstate s') < 32"
  using assms
proof (induction tables arbitrary: s)
  case (Cons arcs tables)
  then obtain num s' where "fio_state_transition s arcs None () = Some (num, s', ())"
    and "unat (fstate s') < 32"
    using fio_state_transition_closed [of s arcs] by auto
  then show ?case using Cons by simp
qed simp

lemma fio_state_transition_safe_example:
  "\<exists>s'. run_tables (fio_init_state 1) [demo_arcs, demo_arcs] = Some s' \<and> unat (fstate s') < 32"
  by (rule fio_state_transition_safe)
    (auto simp: fio_init_state_def closed_arcs_def demo_arcs_def arc_target_def FIO_STATE_SAME_def
      STATE_ARC_NOTFOUND_def)

text \<open>
  \<open>fio_transition_state\<close> with the full list of allowed states moves to the new state exactly
  when the current state is allowed (with no list: when it is not there yet), says so in its result,
  wakes waiters exactly when the state changed, and otherwise leaves the variable alone.
\<close>

lemma fio_transition_state_correct:
  assumes "length ap < 2 ^ 31"
  shows "fio_transition_state s new (int (length ap)) ap =
    (if (if ap = [] then fstate s \<noteq> new else fstate s \<in> set ap)
     then Some (1, \<lparr>fstate = new, cv_broadcasts = cv_broadcasts s + (if fstate s = new then 0 else 1)\<rparr>)
     else Some (0, s))"
proof (cases "ap = []")
  case True
  then show ?thesis
    by (cases s) (simp add: fio_transition_state_def fio_transition_state_va_def fio_set_state_locked_def)
next
  case False
  have "fio_state_in_one_of s (of_nat (length ap)) ap = Some (fstate s \<in> set ap)"
    using assms by (intro fio_state_in_one_of_all) simp
  with False show ?thesis
    by (cases s) (auto simp: fio_transition_state_def fio_transition_state_va_def fio_set_state_locked_def
        split: option.splits bool.splits)
qed

lemma fio_transition_state_correct_witness:
  "fio_transition_state (fio_init_state 4) 7 2 [3, 4] = Some (1, \<lparr>fstate = 7, cv_broadcasts = 1\<rparr>)"
  using fio_transition_state_correct [of "[3, 4]" "fio_init_state 4" 7] by (simp add: fio_init_state_def)

text \<open>Waiting for one state is waiting for a list of one, so that the step \<open>wait\<close> is a step of \<open>__fio_wait_on_state\<close> as well.\<close>

lemma wait_on_one_state: "fio_wait_on_state s w = fio_wait_on_states s [w]"
  by (simp add: fio_wait_on_state_def fio_wait_on_states_def fio_state_in_one_of_def)

end
