(* ===== verification/Ranges.thy ===== *)
theory Ranges
  imports Prelude
begin

text \<open>
  Block ranges: \<open>include/fio/port/ranges.h\<close>.

  A range is a base and a length of 64 bits each.  The arithmetic wraps as in C; the lemmas
  relate the functions to the set of blocks a range stands for and say for which ranges they are
  exact.
\<close>

record fio_range_t =
  base :: u64
  length64 :: u64

definition fio_make_block_range :: "u64 \<Rightarrow> u64 \<Rightarrow> fio_range_t" where
  "fio_make_block_range b l = \<lparr>base = b, length64 = l\<rparr>"

definition fio_range_equal :: "fio_range_t \<Rightarrow> fio_range_t \<Rightarrow> bool" where
  "fio_range_equal r1 r2 \<longleftrightarrow> base r1 = base r2 \<and> length64 r1 = length64 r2"

definition fio_range_wrap :: "fio_range_t \<Rightarrow> bool" where
  "fio_range_wrap r1 \<longleftrightarrow> base r1 + length64 r1 < base r1"

definition fio_range_upper_bound :: "fio_range_t \<Rightarrow> u64" where
  "fio_range_upper_bound r = base r + length64 r"

definition fio_range_last :: "fio_range_t \<Rightarrow> u64" where
  "fio_range_last r = base r + length64 r - 1"

definition fio_ranges_overlap :: "fio_range_t \<Rightarrow> fio_range_t \<Rightarrow> bool" where
  "fio_ranges_overlap r1 r2 \<longleftrightarrow>
     base r1 < fio_range_upper_bound r2 \<and> base r2 < fio_range_upper_bound r1"

text \<open>None when the function returns 0 and leaves \<open>*r\<close> alone.\<close>

definition fio_range_intersect :: "fio_range_t \<Rightarrow> fio_range_t \<Rightarrow> fio_range_t option" where
  "fio_range_intersect r1 r2 =
     (let b = max (base r1) (base r2);
          past = min (base r1 + length64 r1) (base r2 + length64 r2)
      in if past > b then Some \<lparr>base = b, length64 = past - b\<rparr> else None)"

definition fio_range_overlaps_tail :: "fio_range_t \<Rightarrow> fio_range_t \<Rightarrow> bool" where
  "fio_range_overlaps_tail tail other \<longleftrightarrow>
     base tail > base other \<and> base tail < fio_range_upper_bound other"

definition fio_range_bisects :: "fio_range_t \<Rightarrow> fio_range_t \<Rightarrow> bool" where
  "fio_range_bisects bisector other \<longleftrightarrow>
     base bisector > base other \<and> fio_range_upper_bound bisector < fio_range_upper_bound other"

definition fio_range_overlaps_head :: "fio_range_t \<Rightarrow> fio_range_t \<Rightarrow> bool" where
  "fio_range_overlaps_head head other \<longleftrightarrow> base other < fio_range_upper_bound head"

definition fio_range_add_offset :: "fio_range_t \<Rightarrow> u64 \<Rightarrow> fio_range_t" where
  "fio_range_add_offset r offset = r\<lparr>base := base r + offset\<rparr>"

definition fio_range_sub_offset :: "fio_range_t \<Rightarrow> u64 \<Rightarrow> fio_range_t" where
  "fio_range_sub_offset r offset = r\<lparr>base := base r - offset\<rparr>"

text \<open>\<open>offset\<close> is an \<open>int64_t\<close>; adding it to the unsigned base wraps.\<close>

definition fio_range_offset :: "fio_range_t \<Rightarrow> int \<Rightarrow> fio_range_t" where
  "fio_range_offset r offset = r\<lparr>base := base r + word_of_int offset\<rparr>"

subsection \<open>The blocks of a range\<close>

definition blocks :: "fio_range_t \<Rightarrow> nat set" where
  "blocks r = {unat (base r) ..< unat (base r) + unat (length64 r)}"

lemma fio_range_wrap_iff: "fio_range_wrap r \<longleftrightarrow> 2 ^ 64 \<le> unat (base r) + unat (length64 r)"
  unfolding fio_range_wrap_def
  using no_olen_add_nat [of "base r" "length64 r"] by (simp add: not_less [symmetric] not_le) blast

lemma upper_bound_no_wrap:
  "\<not> fio_range_wrap r \<Longrightarrow>
     unat (fio_range_upper_bound r) = unat (base r) + unat (length64 r)"
  unfolding fio_range_wrap_iff fio_range_upper_bound_def
  by (intro unat_add_no_wrap) simp

lemma blocks_empty_iff: "blocks r = {} \<longleftrightarrow> length64 r = 0"
  by (simp add: blocks_def unat_eq_zero)

lemma blocks_inter:
  "blocks r1 \<inter> blocks r2 =
     {max (unat (base r1)) (unat (base r2)) ..<
      min (unat (base r1) + unat (length64 r1)) (unat (base r2) + unat (length64 r2))}"
  by (auto simp: blocks_def)

lemma unat_max_min:
  "unat (max a b) = max (unat a) (unat b)" "unat (min a b) = min (unat a) (unat b)"
  for a b :: "'a::len word"
  by (auto simp: max_def min_def word_le_nat_alt)

subsection \<open>Properties\<close>

text \<open>
  For ranges that do not reach past the end of the address space, \<open>fio_range_intersect\<close>
  computes the intersection: it returns 0 exactly when the ranges share no block, and otherwise
  the range it stores has exactly the shared blocks and does not wrap either.
\<close>

lemma fio_range_intersect_exact:
  assumes "\<not> fio_range_wrap r1" and "\<not> fio_range_wrap r2"
  shows "case fio_range_intersect r1 r2 of
      None \<Rightarrow> blocks r1 \<inter> blocks r2 = {}
    | Some r \<Rightarrow> blocks r = blocks r1 \<inter> blocks r2 \<and> blocks r \<noteq> {} \<and> \<not> fio_range_wrap r"
proof -
  define b past where "b = max (base r1) (base r2)"
    and "past = min (base r1 + length64 r1) (base r2 + length64 r2)"
  have b: "unat b = max (unat (base r1)) (unat (base r2))"
    by (simp add: b_def unat_max_min)
  have p: "unat past =
      min (unat (base r1) + unat (length64 r1)) (unat (base r2) + unat (length64 r2))"
    using assms upper_bound_no_wrap unfolding past_def unat_max_min fio_range_upper_bound_def by simp
  have i: "fio_range_intersect r1 r2 = (if past > b then Some \<lparr>base = b, length64 = past - b\<rparr> else None)"
    by (simp add: fio_range_intersect_def b_def past_def Let_def)
  show ?thesis
  proof (cases "past > b")
    case True
    then have "unat b < unat past" and "unat (past - b) = unat past - unat b"
      by (simp_all add: word_less_nat_alt unat_sub_le less_imp_le)
    moreover have "unat past < 2 ^ LENGTH(64)" by (rule unsigned_less)
    ultimately show ?thesis
      using True by (simp add: i blocks_inter b [symmetric] p [symmetric] fio_range_wrap_iff)
        (simp add: blocks_def)
  next
    case False
    then have "unat past \<le> unat b" by (simp add: word_less_nat_alt)
    then show ?thesis using False by (simp only: i blocks_inter b [symmetric] p [symmetric]) simp
  qed
qed

text \<open>
  \<open>fio_ranges_overlap\<close> answers whether two ranges share a block, for ranges that do not wrap,
  except that an empty range strictly inside another one counts as overlapping it.
\<close>

lemma fio_ranges_overlap_exact:
  assumes "\<not> fio_range_wrap r1" and "\<not> fio_range_wrap r2"
  shows "fio_ranges_overlap r1 r2 \<longleftrightarrow>
    blocks r1 \<inter> blocks r2 \<noteq> {} \<or>
    (length64 r1 = 0 \<and> fio_range_overlaps_tail r1 r2) \<or>
    (length64 r2 = 0 \<and> fio_range_overlaps_tail r2 r1)"
proof -
  note ub = upper_bound_no_wrap [OF assms(1)] upper_bound_no_wrap [OF assms(2)]
  have z: "length64 r = 0 \<longleftrightarrow> unat (length64 r) = 0" for r :: fio_range_t by (simp add: unat_eq_zero)
  show ?thesis
    unfolding fio_ranges_overlap_def fio_range_overlaps_tail_def word_less_nat_alt ub blocks_inter z
      atLeastLessThan_empty_iff max_less_iff_conj min_less_iff_conj min_less_iff_disj
      not_not
    by linarith
qed

lemma fio_ranges_overlap_exact_example:
  "fio_ranges_overlap \<lparr>base = 5, length64 = 0\<rparr> \<lparr>base = 3, length64 = 10\<rparr>"
  using fio_ranges_overlap_exact [of "\<lparr>base = 5, length64 = 0\<rparr>" "\<lparr>base = 3, length64 = 10\<rparr>"]
  by (simp add: fio_range_wrap_def fio_range_overlaps_tail_def fio_range_upper_bound_def)

end
