(* ===== verification/Bitops.thy ===== *)
theory Bitops
  imports Prelude
begin

text \<open>
  Bit manipulation: \<open>include/fio/port/bitops.h\<close> (bit counting, bit search, rounding),
  \<open>include/fio/port/arch/x86_common/bits.h\<close> (bit set, clear and test on an array of 32-bit words,
  GCC branch), \<open>include/fio/port/byteswap.h\<close> (byte order and bit fields) and
  \<open>include/fio/port/unaligned.h\<close> (byte-wise access).

  Integer promotion to \<open>int\<close> in the 8-bit and 16-bit functions is not visible: the results are
  masked or truncated back to their width, and nothing leaves it in between.
\<close>

subsection \<open>Counting and searching\<close>

definition fio_bitcount8 :: "u8 \<Rightarrow> u8" where
  "fio_bitcount8 val =
     (let val = val - (drop_bit 1 val AND 0x55);
          val = (val AND 0x33) + (drop_bit 2 val AND 0x33)
      in (val + drop_bit 4 val) AND 0x0F)"

definition fio_bitcount32 :: "u32 \<Rightarrow> u32" where
  "fio_bitcount32 val =
     (let val = val - (drop_bit 1 val AND 0x55555555);
          val = (val AND 0x33333333) + (drop_bit 2 val AND 0x33333333)
      in drop_bit 24 (((val + drop_bit 4 val) AND 0xF0F0F0F) * 0x1010101))"

definition fio_bitcount64 :: "u64 \<Rightarrow> u64" where
  "fio_bitcount64 val =
     (let val = val - (drop_bit 1 val AND 0x5555555555555555);
          val = (val AND 0x3333333333333333) + (drop_bit 2 val AND 0x3333333333333333)
      in drop_bit 56 (((val + drop_bit 4 val) AND 0xf0f0f0f0f0f0f0f) * 0x101010101010101))"

text \<open>The loop of \<open>fio_get_nth_bit_set_index32\<close>, with its counters \<open>found\<close> and \<open>index\<close>.\<close>

function nth_bit_loop :: "u32 \<Rightarrow> u32 \<Rightarrow> u32 \<Rightarrow> nat \<Rightarrow> nat" where
  "nth_bit_loop val n found index =
     (if index < 32
      then if val AND push_bit index 1 \<noteq> 0
           then if found + 1 = n then index
                else nth_bit_loop val n (found + 1) (index + 1)
           else nth_bit_loop val n found (index + 1)
      else index)"
  by pat_completeness auto
termination by (relation "measure (\<lambda>(_, _, _, index). 32 - index)") auto

definition fio_get_nth_bit_set_index32 :: "u32 \<Rightarrow> u32 \<Rightarrow> nat" where
  "fio_get_nth_bit_set_index32 val n = nth_bit_loop val n 0 0"

text \<open>The loop of \<open>fio_get_top_bit_set_index32\<close>: \<open>top_bit_loop val k\<close> starts at index \<open>k - 1\<close>.\<close>

fun top_bit_loop :: "u32 \<Rightarrow> nat \<Rightarrow> int" where
  "top_bit_loop val 0 = - 1"
| "top_bit_loop val (Suc index) =
     (if val AND push_bit index 1 \<noteq> 0 then int index else top_bit_loop val index)"

definition fio_get_top_bit_set_index32 :: "u32 \<Rightarrow> int" where
  "fio_get_top_bit_set_index32 val = top_bit_loop val 32"

definition fio_round_up_power_of_2_u32 :: "u32 \<Rightarrow> u32" where
  "fio_round_up_power_of_2_u32 v =
     (let v = v + (if v = 0 then 1 else 0);
          v = v - 1;
          v = v OR drop_bit 1 v;
          v = v OR drop_bit 2 v;
          v = v OR drop_bit 4 v;
          v = v OR drop_bit 8 v;
          v = v OR drop_bit 16 v
      in v + 1)"

subsection \<open>Bits of an array of 32-bit words\<close>

text \<open>
  \<open>*p\<close> is the word at index 0 of an array.  \<open>btsl\<close> and \<open>btrl\<close> with the bit number in a register
  address the whole array: bit \<open>v\<close> is bit \<open>v mod 32\<close> of word \<open>v div 32\<close>.  With an immediate
  operand only the low five bits of the number are used.  The C test masks the number with 31.
\<close>

type_synonym fusion_bits_t = "int \<Rightarrow> u32"

datatype operand = Register int | Immediate int

fun bit_word :: "operand \<Rightarrow> int" where
  "bit_word (Register v) = v div 32"
| "bit_word (Immediate v) = 0"

fun bit_pos :: "operand \<Rightarrow> nat" where
  "bit_pos (Register v) = nat (v mod 32)"
| "bit_pos (Immediate v) = nat (v mod 32)"

definition btsl :: "operand \<Rightarrow> fusion_bits_t \<Rightarrow> bool \<times> fusion_bits_t" where
  "btsl v p = (bit (p (bit_word v)) (bit_pos v),
     p(bit_word v := Bit_Operations.set_bit (bit_pos v) (p (bit_word v))))"

definition btrl :: "operand \<Rightarrow> fusion_bits_t \<Rightarrow> bool \<times> fusion_bits_t" where
  "btrl v p = (bit (p (bit_word v)) (bit_pos v),
     p(bit_word v := unset_bit (bit_pos v) (p (bit_word v))))"

definition fio_test_bit :: "int \<Rightarrow> fusion_bits_t \<Rightarrow> bool" where
  "fio_test_bit v p \<longleftrightarrow> push_bit (nat (v AND 31)) 1 AND p 0 \<noteq> 0"

definition fio_set_bit :: "operand \<Rightarrow> fusion_bits_t \<Rightarrow> fusion_bits_t" where
  "fio_set_bit v p = snd (btsl v p)"

definition fio_clear_bit :: "operand \<Rightarrow> fusion_bits_t \<Rightarrow> fusion_bits_t" where
  "fio_clear_bit v p = snd (btrl v p)"

definition fio_test_and_set_bit :: "operand \<Rightarrow> fusion_bits_t \<Rightarrow> bool \<times> fusion_bits_t" where
  "fio_test_and_set_bit v p = btsl v p"

definition fio_test_and_clear_bit :: "operand \<Rightarrow> fusion_bits_t \<Rightarrow> bool \<times> fusion_bits_t" where
  "fio_test_and_clear_bit v p = btrl v p"

text \<open>
  The 64-bit word is words 0 (low) and 1 (high) of the array.  The constraint \<open>Jr\<close> lets the
  compiler pass a constant below 64 as an immediate operand of the 32-bit instruction.
\<close>

definition fio_clear_bit_atomic64 :: "operand \<Rightarrow> u64 \<Rightarrow> u64" where
  "fio_clear_bit_atomic64 v w =
     (let p = snd (btrl v (\<lambda>i. if i = 0 then ucast w else if i = 1 then ucast (drop_bit 32 w) else 0))
      in ucast (p 0) OR push_bit 32 (ucast (p 1)))"

subsection \<open>Byte order\<close>

definition fusion_bswap64 :: "u64 \<Rightarrow> u64" where
  "fusion_bswap64 val =
     (let tmp = (push_bit 8 val AND 0xff00ff00ff00ff00) OR (drop_bit 8 val AND 0x00ff00ff00ff00ff);
          tmp = (push_bit 16 tmp AND 0xffff0000ffff0000) OR (drop_bit 16 tmp AND 0x0000ffff0000ffff)
      in (push_bit 32 tmp AND 0xffffffff00000000) OR (drop_bit 32 tmp AND 0x00000000ffffffff))"

definition fusion_bswap32 :: "u32 \<Rightarrow> u32" where
  "fusion_bswap32 val =
     (let val = (push_bit 8 val AND 0xFF00FF00) OR (drop_bit 8 val AND 0x00FF00FF)
      in push_bit 16 val OR drop_bit 16 val)"

definition fusion_bswap16 :: "u16 \<Rightarrow> u16" where
  "fusion_bswap16 val = push_bit 8 val OR drop_bit 8 val"

text \<open>Bit fields of a 64-bit card word on a little-endian host, where the card order is the host's.\<close>

definition NMASK :: "nat \<Rightarrow> u64" where
  "NMASK n = push_bit n 1 - 1"

definition MD_SETTER_BF :: "nat \<Rightarrow> nat \<Rightarrow> u64 \<Rightarrow> u64 \<Rightarrow> u64" where
  "MD_SETTER_BF off len v field =
     (let val = field;
          val = val AND NOT (push_bit off (NMASK len));
          val = val OR push_bit off v
      in val)"

definition MD_GETTER_BF :: "nat \<Rightarrow> nat \<Rightarrow> u64 \<Rightarrow> u64" where
  "MD_GETTER_BF off len field = drop_bit off field AND NMASK len"

subsection \<open>Unaligned access\<close>

text \<open>Memory as bytes; a little-endian host stores the low byte first.\<close>

fun memcpy_in :: "(addr \<Rightarrow> u8) \<Rightarrow> addr \<Rightarrow> u8 list \<Rightarrow> (addr \<Rightarrow> u8)" where
  "memcpy_in m p [] = m"
| "memcpy_in m p (b # bs) = memcpy_in (m(p := b)) (p + 1) bs"

fun memcpy_out :: "(addr \<Rightarrow> u8) \<Rightarrow> addr \<Rightarrow> nat \<Rightarrow> u8 list" where
  "memcpy_out m p 0 = []"
| "memcpy_out m p (Suc n) = m p # memcpy_out m (p + 1) n"

definition bytes_of :: "nat \<Rightarrow> u64 \<Rightarrow> u8 list" where
  "bytes_of n v = map (\<lambda>i. ucast (drop_bit (8 * i) v)) [0..<n]"

fun of_bytes :: "u8 list \<Rightarrow> u64" where
  "of_bytes [] = 0"
| "of_bytes (b # bs) = ucast b OR push_bit 8 (of_bytes bs)"

definition get_unaligned16 :: "(addr \<Rightarrow> u8) \<Rightarrow> addr \<Rightarrow> u16" where
  "get_unaligned16 m ptr = ucast (of_bytes (memcpy_out m ptr 2))"

definition get_unaligned32 :: "(addr \<Rightarrow> u8) \<Rightarrow> addr \<Rightarrow> u32" where
  "get_unaligned32 m ptr = ucast (of_bytes (memcpy_out m ptr 4))"

definition get_unaligned64 :: "(addr \<Rightarrow> u8) \<Rightarrow> addr \<Rightarrow> u64" where
  "get_unaligned64 m ptr = of_bytes (memcpy_out m ptr 8)"

definition put_unaligned16 :: "(addr \<Rightarrow> u8) \<Rightarrow> addr \<Rightarrow> u16 \<Rightarrow> (addr \<Rightarrow> u8)" where
  "put_unaligned16 m ptr v = memcpy_in m ptr (bytes_of 2 (ucast v))"

definition put_unaligned32 :: "(addr \<Rightarrow> u8) \<Rightarrow> addr \<Rightarrow> u32 \<Rightarrow> (addr \<Rightarrow> u8)" where
  "put_unaligned32 m ptr v = memcpy_in m ptr (bytes_of 4 (ucast v))"

definition put_unaligned64 :: "(addr \<Rightarrow> u8) \<Rightarrow> addr \<Rightarrow> u64 \<Rightarrow> (addr \<Rightarrow> u8)" where
  "put_unaligned64 m ptr v = memcpy_in m ptr (bytes_of 8 v)"

text \<open>The number of set bits of a word, and of a non-negative number.\<close>

definition popcount :: "'a::len word \<Rightarrow> nat" where
  "popcount w = card {i. bit w i}"

definition popcount_int :: "int \<Rightarrow> nat" where
  "popcount_int k = card {i. bit k i}"

text \<open>A number as its bytes, low byte first, and a byte repeated.\<close>

fun bval :: "int list \<Rightarrow> int" where
  "bval [] = 0"
| "bval (b # bs) = b + 256 * bval bs"

fun rep :: "int \<Rightarrow> nat \<Rightarrow> int" where
  "rep m 0 = 0"
| "rep m (Suc k) = m + 256 * rep m k"

text \<open>The steps of the counting functions on one byte, and the count they compute.\<close>

definition sb1 :: "int \<Rightarrow> int" where
  "sb1 b = b - (b div 2 AND 0x55)"

definition sb2 :: "int \<Rightarrow> int" where
  "sb2 b = (b AND 0x33) + (b div 4 AND 0x33)"

definition sb3 :: "int \<Rightarrow> int" where
  "sb3 b = (b + b div 16) AND 0x0F"

definition bits8 :: "int \<Rightarrow> int" where
  "bits8 b = sum_list (map (\<lambda>i. of_bool (bit b i)) [0..<8])"

definition byte_ok :: "int \<Rightarrow> bool" where
  "byte_ok b \<longleftrightarrow> sb3 (sb2 (sb1 b)) = bits8 b \<and> b div 2 AND 0x55 \<le> b \<and> sb1 b < 256 \<and>
     0 \<le> sb1 b \<and> 0 \<le> sb2 (sb1 b) \<and> sb2 (sb1 b) div 16 \<le> 4 \<and> sb2 (sb1 b) mod 16 \<le> 4 \<and> bits8 b \<le> 8 \<and> 0 \<le> bits8 b"

text \<open>The bytes of a number.\<close>

fun bdec :: "nat \<Rightarrow> int \<Rightarrow> int list" where
  "bdec 0 k = []"
| "bdec (Suc n) k = k mod 256 # bdec n (k div 256)"

lemma byte_table: "list_all byte_ok [0..255]"
  by code_simp

lemma byte_ok: "0 \<le> b \<Longrightarrow> b < 256 \<Longrightarrow> byte_ok b"
  using byte_table by (auto simp: list_all_iff)

lemma concat_byte: "0 \<le> x \<Longrightarrow> x < 256 \<Longrightarrow> x + 256 * y = concat_bit 8 x y"
  by (simp add: concat_bit_eq push_bit_eq_mult take_bit_int_eq_self)

lemma and_bytes:
  assumes "0 \<le> x" "x < 256" and "0 \<le> m" "m < (256::int)"
  shows "(x + 256 * y) AND (m + 256 * k) = (x AND m) + 256 * (y AND k)"
proof -
  have "0 \<le> x AND m" "x AND m < 256"
    using assms by (simp_all add: AND_upper1 order.strict_trans1 [of "x AND m" x])
  then show ?thesis using assms
    by (simp add: concat_byte, intro bit_eqI) (auto simp: bit_concat_bit_iff bit_and_iff)
qed

lemma high_bits_clear: "0 \<le> k \<Longrightarrow> k < 2 ^ n \<Longrightarrow> n \<le> i \<Longrightarrow> \<not> bit k i" for k :: int
  by (metis bit_take_bit_iff take_bit_int_eq_self not_le)

lemma finite_bits: "0 \<le> k \<Longrightarrow> finite {i. bit k i}" for k :: int
proof -
  assume k: "0 \<le> k"
  have "int (nat k) < int (2 ^ nat k)" by (simp only: of_nat_less_iff less_exp)
  then have "k < 2 ^ nat k" using k by simp
  then have "{i. bit k i} \<subseteq> {..<nat k}" using high_bits_clear [OF k] by (auto simp: not_le [symmetric])
  then show ?thesis using finite_subset by blast
qed

lemma popcount_concat:
  assumes "0 \<le> x" "x < 256" "0 \<le> y"
  shows "popcount_int (x + 256 * y) = popcount_int x + popcount_int y"
proof -
  have x8: "\<not> bit x i" if "8 \<le> i" for i
    using assms(1,2) that high_bits_clear [of x 8 i] by simp
  have "bit (x + 256 * y) i \<longleftrightarrow> (if i < 8 then bit x i else bit y (i - 8))" for i
    using assms by (simp add: concat_byte bit_concat_bit_iff)
  then have "{i. bit (x + 256 * y) i} = {i. bit x i} \<union> {i. 8 \<le> i \<and> bit y (i - 8)}"
    using x8 by (auto simp: not_less split: if_splits)
  also have "{i. 8 \<le> i \<and> bit y (i - 8)} = (+) 8 ` {i. bit y i}"
    by (auto simp: image_iff intro: le_add_diff_inverse [symmetric])
  finally have "{i. bit (x + 256 * y) i} = {i. bit x i} \<union> (+) 8 ` {i. bit y i}" .
  moreover have "{i. bit x i} \<inter> (+) 8 ` {i. bit y i} = {}" using x8 by auto
  ultimately show ?thesis
    using finite_bits assms by (simp add: popcount_int_def card_Un_disjoint card_image)
qed


lemma popcount_byte: "0 \<le> b \<Longrightarrow> b < 256 \<Longrightarrow> int (popcount_int b) = bits8 b"
proof -
  assume b: "0 \<le> b" "b < 256"
  have "{i. bit b i} = {i \<in> set [0..<8]. bit b i}"
    using high_bits_clear [of b 8] b by (auto simp: not_le [symmetric])
  then have "popcount_int b = card {i \<in> set [0..<8]. bit b i}" by (simp add: popcount_int_def)
  also have "int \<dots> = (\<Sum>i\<in>set [0..<8]. of_bool (bit b i))"
    by (simp add: of_bool_def sum.If_cases Int_def)
  also have "\<dots> = bits8 b" by (simp add: bits8_def sum_list_distinct_conv_sum_set)
  finally show ?thesis .
qed

text \<open>Each step acts on the bytes separately.\<close>

abbreviation are_bytes :: "int list \<Rightarrow> bool" where
  "are_bytes bs \<equiv> (\<forall>b\<in>set bs. 0 \<le> b \<and> b < 256)"

lemma bval_nonneg: "are_bytes bs \<Longrightarrow> 0 \<le> bval bs"
  by (induction bs) auto

lemma rep_nonneg: "0 \<le> m \<Longrightarrow> 0 \<le> rep m k"
  by (induction k) auto

lemma shift_and_bytes:
  assumes "0 \<le> x" "x < (256::int)" and "0 \<le> m" "m < (2::int) ^ (8 - j)" and "j \<le> 8"
  shows "(x + 256 * y) div 2 ^ j AND (m + 256 * k) = (x div 2 ^ j AND m) + 256 * (y div 2 ^ j AND k)"
proof -
  have m: "i + j < 8" if "bit m i" for i
    using assms that high_bits_clear [of m "8 - j" i] by (cases "8 \<le> i + j") auto
 have "(2::int) ^ (8 - j) \<le> 2 ^ 8" by (rule power_increasing) simp_all
  with assms(4) have m256: "m < 256" by simp
  have lo: "0 \<le> x div 2 ^ j AND m" "x div 2 ^ j AND m < 256"
  proof -
    show "0 \<le> x div 2 ^ j AND m" using assms(1) by (simp add: pos_imp_zdiv_nonneg_iff)
    have "x div 2 ^ j AND m \<le> m" using assms(3) by (rule AND_upper2)
    also note m256
    finally show "x div 2 ^ j AND m < 256" .
  qed
  have "drop_bit j (concat_bit 8 x y) AND concat_bit 8 m k =
      concat_bit 8 (drop_bit j x AND m) (drop_bit j y AND k)"
    using assms(5) by (intro bit_eqI)
      (auto simp: bit_concat_bit_iff bit_and_iff bit_drop_bit_eq not_less add.commute dest: m)
  then show ?thesis
    using assms lo m256 by (simp add: concat_byte drop_bit_eq_div [symmetric])
qed


lemma step1_bytes:
  "are_bytes bs \<Longrightarrow> bval bs - (bval bs div 2 AND rep 0x55 (length bs)) = bval (map sb1 bs)"
proof (induction bs)
  case (Cons b bs)
  then show ?case
    using shift_and_bytes [of b 85 1 "bval bs" "rep 0x55 (length bs)"] by (simp add: sb1_def)
qed simp

lemma step2_bytes:
  "are_bytes bs \<Longrightarrow> (bval bs AND rep 0x33 (length bs)) + (bval bs div 4 AND rep 0x33 (length bs)) =
     bval (map sb2 bs)"
proof (induction bs)
  case (Cons b bs)
  then show ?case
    using shift_and_bytes [of b 51 2 "bval bs" "rep 0x33 (length bs)"]
      and_bytes [of b 51 "bval bs" "rep 0x33 (length bs)"] by (simp add: sb2_def)
qed simp

abbreviation nibbles4 :: "int list \<Rightarrow> bool" where
  "nibbles4 bs \<equiv> (\<forall>b\<in>set bs. 0 \<le> b \<and> b div 16 \<le> 4 \<and> b mod 16 \<le> 4)"

lemma bval_mod16: "nibbles4 bs \<Longrightarrow> bval bs mod 16 \<le> 4"
proof (cases bs)
  case (Cons b bs')
  assume "nibbles4 bs"
  moreover have "(b + 256 * bval bs') mod 16 = b mod 16"
    using mod_mult_self2 [of b 16 "16 * bval bs'"] by simp
  ultimately show ?thesis using Cons by simp
qed simp

lemma and_15: "(a::int) AND 15 = a mod 16"
  using take_bit_eq_mask [of 4 a] by (simp add: mask_eq_exp_minus_1 take_bit_eq_mod)

lemma step3_bytes:
  "nibbles4 bs \<Longrightarrow> (bval bs + bval bs div 16) AND rep 0x0F (length bs) = bval (map sb3 bs)"
proof (induction bs)
  case (Cons b bs)
  define V r where "V = bval bs" and "r = V mod 16"
  have r: "0 \<le> r" "r \<le> 4" using bval_mod16 [of bs] Cons.prems by (auto simp: r_def V_def)
  have V: "V = 16 * (V div 16) + r" by (simp add: r_def)
  have b: "0 \<le> b" "b div 16 \<le> 4" "b mod 16 \<le> 4" using Cons.prems by auto
  have "(b + 256 * V) div 16 = b div 16 + 16 * V"
    using div_mult_self2 [of 16 b "16 * V"] by simp
  then have sum: "(b + 256 * V) + (b + 256 * V) div 16 =
      (b + b div 16 + 16 * r) + 256 * (V + V div 16)" using V by simp
  have "b = 16 * (b div 16) + b mod 16" by simp
  then have "b \<le> 68" using b by linarith
  then have lt: "0 \<le> b + b div 16 + 16 * r" "b + b div 16 + 16 * r < 256"
    using b r by (auto intro!: add_nonneg_nonneg simp: pos_imp_zdiv_nonneg_iff)
  have "(b + b div 16 + 16 * r) AND 15 = sb3 b"
    by (simp add: and_15 sb3_def)
  then show ?case
    using Cons and_bytes [OF lt, of 15 "V + V div 16" "rep 15 (length bs)"]
    by (simp add: sum V_def [symmetric])
qed simp


text \<open>All steps together, and the number as the sum of its bytes' counts.\<close>

lemma map_bytes:
  assumes "are_bytes bs"
  shows "map (\<lambda>b. sb3 (sb2 (sb1 b))) bs = map bits8 bs" and "are_bytes (map sb1 bs)"
    and "nibbles4 (map sb2 (map sb1 bs))" and "\<forall>b\<in>set (map bits8 bs). 0 \<le> b \<and> b \<le> 8"
  using assms byte_ok by (auto simp: byte_ok_def)

lemma swar_bytes:
  assumes n_def: "n = length bs" and "are_bytes bs"
    and v1_def: "v1 = bval bs - (bval bs div 2 AND rep 0x55 n)"
    and v2_def: "v2 = (v1 AND rep 0x33 n) + (v1 div 4 AND rep 0x33 n)"
  shows "(v2 + v2 div 16) AND rep 0x0F n = bval (map bits8 bs)"
    and "v1 = bval (map sb1 bs)" and "v2 = bval (map sb2 (map sb1 bs))"
proof -
  note m = map_bytes [OF assms(2)]
  show v1: "v1 = bval (map sb1 bs)" using step1_bytes [OF assms(2)] by (simp add: v1_def n_def)
  show v2: "v2 = bval (map sb2 (map sb1 bs))"
    using step2_bytes [OF m(2)] by (simp add: v2_def v1 n_def)
  have "(v2 + v2 div 16) AND rep 0x0F n = bval (map sb3 (map sb2 (map sb1 bs)))"
    using step3_bytes [OF m(3)] by (simp add: v2 n_def)
  also have "map sb3 (map sb2 (map sb1 bs)) = map bits8 bs" using m(1) by (simp add: comp_def)
  finally show "(v2 + v2 div 16) AND rep 0x0F n = bval (map bits8 bs)" .
qed

lemma popcount_bval: "are_bytes bs \<Longrightarrow> int (popcount_int (bval bs)) = sum_list (map bits8 bs)"
proof (induction bs)
  case Nil
  then show ?case by (simp add: popcount_int_def)
next
  case (Cons b bs)
  then show ?case using popcount_concat [of b "bval bs"] popcount_byte [of b] bval_nonneg [of bs] by simp
qed

lemma bdec_props: "are_bytes (bdec n k)" "length (bdec n k) = n"
  by (induction n arbitrary: k) auto

lemma bval_bdec: "0 \<le> k \<Longrightarrow> k < 256 ^ n \<Longrightarrow> bval (bdec n k) = k"
proof (induction n arbitrary: k)
  case (Suc n)
  then have "k div 256 < 256 ^ n" "0 \<le> k div 256" by (simp_all add: div_less_iff_less_mult)
  then show ?case using Suc.IH [of "k div 256"] by simp
qed simp

lemma popcount_uint: "popcount w = popcount_int (uint w)"
  by (simp add: popcount_def popcount_int_def bit_uint_iff) (metis bit_imp_le_length)

lemma bval_le_rep: "(\<forall>b\<in>set bs. 0 \<le> b \<and> b \<le> m) \<Longrightarrow> bval bs \<le> rep m (length bs) \<and> 0 \<le> bval bs"
  by (induction bs) auto

lemma rep_68: "rep 68 n * 3 < 256 ^ n"
  by (induction n) auto

lemma bval_less: "are_bytes bs \<Longrightarrow> bval bs < 256 ^ length bs"
  by (induction bs) auto

lemma uint_sub_small: "0 \<le> uint a - uint b \<Longrightarrow> uint (a - b) = uint a - uint b"
  for a b :: "'a::len word"
  by (metis add.commute le_iff_diff_le_0 diff_ge_0_iff_ge uint_minus_simple_alt word_le_def uint_sub_lem)

lemma uint_add_small: "uint a + uint b < 2 ^ LENGTH('a) \<Longrightarrow> uint (a + b) = uint a + uint b"
  for a b :: "'a::len word"
  by (simp add: uint_add_lem)

lemma uint_drop: "uint (drop_bit n w) = uint w div 2 ^ n"
  by (simp add: unsigned_drop_bit_eq take_bit_int_eq_self flip: drop_bit_eq_div)

lemma rep_values: "rep m 1 = m" "rep m 4 = m * 0x1010101" "rep m 8 = m * 0x101010101010101"
  by (simp_all add: eval_nat_numeral)

lemma swar_word:
  fixes val m1 m2 m4 :: "'a::len word"
  assumes len: "(2::int) ^ LENGTH('a) = 256 ^ n"
    and m: "uint m1 = rep 0x55 n" "uint m2 = rep 0x33 n" "uint m4 = rep 0x0F n"
    and v1: "v1 = val - (drop_bit 1 val AND m1)"
    and v2: "v2 = (v1 AND m2) + (drop_bit 2 v1 AND m2)"
  shows "uint ((v2 + drop_bit 4 v2) AND m4) = bval (map bits8 (bdec n (uint val)))"
proof -
  let ?bs = "bdec n (uint val)"
  have bs: "are_bytes ?bs" "length ?bs = n" by (rule bdec_props)+
  have "uint val < 256 ^ n" using uint_lt2p [of val] len by simp
  then have k: "bval ?bs = uint val" by (simp add: bval_bdec)
  define k1 k2 where "k1 = bval ?bs - (bval ?bs div 2 AND rep 0x55 n)"
    and "k2 = (k1 AND rep 0x33 n) + (k1 div 4 AND rep 0x33 n)"
  note sw = swar_bytes [OF bs(2) [symmetric] bs(1) k1_def k2_def]
  note mb = map_bytes [OF bs(1)]
  have "0 \<le> k1" using bval_nonneg [OF mb(2)] sw(2) by simp
  then have u1: "uint v1 = k1"
    using uint_sub_small [of val "drop_bit 1 val AND m1"]
    by (simp add: v1 k1_def k m uint_drop unsigned_and_eq)
  have nib: "\<forall>b\<in>set (map sb2 (map sb1 ?bs)). 0 \<le> b \<and> b \<le> 68"
  proof
    fix b assume "b \<in> set (map sb2 (map sb1 ?bs))"
    then have "0 \<le> b" "b div 16 \<le> 4" "b mod 16 \<le> 4" using mb(3) by auto
    moreover have "b = 16 * (b div 16) + b mod 16" by simp
    ultimately show "0 \<le> b \<and> b \<le> 68" by linarith
  qed
  then have k2: "0 \<le> k2" "k2 * 3 < 256 ^ n"
    using bval_le_rep [OF nib] rep_68 [of n] sw(3) bs(2) by (auto simp del: map_map)
  then have u2: "uint v2 = k2"
    using uint_add_small [of "v1 AND m2" "drop_bit 2 v1 AND m2"]
    by (simp add: v2 k2_def u1 m uint_drop unsigned_and_eq len)
  have "k2 div 16 \<le> k2" using k2(1) by linarith
  then have "uint (v2 + drop_bit 4 v2) = k2 + k2 div 16"
    using uint_add_small [of v2 "drop_bit 4 v2"] k2 by (simp add: u2 uint_drop len)
  then show ?thesis using sw(1) by (simp add: unsigned_and_eq m)
qed


text \<open>The multiplication adds up the bytes.\<close>

lemma top_field:
  assumes "0 \<le> y" "y < 2 ^ m" "0 \<le> t" "y + 2 ^ m * t < (2::int) ^ l"
  shows "(y + 2 ^ m * t + q * 2 ^ l) mod 2 ^ l div 2 ^ m = t"
proof -
  have "(y + 2 ^ m * t + q * 2 ^ l) mod 2 ^ l = y + 2 ^ m * t"
    using assms by (simp add: mod_pos_pos_trivial)
  then show ?thesis using assms by simp
qed

lemma byte_sum_4:
  assumes "\<forall>x\<in>{a, b, c, d}. 0 \<le> x \<and> x \<le> (8::int)"
  shows "(bval [a, b, c, d] * 0x1010101) mod 2 ^ 32 div 2 ^ 24 = a + b + c + d"
proof -
  define y q where "y = a + 2 ^ 8 * (a + b) + 2 ^ 16 * (a + b + c)"
    and "q = b + c + d + 2 ^ 8 * (c + d) + 2 ^ 16 * d"
  have eq: "bval [a, b, c, d] * 0x1010101 = y + 2 ^ 24 * (a + b + c + d) + q * 2 ^ 32"
    by (simp add: y_def q_def)
  show ?thesis unfolding eq by (rule top_field) (use assms in \<open>simp_all add: y_def\<close>)
qed

lemma byte_sum_8:
  assumes "\<forall>x\<in>{a, b, c, d, e, f, g, h}. 0 \<le> x \<and> x \<le> (8::int)"
  shows "(bval [a, b, c, d, e, f, g, h] * 0x101010101010101) mod 2 ^ 64 div 2 ^ 56 =
    a + b + c + d + e + f + g + h"
proof -
  define y q where "y = a + 2 ^ 8 * (a + b) + 2 ^ 16 * (a + b + c) + 2 ^ 24 * (a + b + c + d) +
      2 ^ 32 * (a + b + c + d + e) + 2 ^ 40 * (a + b + c + d + e + f) +
      2 ^ 48 * (a + b + c + d + e + f + g)"
    and "q = b + c + d + e + f + g + h + 2 ^ 8 * (c + d + e + f + g + h) +
      2 ^ 16 * (d + e + f + g + h) + 2 ^ 24 * (e + f + g + h) + 2 ^ 32 * (f + g + h) +
      2 ^ 40 * (g + h) + 2 ^ 48 * h"
  have eq: "bval [a, b, c, d, e, f, g, h] * 0x101010101010101 =
      y + 2 ^ 56 * (a + b + c + d + e + f + g + h) + q * 2 ^ 64"
    by (simp add: y_def q_def)
  show ?thesis unfolding eq by (rule top_field) (use assms in \<open>simp_all add: y_def\<close>)
qed

lemma popcount_bytes:
  fixes val :: "'a::len word"
  assumes "(2::int) ^ LENGTH('a) = 256 ^ n"
  shows "int (popcount val) = sum_list (map bits8 (bdec n (uint val)))"
proof -
  have "uint val < 256 ^ n" using uint_lt2p [of val] assms by simp
  then show ?thesis
    using popcount_bval [OF bdec_props(1), of n "uint val"] by (simp add: bval_bdec popcount_uint)
qed

lemma int_eq_uint: "int n = uint w \<Longrightarrow> unat w = n"
  by (metis nat_int unat_eq_nat_uint)

lemma fio_bitcount8_popcount: "unat (fio_bitcount8 val) = popcount val"
proof (rule int_eq_uint)
  define v1 where "v1 = val - (drop_bit 1 val AND 0x55)"
  define v2 where "v2 = (v1 AND 0x33) + (drop_bit 2 v1 AND 0x33)"
  have "uint ((v2 + drop_bit 4 v2) AND 0x0F) = bval (map bits8 (bdec 1 (uint val)))"
    using swar_word [OF _ _ _ _ v1_def v2_def, of 1 "0x0F"] by (simp add: rep_values)
  then show "int (popcount val) = uint (fio_bitcount8 val)"
    using popcount_bytes [of 1 val] by (simp add: fio_bitcount8_def Let_def v1_def v2_def)
qed

lemma fio_bitcount32_popcount: "unat (fio_bitcount32 val) = popcount val"
proof (rule int_eq_uint)
  obtain a b c d where bs: "map bits8 (bdec 4 (uint val)) = [a, b, c, d]"
    by (simp add: eval_nat_numeral)
  have r: "\<forall>x\<in>{a, b, c, d}. 0 \<le> x \<and> x \<le> 8"
    using map_bytes(4) [OF bdec_props(1), of 4 "uint val"] unfolding bs by simp
  define v1 where "v1 = val - (drop_bit 1 val AND 0x55555555)"
  define v2 where "v2 = (v1 AND 0x33333333) + (drop_bit 2 v1 AND 0x33333333)"
  have "uint ((v2 + drop_bit 4 v2) AND 0xF0F0F0F) = bval [a, b, c, d]"
    using swar_word [OF _ _ _ _ v1_def v2_def, of 4 "0xF0F0F0F"] unfolding bs
    by (simp add: rep_values)
  then have "uint (((v2 + drop_bit 4 v2) AND 0xF0F0F0F) * 0x1010101) =
      (bval [a, b, c, d] * 0x1010101) mod 2 ^ 32" by (simp only: uint_word_ariths) simp
  then have "uint (fio_bitcount32 val) = a + b + c + d"
    using byte_sum_4 [OF r] by (simp only: fio_bitcount32_def Let_def v1_def v2_def uint_drop)
  then show "int (popcount val) = uint (fio_bitcount32 val)"
    using popcount_bytes [of 4 val] unfolding bs by simp
qed

lemma list_of_8:
  assumes "length xs = 8"
  obtains a b c d e f g h where "xs = [a, b, c, d, e, f, g, h]"
  using assms by (auto simp: eval_nat_numeral length_Suc_conv)

lemma fio_bitcount64_popcount: "unat (fio_bitcount64 val) = popcount val"
proof (rule int_eq_uint)
  have "length (map bits8 (bdec 8 (uint val))) = 8" by (simp add: bdec_props)
  then obtain a b c d e f g h where bs: "map bits8 (bdec 8 (uint val)) = [a, b, c, d, e, f, g, h]"
    by (rule list_of_8)
  have r: "\<forall>x\<in>{a, b, c, d, e, f, g, h}. 0 \<le> x \<and> x \<le> 8"
    using map_bytes(4) [OF bdec_props(1), of 8 "uint val"] unfolding bs by simp
  define v1 where "v1 = val - (drop_bit 1 val AND 0x5555555555555555)"
  define v2 where "v2 = (v1 AND 0x3333333333333333) + (drop_bit 2 v1 AND 0x3333333333333333)"
  have "uint ((v2 + drop_bit 4 v2) AND 0xf0f0f0f0f0f0f0f) = bval [a, b, c, d, e, f, g, h]"
    using swar_word [OF _ _ _ _ v1_def v2_def, of 8 "0xf0f0f0f0f0f0f0f"] unfolding bs
    by (simp add: rep_values)
  then have "uint (((v2 + drop_bit 4 v2) AND 0xf0f0f0f0f0f0f0f) * 0x101010101010101) =
      (bval [a, b, c, d, e, f, g, h] * 0x101010101010101) mod 2 ^ 64"
    by (simp only: uint_word_ariths) simp
  then have "uint (fio_bitcount64 val) = a + b + c + d + e + f + g + h"
    using byte_sum_8 [OF r] by (simp only: fio_bitcount64_def Let_def v1_def v2_def uint_drop)
  then show "int (popcount val) = uint (fio_bitcount64 val)"
    using popcount_bytes [of 8 val] unfolding bs by simp
qed

definition bits_below :: "u32 \<Rightarrow> nat \<Rightarrow> nat" where
  "bits_below val k = card {j. j < k \<and> bit val j}"

definition smear :: "u32 \<Rightarrow> u32" where
  "smear v =
     (let v = v OR drop_bit 1 v; v = v OR drop_bit 2 v; v = v OR drop_bit 4 v;
          v = v OR drop_bit 8 v
      in v OR drop_bit 16 v)"

subsection \<open>Searching\<close>

lemma and_bit_test: "val AND push_bit i 1 \<noteq> 0 \<longleftrightarrow> bit val i" if "i < LENGTH('a)"
  for val :: "'a::len word"
proof -
  have "bit (val AND push_bit i 1) j \<longleftrightarrow> j = i \<and> bit val i" for j
    using that by (auto simp: bit_and_iff bit_exp_iff)
  then show ?thesis by (metis bit_0_eq bot_apply bot_bool_def bit_eq_iff)
qed

lemma bits_below_Suc:
  "bits_below val (Suc k) = bits_below val k + (if bit val k then 1 else 0)"
proof -
  have "{j. j < Suc k \<and> bit val j} =
      (if bit val k then insert k {j. j < k \<and> bit val j} else {j. j < k \<and> bit val j})"
    by (auto simp: less_Suc_eq)
  then show ?thesis by (simp add: bits_below_def)
qed

lemma bits_below_32: "bits_below val 32 = popcount val"
proof -
  have "{j. j < 32 \<and> bit val j} = {j. bit val j}" using bit_imp_le_length [of val] by auto
  then show ?thesis by (simp add: bits_below_def popcount_def)
qed

lemma bits_below_le: "bits_below val k \<le> k"
  by (induction k) (auto simp: bits_below_Suc, simp add: bits_below_def)

lemma nth_bit_loop_correct:
  "index \<le> 32 \<Longrightarrow> unat found = bits_below val index \<Longrightarrow> unat found < unat n \<Longrightarrow>
     let r = nth_bit_loop val n found index
     in r \<le> 32 \<and> (if r < 32 then bit val r \<and> bits_below val r + 1 = unat n else popcount val < unat n)"
proof (induction val n found index rule: nth_bit_loop.induct)
  case (1 val n found index)
  show ?case
  proof (cases "index < 32")
    case False
    then show ?thesis using 1 by (simp add: bits_below_32 Let_def)
  next
    case True
    have nz: "found + 1 \<noteq> 0"
    proof
      assume "found + 1 = 0"
      then have "unat found = 2 ^ 32 - 1" using word_incr_zero_iff [of found] by simp
      then show False using bits_below_le [of val index] True "1.prems"(2) by simp
    qed
    then have inc: "unat (found + 1) = unat found + 1" by (rule unat_incr)
    have eq: "found + 1 = n \<longleftrightarrow> unat found + 1 = unat n" using inc word_unat_eq_iff by metis
    have t: "val AND push_bit index 1 \<noteq> 0 \<longleftrightarrow> bit val index" by (rule and_bit_test) (simp add: True)
    consider (hit) "bit val index" "found + 1 = n" | (set) "bit val index" "found + 1 \<noteq> n"
      | (clear) "\<not> bit val index" by blast
    then show ?thesis
    proof cases
      case hit
      then have "nth_bit_loop val n found index = index" using True t by (subst nth_bit_loop.simps) simp
      then show ?thesis using hit True "1.prems" eq by simp
    next
      case set
      then have l: "nth_bit_loop val n found index = nth_bit_loop val n (found + 1) (index + 1)"
        using True t by (subst nth_bit_loop.simps) simp
      have "unat (found + 1) < unat n" using set eq inc "1.prems"(3) by linarith
      then show ?thesis unfolding l
        using "1.IH"(1) [OF True] set "1.prems"(2) True t inc by (simp add: bits_below_Suc)
    next
      case clear
      then have l: "nth_bit_loop val n found index = nth_bit_loop val n found (index + 1)"
        using True t by (subst nth_bit_loop.simps) simp
      then show ?thesis unfolding l
        using "1.IH"(2) [OF True] clear "1.prems"(2,3) True t by (simp add: bits_below_Suc)
    qed
  qed
qed

lemma top_bit_loop_correct:
  "k \<le> 32 \<Longrightarrow> (if \<exists>j<k. bit val j then \<exists>r<k. top_bit_loop val k = int r \<and> bit val r \<and> (\<forall>j<k. bit val j \<longrightarrow> j \<le> r)
     else top_bit_loop val k = - 1)"
proof (induction k)
  case (Suc k)
  have t: "val AND push_bit k 1 \<noteq> 0 \<longleftrightarrow> bit val k" using Suc.prems by (intro and_bit_test) simp
  show ?case
  proof (cases "bit val k")
    case True
    then show ?thesis using t by auto
  next
    case False
    then have "(\<exists>j<Suc k. bit val j) \<longleftrightarrow> (\<exists>j<k. bit val j)" by (auto simp: less_Suc_eq)
    then show ?thesis using Suc t False by (auto simp: less_Suc_eq split: if_splits)
  qed
qed simp

subsection \<open>Rounding up\<close>

lemma smear_step:
  "(\<And>i. bit w i \<longleftrightarrow> (\<exists>d<n. bit v (i + d))) \<Longrightarrow>
     bit (w OR drop_bit n w) i \<longleftrightarrow> (\<exists>d<2 * n. bit v (i + d))" for v w :: u32
proof -
  assume w: "\<And>i. bit w i \<longleftrightarrow> (\<exists>d<n. bit v (i + d))"
  have "(\<exists>d<2 * n. bit v (i + d)) \<longleftrightarrow> (\<exists>d<n. bit v (i + d)) \<or> (\<exists>d<n. bit v (n + i + d))"
  proof
    assume "\<exists>d<2 * n. bit v (i + d)"
    then obtain d where d: "d < 2 * n" "bit v (i + d)" by auto
    show "(\<exists>d<n. bit v (i + d)) \<or> (\<exists>d<n. bit v (n + i + d))"
    proof (cases "d < n")
      case False
      then have "d - n < n" "n + i + (d - n) = i + d" using d by auto
      then show ?thesis using d by metis
    qed (use d in auto)
  next
    have "\<exists>d<2 * n. bit v (i + d)" if "d < n" "bit v (n + i + d)" for d
      using that by (intro exI [of _ "n + d"]) (simp add: ac_simps)
    moreover have "\<exists>d<2 * n. bit v (i + d)" if "d < n" "bit v (i + d)" for d
      using that by (intro exI [of _ d]) simp
    ultimately show "(\<exists>d<n. bit v (i + d)) \<or> (\<exists>d<n. bit v (n + i + d)) \<Longrightarrow> \<exists>d<2 * n. bit v (i + d)"
      by blast
  qed
  then show ?thesis by (simp add: bit_or_iff bit_drop_bit_eq w add.commute)
qed


lemma smear_bits: "bit (smear v) i \<longleftrightarrow> (\<exists>j\<ge>i. bit v j)"
proof -
  have 0: "bit v i \<longleftrightarrow> (\<exists>d<1. bit v (i + d))" for i by simp
  define v1 v2 v4 v8 where "v1 = v OR drop_bit 1 v" and "v2 = v1 OR drop_bit 2 v1"
    and "v4 = v2 OR drop_bit 4 v2" and "v8 = v4 OR drop_bit 8 v4"
  have 1: "bit v1 i \<longleftrightarrow> (\<exists>d<2. bit v (i + d))" for i
    unfolding v1_def using smear_step [OF 0, of i] by (simp del: drop_bit_numeral_bit1)
  have 2: "bit v2 i \<longleftrightarrow> (\<exists>d<4. bit v (i + d))" for i
    unfolding v2_def using smear_step [OF 1, of i] by simp
  have 4: "bit v4 i \<longleftrightarrow> (\<exists>d<8. bit v (i + d))" for i
    unfolding v4_def using smear_step [OF 2, of i] by simp
  have 8: "bit v8 i \<longleftrightarrow> (\<exists>d<16. bit v (i + d))" for i
    unfolding v8_def using smear_step [OF 4, of i] by simp
  have "bit (smear v) i \<longleftrightarrow> (\<exists>d<32. bit v (i + d))"
    using smear_step [OF 8, of i] by (simp add: smear_def Let_def v1_def v2_def v4_def v8_def)
  also have "\<dots> \<longleftrightarrow> (\<exists>j\<ge>i. bit v j)"
  proof
    assume "\<exists>j\<ge>i. bit v j"
    then obtain j where "i \<le> j" "bit v j" by auto
    moreover have "j < 32" using bit_imp_le_length [OF \<open>bit v j\<close>] by simp
    ultimately show "\<exists>d<32. bit v (i + d)" by (intro exI [of _ "j - i"]) simp
  qed (auto intro: le_add1)
  finally show ?thesis .
qed

text \<open>Below a power of two and at least the one before it: smearing gives all ones.\<close>

lemma high_bits_clear_word: "unat x < 2 ^ k \<Longrightarrow> k \<le> j \<Longrightarrow> \<not> bit x j" for x :: "'a::len word"
proof
  assume "unat x < 2 ^ k" "k \<le> j" "bit x j"
  then have "uint x < 2 ^ k" by (metis nat_less_numeral_power_cancel_iff unat_eq_nat_uint)
  moreover have "bit (uint x) j" using \<open>bit x j\<close> by (simp add: bit_uint_iff bit_imp_le_length)
  ultimately show False using high_bits_clear [of "uint x" k j] \<open>k \<le> j\<close> by simp
qed

lemma small_by_bits: "(\<And>j. k \<le> j \<Longrightarrow> \<not> bit x j) \<Longrightarrow> unat x < 2 ^ k" for x :: "'a::len word"
proof -
  assume "\<And>j. k \<le> j \<Longrightarrow> \<not> bit x j"
  then have "take_bit k x = x" by (intro bit_eqI) (auto simp: bit_take_bit_iff not_less [symmetric])
  then have "unat x = take_bit k (unat x)" by (metis unsigned_take_bit_eq)
  then show ?thesis by (metis take_bit_nat_less_exp)
qed

lemma smear_mask:
  assumes "unat x < 2 ^ k" and "k \<le> 32" and "k \<noteq> 0 \<Longrightarrow> 2 ^ (k - 1) \<le> unat x"
  shows "smear x = mask k"
proof (rule bit_eqI)
  fix i
  have hi: "\<not> bit x j" if "k \<le> j" for j
    using assms(1) that by (rule high_bits_clear_word)
  have top: "bit x (k - 1)" if "k \<noteq> 0"
  proof (rule ccontr)
    assume "\<not> bit x (k - 1)"
    then have "\<not> bit x j" if "k - 1 \<le> j" for j
      using hi [of j] that \<open>k \<noteq> 0\<close> by (cases "j = k - 1") auto
    then have "unat x < 2 ^ (k - 1)" by (rule small_by_bits)
    then show False using assms(3) that by simp
  qed
  have "(\<exists>j\<ge>i. bit x j) \<longleftrightarrow> i < k"
  proof
    assume "i < k"
    then show "\<exists>j\<ge>i. bit x j" using top by (intro exI [of _ "k - 1"]) auto
  qed (use hi in \<open>auto simp: not_le [symmetric]\<close>)
  then show "bit (smear x) i = bit (mask k :: u32) i"
    using assms(2) by (auto simp: smear_bits bit_mask_iff)
qed

text \<open>Byte \<open>i\<close> of a word, counted from the low end.\<close>

definition byte_at :: "nat \<Rightarrow> 'a::len word \<Rightarrow> u8" where
  "byte_at i w = ucast (drop_bit (8 * i) w)"

lemma round_up_eq:
  "fio_round_up_power_of_2_u32 v = smear (if v = 0 then 0 else v - 1) + 1"
  by (simp add: fio_round_up_power_of_2_u32_def smear_def Let_def)

lemma fio_round_up_power_of_2_u32_correct:
  "if unat v \<le> 2 ^ 31
   then \<exists>k. unat (fio_round_up_power_of_2_u32 v) = 2 ^ k \<and> unat v \<le> 2 ^ k \<and>
          (\<forall>j. unat v \<le> 2 ^ j \<longrightarrow> k \<le> j)
   else fio_round_up_power_of_2_u32 v = 0"
proof -
  define x where "x = (if v = 0 then 0 else v - 1)"
  have x: "unat x = unat v - 1" by (simp add: x_def unat_decr)
  define k where "k = (LEAST k. unat v \<le> 2 ^ k)"
  have "unat v < 2 ^ LENGTH(32)" by (rule unsigned_less)
  then have v32: "unat v \<le> 2 ^ 32" by simp
  then have vk: "unat v \<le> 2 ^ k" unfolding k_def by (rule LeastI)
  have least: "k \<le> j" if "unat v \<le> 2 ^ j" for j unfolding k_def using that by (rule Least_le)
  have "smear x = mask k"
  proof (rule smear_mask)
    show "unat x < 2 ^ k" using vk x by (cases "unat v") auto
    show "k \<le> 32" using least v32 by blast
    show "2 ^ (k - 1) \<le> unat x" if "k \<noteq> 0"
      using least [of "k - 1"] that x by (cases "unat v \<le> 2 ^ (k - 1)") auto
  qed
  then have r: "fio_round_up_power_of_2_u32 v = 2 ^ k"
    by (simp add: round_up_eq x_def [symmetric] mask_eq_exp_minus_1)
  show ?thesis
  proof (cases "unat v \<le> 2 ^ 31")
    case True
    then have "k \<le> 31" by (rule least)
    then have "(2::nat) ^ k < 2 ^ 32" by (intro power_strict_increasing) simp_all
    then have "unat (of_nat (2 ^ k) :: u32) = 2 ^ k" by (simp only: unat_of_nat) (simp add: take_bit_nat_eq_self)
    then have "unat (2 ^ k :: u32) = 2 ^ k" by simp
    then show ?thesis using True r vk least by auto
  next
    case False
    then have "\<not> k \<le> 31" using vk power_increasing [of k 31 "2::nat"] by linarith
    moreover have "k \<le> 32" using least v32 by blast
    ultimately have "k = 32" by simp
    then show ?thesis using False r by simp
  qed
qed

subsection \<open>Bits of an array\<close>

lemma test_bit_iff: "fio_test_bit v p \<longleftrightarrow> bit (p 0) (nat (v mod 32))"
proof -
  have "v AND 31 = v mod 32"
    using take_bit_eq_mask [of 5 v] by (simp add: mask_eq_exp_minus_1 take_bit_eq_mod)
  moreover have "push_bit i 1 AND w \<noteq> 0 \<longleftrightarrow> bit w i" if "i < 32" for w :: u32 and i
    using and_bit_test [of i w] that by (simp add: and.commute)
  ultimately show ?thesis by (simp add: fio_test_bit_def)
qed

lemma bit_set_iff: "bit (Bit_Operations.set_bit n w) i \<longleftrightarrow> bit w i \<or> (i = n \<and> n < LENGTH('a))"
  for w :: "'a::len word"
  by (auto simp: bit_set_bit_iff dest: bit_imp_le_length)

subsection \<open>Byte order\<close>

lemma upt_0_1: "2 \<le> n \<Longrightarrow> [0..<n] = 0 # 1 # [2..<n]"
  using upt_conv_Cons [of 0 n] upt_conv_Cons [of 1 n] by (simp add: numeral_2_eq_2)

lemma bit_outside: "LENGTH('a) \<le> n \<Longrightarrow> \<not> bit w n" for w :: "'a::len word"
  using bit_imp_le_length [of w n] by auto

lemma bswap64_bits:
  "list_all (\<lambda>i. bit (fusion_bswap64 v) i \<longleftrightarrow> bit v (8 * (7 - i div 8) + i mod 8)) [0..<64]"
  by (simp add: upt_0_1 upt_rec_numeral fusion_bswap64_def Let_def bit_simps)
    (simp add: numeral_2_eq_2)

lemma bswap32_bits:
  "list_all (\<lambda>i. bit (fusion_bswap32 v) i \<longleftrightarrow> bit v (8 * (3 - i div 8) + i mod 8)) [0..<32]"
  by (simp add: upt_0_1 upt_rec_numeral fusion_bswap32_def Let_def bit_simps)
    (simp add: numeral_2_eq_2)

lemma bswap16_bits:
  "list_all (\<lambda>i. bit (fusion_bswap16 v) i \<longleftrightarrow> bit v (8 * (1 - i div 8) + i mod 8)) [0..<16]"
  by (simp add: upt_0_1 upt_rec_numeral fusion_bswap16_def Let_def bit_simps bit_outside)
    (simp add: numeral_2_eq_2)


lemma bswap_bit:
  "i < 64 \<Longrightarrow> bit (fusion_bswap64 v) i \<longleftrightarrow> bit v (8 * (7 - i div 8) + i mod 8)"
  "j < 32 \<Longrightarrow> bit (fusion_bswap32 w) j \<longleftrightarrow> bit w (8 * (3 - j div 8) + j mod 8)"
  "k < 16 \<Longrightarrow> bit (fusion_bswap16 x) k \<longleftrightarrow> bit x (8 * (1 - k div 8) + k mod 8)"
  using bswap64_bits [of v] bswap32_bits [of w] bswap16_bits [of x] by (simp_all add: list_all_iff)

lemma swap_index:
  fixes i n :: nat
  assumes "i < 8 * Suc n"
  shows "8 * (n - i div 8) + i mod 8 < 8 * Suc n"
    and "8 * (n - (8 * (n - i div 8) + i mod 8) div 8) + (8 * (n - i div 8) + i mod 8) mod 8 = i"
proof -
  have "i div 8 \<le> n" using assms by (simp add: less_mult_imp_div_less less_Suc_eq_le [symmetric])
  moreover have "i mod 8 < 8" by simp
  moreover have "(8 * (n - i div 8) + i mod 8) div 8 = n - i div 8" by simp
  ultimately show "8 * (n - i div 8) + i mod 8 < 8 * Suc n"
    and "8 * (n - (8 * (n - i div 8) + i mod 8) div 8) + (8 * (n - i div 8) + i mod 8) mod 8 = i"
    by auto
qed

lemma bit_byte_at: "bit (byte_at i w) j \<longleftrightarrow> j < 8 \<and> bit w (8 * i + j)" for w :: "'a::len word"
  by (auto simp: byte_at_def bit_ucast_iff bit_drop_bit_eq dest: bit_imp_le_length)

lemma bswap64_byte: "i < 8 \<Longrightarrow> byte_at i (fusion_bswap64 v) = byte_at (7 - i) v"
  by (rule bit_eqI) (auto simp: bit_byte_at bswap_bit)

lemma bswap32_byte: "i < 4 \<Longrightarrow> byte_at i (fusion_bswap32 v) = byte_at (3 - i) v"
  by (rule bit_eqI) (auto simp: bit_byte_at bswap_bit)

lemma bswap16_byte: "i < 2 \<Longrightarrow> byte_at i (fusion_bswap16 v) = byte_at (1 - i) v"
  by (rule bit_eqI) (auto simp: bit_byte_at bswap_bit)

lemma reverse_bytes_twice:
  fixes v :: "'a::len word"
  assumes f: "\<And>v i. i < LENGTH('a) \<Longrightarrow> bit (f v) i \<longleftrightarrow> bit v (8 * (n - i div 8) + i mod 8)"
    and len: "LENGTH('a) = 8 * Suc n"
  shows "f (f v) = v"
proof (rule bit_eqI)
  fix i assume "possible_bit TYPE('a word) i"
  then have i: "i < LENGTH('a)" by simp
  note sw = swap_index [OF i [unfolded len]]
  have "bit (f (f v)) i \<longleftrightarrow> bit (f v) (8 * (n - i div 8) + i mod 8)" using f [OF i] .
  also have "\<dots> \<longleftrightarrow> bit v i" using f [of "8 * (n - i div 8) + i mod 8"] sw len by simp
  finally show "bit (f (f v)) i \<longleftrightarrow> bit v i" .
qed

lemma bswap_involution:
  "fusion_bswap64 (fusion_bswap64 v) = v"
  "fusion_bswap32 (fusion_bswap32 w) = w"
  "fusion_bswap16 (fusion_bswap16 x) = x"
  by (rule reverse_bytes_twice, simp_all add: bswap_bit)+

subsection \<open>Bit fields\<close>

lemma bit_NMASK: "n \<le> 64 \<Longrightarrow> bit (NMASK n) i \<longleftrightarrow> i < n"
proof -
  assume "n \<le> 64"
  moreover have "NMASK n = mask n" by (simp add: NMASK_def mask_eq_exp_minus_1)
  ultimately show ?thesis by (auto simp: bit_mask_iff)
qed

lemma bit_setter:
  assumes "off + len \<le> 64" and "unat v < 2 ^ len"
  shows "bit (MD_SETTER_BF off len v field) i \<longleftrightarrow>
    (if off \<le> i \<and> i < off + len then bit v (i - off) else bit field i)"
proof -
  have v: "\<not> bit v j" if "len \<le> j" for j using assms(2) that by (rule high_bits_clear_word)
  have "\<not> bit v (i - off)" if "off + len \<le> i" using v [of "i - off"] that by simp
  then show ?thesis
    using assms(1) by (auto simp: MD_SETTER_BF_def bit_simps bit_NMASK dest: bit_imp_le_length)
qed

lemma bit_getter:
  "len \<le> 64 \<Longrightarrow> bit (MD_GETTER_BF off len field) i \<longleftrightarrow> i < len \<and> bit field (off + i)"
  by (auto simp: MD_GETTER_BF_def bit_simps bit_NMASK)

subsection \<open>Unaligned access\<close>

lemma memcpy_out_length [simp]: "length (memcpy_out m p n) = n"
  by (induction n arbitrary: p) auto

lemma memcpy_in_other:
  "(\<And>i. i < length bs \<Longrightarrow> q \<noteq> p + of_nat i) \<Longrightarrow> memcpy_in m p bs q = m q"
proof (induction bs arbitrary: m p)
  case (Cons b bs)
  have "q \<noteq> p" using Cons.prems [of 0] by simp
  moreover have "q \<noteq> p + 1 + of_nat i" if "i < length bs" for i
    using Cons.prems [of "Suc i"] that by (simp add: ac_simps)
  ultimately show ?case using Cons.IH by simp
qed simp

lemma memcpy_out_in:
  "length bs \<le> 8 \<Longrightarrow> memcpy_out (memcpy_in m p bs) p (length bs) = bs"
proof (induction bs arbitrary: m p)
  case (Cons b bs)
  have "p \<noteq> p + 1 + of_nat i" if "i < length bs" for i
  proof
    assume "p = p + 1 + of_nat i"
    then have "(of_nat (Suc i) :: u64) = 0" by (simp add: ac_simps)
    moreover have "unat (of_nat (Suc i) :: u64) = Suc i"
      using that Cons.prems by (simp only: unat_of_nat) (simp add: take_bit_nat_eq_self)
    ultimately show False by simp
  qed
  then have "memcpy_in (m(p := b)) (p + 1) bs p = b" by (subst memcpy_in_other) auto
  then show ?case using Cons by simp
qed simp

lemma bit_of_bytes: "bit (of_bytes bs) i \<longleftrightarrow> i < 64 \<and> i div 8 < length bs \<and> bit (bs ! (i div 8)) (i mod 8)"
proof (induction bs arbitrary: i)
  case (Cons b bs)
  show ?case
  proof (cases "i < 8")
    case True
    then show ?thesis by (simp add: bit_or_iff bit_ucast_iff bit_push_bit_iff)
  next
    case False
    then have "i div 8 = Suc ((i - 8) div 8)" "(i - 8) mod 8 = i mod 8" "8 \<le> i"
      by (simp_all add: le_div_geq le_mod_geq)
    moreover have "\<not> bit b i" using False bit_outside [of i b] by simp
    ultimately show ?thesis using Cons [of "i - 8"] False
      by (auto simp: bit_or_iff bit_ucast_iff bit_push_bit_iff)
  qed
qed simp

lemma of_bytes_of: "n \<le> 8 \<Longrightarrow> of_bytes (bytes_of n v) = take_bit (8 * n) v"
proof (rule bit_eqI)
  fix i assume "n \<le> 8"
  have "i div 8 < n \<longleftrightarrow> i < 8 * n" by (simp add: div_less_iff_less_mult mult.commute)
  then show "bit (of_bytes (bytes_of n v)) i = bit (take_bit (8 * n) v) i"
    by (auto simp: bit_of_bytes bytes_of_def bit_take_bit_iff bit_ucast_iff bit_drop_bit_eq
        dest: bit_imp_le_length)
qed

lemma unaligned_bytes: "length (bytes_of n v) = n"
  by (simp add: bytes_of_def)

lemma unaligned_get_put:
  "n \<le> 8 \<Longrightarrow> of_bytes (memcpy_out (memcpy_in m p (bytes_of n v)) p n) = take_bit (8 * n) v"
  using memcpy_out_in [of "bytes_of n v" m p] by (simp add: unaligned_bytes of_bytes_of)

subsection \<open>Properties\<close>

text \<open>
  The shift-and-add bit counts are the number of set bits, for every 8, 32 and 64 bit value.
\<close>

lemma fio_bitcount_correct:
  "unat (fio_bitcount8 a) = popcount a \<and> unat (fio_bitcount32 b) = popcount b \<and>
   unat (fio_bitcount64 c) = popcount c"
  by (simp add: fio_bitcount8_popcount fio_bitcount32_popcount fio_bitcount64_popcount)

text \<open>
  For \<open>n\<close> from 1, \<open>fio_get_nth_bit_set_index32\<close> returns the index of a set bit below which
  exactly \<open>n - 1\<close> bits are set, or 32 exactly when fewer than \<open>n\<close> bits are set; and
  \<open>fio_get_top_bit_set_index32\<close> returns the greatest index of a set bit, or -1 for 0.
\<close>

lemma fio_bit_search_correct:
  assumes "n \<noteq> 0"
  shows "(let r = fio_get_nth_bit_set_index32 val n
          in if unat n \<le> popcount val
             then r < 32 \<and> bit val r \<and> bits_below val r = unat n - 1 else r = 32) \<and>
    (if val = 0 then fio_get_top_bit_set_index32 val = - 1
     else \<exists>r. fio_get_top_bit_set_index32 val = int r \<and> bit val r \<and> (\<forall>j. bit val j \<longrightarrow> j \<le> r))"
proof (intro conjI)
  have "0 < unat n" using assms by (simp add: unat_gt_0)
  then have n: "let r = nth_bit_loop val n 0 0 in r \<le> 32 \<and>
      (if r < 32 then bit val r \<and> bits_below val r + 1 = unat n else popcount val < unat n)"
    using nth_bit_loop_correct [of 0 0 val n] by (simp add: bits_below_def)
  have mono: "bits_below val (Suc r) \<le> popcount val" for r
    unfolding bits_below_def popcount_def
    by (rule card_mono) (auto intro: finite_subset [of _ "{..<32}"] dest: bit_imp_le_length)
  define r where "r = nth_bit_loop val n 0 0"
  have le: "r \<le> 32" and cases: "r < 32 \<Longrightarrow> bit val r \<and> bits_below val r + 1 = unat n"
    "\<not> r < 32 \<Longrightarrow> popcount val < unat n" using n by (simp_all add: r_def Let_def split: if_splits)
  have "if unat n \<le> popcount val then r < 32 \<and> bit val r \<and> bits_below val r = unat n - 1 else r = 32"
  proof (cases "r < 32")
    case True
    then show ?thesis using cases(1) mono [of r] by (auto simp: bits_below_Suc)
  next
    case False
    then show ?thesis using cases(2) le by simp
  qed
  then show "let r = fio_get_nth_bit_set_index32 val n
          in if unat n \<le> popcount val
             then r < 32 \<and> bit val r \<and> bits_below val r = unat n - 1 else r = 32"
    by (simp only: fio_get_nth_bit_set_index32_def r_def Let_def)
  have "val = 0 \<longleftrightarrow> (\<forall>j<32. \<not> bit val j)"
    using bit_imp_le_length [of val] by (auto simp: bit_eq_iff)
  then show "if val = 0 then fio_get_top_bit_set_index32 val = - 1
     else \<exists>r. fio_get_top_bit_set_index32 val = int r \<and> bit val r \<and> (\<forall>j. bit val j \<longrightarrow> j \<le> r)"
    using top_bit_loop_correct [of 32 val] bit_imp_le_length [of val]
    by (auto simp: fio_get_top_bit_set_index32_def split: if_splits)
qed

lemma fio_bit_search_correct_example:
  "fio_get_nth_bit_set_index32 0x50 2 < 32 \<and> bit (0x50 :: u32) (fio_get_nth_bit_set_index32 0x50 2)"
proof -
  have "popcount (0x50 :: u32) = unat (fio_bitcount32 0x50)" by (simp only: fio_bitcount32_popcount)
  also have "\<dots> = 2" by code_simp
  finally show ?thesis using fio_bit_search_correct [of 2 "0x50"] by (simp add: Let_def)
qed

text \<open>
  the byte swaps reverse the bytes of a word, and swapping twice gives the word back.
\<close>

lemma fusion_bswap_reverses:
  "(i < 8 \<longrightarrow> byte_at i (fusion_bswap64 v) = byte_at (7 - i) v) \<and>
   (i < 4 \<longrightarrow> byte_at i (fusion_bswap32 w) = byte_at (3 - i) w) \<and>
   (i < 2 \<longrightarrow> byte_at i (fusion_bswap16 x) = byte_at (1 - i) x) \<and>
   fusion_bswap64 (fusion_bswap64 v) = v \<and> fusion_bswap32 (fusion_bswap32 w) = w \<and>
   fusion_bswap16 (fusion_bswap16 x) = x"
  by (simp add: bswap64_byte bswap32_byte bswap16_byte bswap_involution)

lemma fusion_bswap_reverses_witness: "byte_at 0 (fusion_bswap32 0x12345678) = 0x12"
  using fusion_bswap_reverses [of 0 0 "0x12345678" 0] by (simp add: byte_at_def)



text \<open>
  A bit number in a register selects the same bit for setting and testing only below 32.
  From 32 on \<open>fio_set_bit\<close> changes a later word of the array and \<open>fio_test_bit\<close> still looks at
  the first.  A constant bit number from 32 to 63 given to \<open>fio_clear_bit_atomic64\<close> as an immediate
  operand clears the bit 32 places too low.
\<close>

lemma x86_bit_addressing:
  "(0 \<le> v \<and> v < 32 \<longrightarrow> fio_test_bit v (fio_set_bit (Register v) p) \<and>
      \<not> fio_test_bit v (fio_clear_bit (Register v) p) \<and>
      fst (fio_test_and_set_bit (Register v) p) = fio_test_bit v p) \<and>
   (32 \<le> v \<longrightarrow> fio_test_bit v (fio_set_bit (Register v) p) = fio_test_bit v p) \<and>
   (32 \<le> k \<and> k < 64 \<longrightarrow> bit (fio_clear_bit_atomic64 (Immediate (int k)) w) k = bit w k \<and>
      \<not> bit (fio_clear_bit_atomic64 (Immediate (int k)) w) (k - 32))"
proof (intro conjI impI)
  assume v: "0 \<le> v \<and> v < 32"
  then have "nat v < 32" by auto
  with v show "fio_test_bit v (fio_set_bit (Register v) p)" "\<not> fio_test_bit v (fio_clear_bit (Register v) p)"
    "fst (fio_test_and_set_bit (Register v) p) = fio_test_bit v p"
    by (simp_all add: test_bit_iff fio_set_bit_def fio_clear_bit_def fio_test_and_set_bit_def btsl_def
        btrl_def bit_set_iff bit_unset_bit_iff)
next
  assume "32 \<le> v"
  then have "v div 32 \<noteq> 0" by auto
  then show "fio_test_bit v (fio_set_bit (Register v) p) = fio_test_bit v p"
    by (simp add: test_bit_iff fio_set_bit_def btsl_def)
next
  assume k: "32 \<le> k \<and> k < 64"
  then have "nat (int k mod 32) = k - 32" "k - 32 < 32" by (auto simp: nat_mod_distrib mod_if)
  with k show "bit (fio_clear_bit_atomic64 (Immediate (int k)) w) k = bit w k"
    and "\<not> bit (fio_clear_bit_atomic64 (Immediate (int k)) w) (k - 32)"
    by (auto simp: fio_clear_bit_atomic64_def btrl_def Let_def bit_simps dest: bit_imp_le_length)
qed

lemma x86_bit_addressing_example:
  "bit (fio_clear_bit_atomic64 (Immediate (int 40)) 0x10000000100) 40 = bit (0x10000000100 :: u64) 40"
  using x86_bit_addressing [of 0 "\<lambda>_. 0" 40 "0x10000000100"] by simp

end
