(* ===== verification/Fusion_List.thy ===== *)
theory Fusion_List
  imports Prelude
begin

text \<open>
  The doubly linked lists of \<open>include/fio/port/list.h\<close>.

  The heap of list entries is a record of the two fields, each a function of the entry's address.
  Every function of the header is a sequence of field updates, in the order of the source; the
  traversal macros are loops with fuel.  \<open>dlist h l xs\<close> says that \<open>l\<close> is the head of a circular
  list with the entries \<open>xs\<close>; each operation is shown to implement an operation on lists of
  addresses, and to leave every other list alone.

  The locale \<open>list_interface\<close> states what a client of the lists relies on; it is interpreted
  on the operations below, and its lemmas on whole queues hold for them.
\<close>

record fusion_heap =
  e_next :: "addr \<Rightarrow> addr"
  e_prev :: "addr \<Rightarrow> addr"

definition set_next :: "addr \<Rightarrow> addr \<Rightarrow> fusion_heap \<Rightarrow> fusion_heap" where
  "set_next a v h = h\<lparr>e_next := (e_next h)(a := v)\<rparr>"

definition set_prev :: "addr \<Rightarrow> addr \<Rightarrow> fusion_heap \<Rightarrow> fusion_heap" where
  "set_prev a v h = h\<lparr>e_prev := (e_prev h)(a := v)\<rparr>"

definition fusion_init_list :: "addr \<Rightarrow> fusion_heap \<Rightarrow> fusion_heap" where
  "fusion_init_list e h = (let h = set_next e e h; h = set_prev e e h in h)"

definition fusion_init_list_entry :: "addr \<Rightarrow> fusion_heap \<Rightarrow> fusion_heap" where
  "fusion_init_list_entry e h = (let h = set_next e e h; h = set_prev e e h in h)"

definition fusion_list_add :: "addr \<Rightarrow> addr \<Rightarrow> addr \<Rightarrow> fusion_heap \<Rightarrow> fusion_heap" where
  "fusion_list_add e p n h =
     (let h = set_prev n e h;
          h = set_next e n h;
          h = set_prev e p h;
          h = set_next p e h
      in h)"

definition fusion_list_add_head :: "addr \<Rightarrow> addr \<Rightarrow> fusion_heap \<Rightarrow> fusion_heap" where
  "fusion_list_add_head e l h = fusion_list_add e l (e_next h l) h"

definition fusion_list_add_tail :: "addr \<Rightarrow> addr \<Rightarrow> fusion_heap \<Rightarrow> fusion_heap" where
  "fusion_list_add_tail e l h = fusion_list_add e (e_prev h l) l h"

definition fusion_list_del_raw :: "addr \<Rightarrow> fusion_heap \<Rightarrow> fusion_heap" where
  "fusion_list_del_raw e h =
     (if e_next h e \<noteq> NULL \<and> e_prev h e \<noteq> NULL
      then let h = set_prev (e_next h e) (e_prev h e) h;
               h = set_next (e_prev h e) (e_next h e) h
           in h
      else h)"

definition fusion_list_del :: "addr \<Rightarrow> fusion_heap \<Rightarrow> fusion_heap" where
  "fusion_list_del e h = fusion_init_list e (fusion_list_del_raw e h)"

definition fusion_list_move_head :: "addr \<Rightarrow> addr \<Rightarrow> fusion_heap \<Rightarrow> fusion_heap" where
  "fusion_list_move_head e l h = fusion_list_add_head e l (fusion_list_del_raw e h)"

definition fusion_list_move_tail :: "addr \<Rightarrow> addr \<Rightarrow> fusion_heap \<Rightarrow> fusion_heap" where
  "fusion_list_move_tail e l h = fusion_list_add_tail e l (fusion_list_del_raw e h)"

definition fusion_list_empty :: "addr \<Rightarrow> fusion_heap \<Rightarrow> bool" where
  "fusion_list_empty e h \<longleftrightarrow> e_next h e = e"

definition fusion_list_add_list :: "addr \<Rightarrow> addr \<Rightarrow> fusion_heap \<Rightarrow> fusion_heap" where
  "fusion_list_add_list src dst h =
     (if e_next h src = src then h
      else
        let new_head = e_next h src;
            old_head = e_next h dst;
            h = set_prev old_head (e_prev h src) h;
            h = set_next (e_prev h src) old_head h;
            h = set_prev new_head dst h;
            h = set_next dst new_head h;
            h = set_prev src src h;
            h = set_next src src h
        in h)"

definition fusion_list_pop_head :: "addr \<Rightarrow> fusion_heap \<Rightarrow> addr \<times> fusion_heap" where
  "fusion_list_pop_head list h =
     (if \<not> fusion_list_empty list h
      then let retval = e_next h list in (retval, fusion_list_del retval h)
      else (NULL, h))"

definition fusion_list_is_head :: "addr \<Rightarrow> addr \<Rightarrow> fusion_heap \<Rightarrow> bool" where
  "fusion_list_is_head e l h \<longleftrightarrow> e_next h l = e"

definition fusion_list_is_tail :: "addr \<Rightarrow> addr \<Rightarrow> fusion_heap \<Rightarrow> bool" where
  "fusion_list_is_tail e l h \<longleftrightarrow> e_prev h l = e"

definition fusion_list_splice_raw :: "addr \<Rightarrow> addr \<Rightarrow> addr \<Rightarrow> fusion_heap \<Rightarrow> fusion_heap" where
  "fusion_list_splice_raw list prv nxt h =
     (let first = e_next h list;
          last = e_prev h list;
          h = set_prev first prv h;
          h = set_next prv first h;
          h = set_next last nxt h;
          h = set_prev nxt last h
      in h)"

definition fusion_list_splice :: "addr \<Rightarrow> addr \<Rightarrow> fusion_heap \<Rightarrow> fusion_heap" where
  "fusion_list_splice list head h =
     (if \<not> fusion_list_empty list h
      then fusion_init_list list (fusion_list_splice_raw list head (e_next h head) h)
      else h)"

definition fusion_list_splice_tail :: "addr \<Rightarrow> addr \<Rightarrow> fusion_heap \<Rightarrow> fusion_heap" where
  "fusion_list_splice_tail list head h =
     (if \<not> fusion_list_empty list h
      then fusion_init_list list (fusion_list_splice_raw list (e_prev h head) head h)
      else h)"

text \<open>\<open>container_of\<close>: the object that holds the entry at the given field offset.\<close>

definition container_of :: "addr \<Rightarrow> u64 \<Rightarrow> addr" where
  "container_of entry off = entry - off"

definition fusion_list_get_head :: "addr \<Rightarrow> u64 \<Rightarrow> fusion_heap \<Rightarrow> addr" where
  "fusion_list_get_head list off h =
     (if fusion_list_empty list h then NULL else container_of (e_next h list) off)"

definition fusion_list_get_tail :: "addr \<Rightarrow> u64 \<Rightarrow> fusion_heap \<Rightarrow> addr" where
  "fusion_list_get_tail list off h =
     (if fusion_list_empty list h then NULL else container_of (e_prev h list) off)"

text \<open>
  \<open>fusion_list_for_each\<close>: the entries the loop visits, None when the fuel does not reach the head
  again.
\<close>

fun for_each_from :: "nat \<Rightarrow> addr \<Rightarrow> addr \<Rightarrow> fusion_heap \<Rightarrow> addr list option" where
  "for_each_from fuel entry list h =
     (if entry = list then Some []
      else case fuel of
             0 \<Rightarrow> None
           | Suc fuel \<Rightarrow> map_option (\<lambda>es. entry # es) (for_each_from fuel (e_next h entry) list h))"

definition fusion_list_for_each :: "nat \<Rightarrow> addr \<Rightarrow> fusion_heap \<Rightarrow> addr list option" where
  "fusion_list_for_each fuel list h = for_each_from fuel (e_next h list) list h"

text \<open>
  \<open>fusion_list_for_each_safe\<close> with a body that may unlink the entry it is given: the next entry is
  read before the body runs.
\<close>

fun for_each_safe_from ::
  "nat \<Rightarrow> addr \<Rightarrow> addr \<Rightarrow> (addr \<Rightarrow> fusion_heap \<Rightarrow> fusion_heap) \<Rightarrow> addr \<Rightarrow> fusion_heap
     \<Rightarrow> fusion_heap option" where
  "for_each_safe_from fuel entry next_entry body list h =
     (if entry = list then Some h
      else case fuel of
             0 \<Rightarrow> None
           | Suc fuel \<Rightarrow>
               let h' = body entry h
               in for_each_safe_from fuel next_entry (e_next h' next_entry) body list h')"

definition fusion_list_for_each_safe ::
  "nat \<Rightarrow> (addr \<Rightarrow> fusion_heap \<Rightarrow> fusion_heap) \<Rightarrow> addr \<Rightarrow> fusion_heap \<Rightarrow> fusion_heap option" where
  "fusion_list_for_each_safe fuel body list h =
     for_each_safe_from fuel (e_next h list) (e_next h (e_next h list)) body list h"

subsection \<open>Abstraction\<close>

text \<open>Consecutive addresses are linked both ways.\<close>

fun links :: "fusion_heap \<Rightarrow> addr list \<Rightarrow> bool" where
  "links h (a # b # zs) \<longleftrightarrow> e_next h a = b \<and> e_prev h b = a \<and> links h (b # zs)"
| "links h zs \<longleftrightarrow> True"

definition dlist :: "fusion_heap \<Rightarrow> addr \<Rightarrow> addr list \<Rightarrow> bool" where
  "dlist h l xs \<longleftrightarrow> distinct (l # xs) \<and> NULL \<notin> set (l # xs) \<and> links h (l # xs @ [l])"

lemma heap_reads [ptr_simps, simp]:
  "e_next (set_next a v h) b = (if b = a then v else e_next h b)"
  "e_prev (set_next a v h) b = e_prev h b"
  "e_next (set_prev a v h) b = e_next h b"
  "e_prev (set_prev a v h) b = (if b = a then v else e_prev h b)"
  by (simp_all add: set_next_def set_prev_def)

lemma links_cong:
  assumes "\<And>a. a \<in> set (butlast zs) \<Longrightarrow> e_next h' a = e_next h a"
    and "\<And>a. a \<in> set (tl zs) \<Longrightarrow> e_prev h' a = e_prev h a"
  shows "links h' zs = links h zs"
  using assms
proof (induction zs rule: links.induct)
  case (1 h'' a b zs)
  then show ?case by (cases zs) auto
qed auto

lemma links_append:
  "links h (xs @ a # ys) \<longleftrightarrow> links h (xs @ [a]) \<and> links h (a # ys)"
proof (induction xs)
  case (Cons x xs)
  then show ?case by (cases xs; cases ys) auto
qed (cases ys; simp)

lemma links_next: "links h (xs @ a # b # ys) \<Longrightarrow> e_next h a = b \<and> e_prev h b = a"
  using links_append [of h xs a "b # ys"] by simp

lemma dlist_Nil [simp]: "dlist h l [] \<longleftrightarrow> l \<noteq> NULL \<and> e_next h l = l \<and> e_prev h l = l"
  by (auto simp: dlist_def)

text \<open>Only the fields of the entries of a list matter to it.\<close>

lemma dlist_frame:
  assumes "\<And>a. a \<in> insert l (set xs) \<Longrightarrow> e_next h' a = e_next h a \<and> e_prev h' a = e_prev h a"
  shows "dlist h' l xs = dlist h l xs"
proof -
  have "links h' (l # xs @ [l]) = links h (l # xs @ [l])"
    using assms by (intro links_cong) (auto simp: butlast_append)
  then show ?thesis by (simp add: dlist_def)
qed

lemma links_app:
  "links h (xs @ ys) \<longleftrightarrow> links h xs \<and> links h ys \<and>
     (xs \<noteq> [] \<and> ys \<noteq> [] \<longrightarrow> e_next h (last xs) = hd ys \<and> e_prev h (hd ys) = last xs)"
proof (induction xs)
  case (Cons x xs)
  then show ?case by (cases xs; cases ys) auto
qed simp

text \<open>The neighbours of the head of a list.\<close>

lemma dlist_next: "dlist h l xs \<Longrightarrow> e_next h l = hd (xs @ [l])"
  by (cases xs) (auto simp: dlist_def)

lemma dlist_prev: "dlist h l xs \<Longrightarrow> e_prev h l = last (l # xs)"
  using links_app [of h "l # xs" "[l]"] by (auto simp: dlist_def)

lemma dlist_links:
  assumes "dlist h l xs"
  shows "links h (l # xs)" "links h (xs @ [l])"
  using assms links_app [of h "l # xs" "[l]"] links_app [of h "[l]" "xs @ [l]"]
  by (auto simp: dlist_def)

lemma dlist_entries: "dlist h l xs \<Longrightarrow> links h xs"
  using dlist_links(1) [of h l xs] by (cases xs) auto

lemma links_cong_distinct:
  assumes "distinct zs"
    and "\<And>a. a \<in> set zs \<Longrightarrow> a \<noteq> last zs \<Longrightarrow> e_next h' a = e_next h a"
    and "\<And>a. a \<in> set zs \<Longrightarrow> a \<noteq> hd zs \<Longrightarrow> e_prev h' a = e_prev h a"
  shows "links h' zs = links h zs"
proof (rule links_cong)
  fix a assume "a \<in> set (butlast zs)"
  then have "a \<in> set zs \<and> a \<noteq> last zs" using assms(1) by (cases zs rule: rev_cases) auto
  then show "e_next h' a = e_next h a" using assms(2) by blast
next
  fix a assume "a \<in> set (tl zs)"
  then have "a \<in> set zs \<and> a \<noteq> hd zs" using assms(1) by (cases zs) auto
  then show "e_prev h' a = e_prev h a" using assms(3) by blast
qed

text \<open>A segment put at the head, and at the tail, of a list.\<close>

lemma dlist_put_head:
  assumes ys: "dlist h l ys" and seg: "links h xs" "xs \<noteq> []" "distinct xs" "NULL \<notin> set xs"
    and n: "n = hd (ys @ [l])" and dis: "set xs \<inter> insert l (set ys) = {}"
    and nx: "\<And>a. a \<in> set xs \<union> insert l (set ys) \<Longrightarrow>
      e_next h' a = (if a = l then hd xs else if a = last xs then n else e_next h a)"
    and pr: "\<And>a. a \<in> set xs \<union> insert l (set ys) \<Longrightarrow>
      e_prev h' a = (if a = hd xs then l else if a = n then last xs else e_prev h a)"
  shows "dlist h' l (xs @ ys)"
proof -
  have hl: "hd xs \<in> set xs" "last xs \<in> set xs" "n \<in> insert l (set ys)"
    using seg(2) n by (simp_all, cases ys, simp_all)
  have dy: "distinct (ys @ [l])" "NULL \<notin> insert l (set ys)" using ys by (auto simp: dlist_def)
  have "links h' xs = links h xs"
    using dis hl by (intro links_cong_distinct seg(3)) (auto simp: nx pr n [symmetric])
  moreover have "links h' (ys @ [l]) = links h (ys @ [l])"
    using dis hl by (intro links_cong_distinct dy(1)) (auto simp: nx pr n [symmetric])
  moreover have "e_next h' l = hd xs" "e_prev h' (hd xs) = l" using hl by (auto simp: nx pr)
  moreover have "e_next h' (last xs) = n" "e_prev h' (n) = last xs"
    using hl dis by (auto simp: nx pr)
  ultimately have "links h' ([l] @ xs @ ys @ [l])"
    using seg dlist_links(2) [OF ys] links_app [of h' "[l]" "xs @ ys @ [l]"] links_app [of h' xs "ys @ [l]"]
    by (simp add: n)
  then show ?thesis using dy seg dis by (auto simp: dlist_def)
qed

lemma dlist_put_tail:
  assumes ys: "dlist h l ys" and seg: "links h xs" "xs \<noteq> []" "distinct xs" "NULL \<notin> set xs"
    and p: "p = last (l # ys)" and dis: "set xs \<inter> insert l (set ys) = {}"
    and nx: "\<And>a. a \<in> set xs \<union> insert l (set ys) \<Longrightarrow>
      e_next h' a = (if a = p then hd xs else if a = last xs then l else e_next h a)"
    and pr: "\<And>a. a \<in> set xs \<union> insert l (set ys) \<Longrightarrow>
      e_prev h' a = (if a = hd xs then p else if a = l then last xs else e_prev h a)"
  shows "dlist h' l (ys @ xs)"
proof -
  have hl: "hd xs \<in> set xs" "last xs \<in> set xs" "p \<in> insert l (set ys)"
    using seg(2) p by simp_all
  have dy: "distinct (l # ys)" "NULL \<notin> insert l (set ys)" using ys by (auto simp: dlist_def)
  have "links h' xs = links h xs"
    using dis hl by (intro links_cong_distinct seg(3)) (auto simp: nx pr p [symmetric] simp del: last.simps)
  moreover have "links h' (l # ys) = links h (l # ys)"
    using dis hl by (intro links_cong_distinct dy(1)) (auto simp: nx pr p [symmetric] simp del: last.simps)
  moreover have "e_next h' (p) = hd xs" "e_prev h' (hd xs) = p"
    using hl by (auto simp: nx pr)
  moreover have "e_next h' (last xs) = l" "e_prev h' l = last xs"
    using hl dis by (auto simp: nx pr)
  ultimately have "links h' ((l # ys) @ xs @ [l])"
    using seg dlist_links(1) [OF ys] links_app [of h' "l # ys" "xs @ [l]"] links_app [of h' xs "[l]"]
    by (simp add: p)
  then show ?thesis using dy seg dis by (auto simp: dlist_def)
qed

text \<open>An entry taken out.\<close>

lemma dlist_take_out:
  assumes xs: "dlist h l (us @ e # vs)"
    and p: "p = last (l # us)" and n: "n = hd (vs @ [l])"
    and nx: "\<And>a. a \<in> set (l # us @ vs) \<Longrightarrow>
      e_next h' a = (if a = p then n else e_next h a)"
    and pr: "\<And>a. a \<in> set (l # us @ vs) \<Longrightarrow>
      e_prev h' a = (if a = n then p else e_prev h a)"
  shows "dlist h' l (us @ vs)"
proof -
  have d: "distinct (l # us)" "distinct (vs @ [l])" "set us \<inter> set vs = {}" "NULL \<notin> set (l # us @ vs)"
    using xs by (auto simp: dlist_def)
  have "links h ((l # us) @ [e] @ vs @ [l])" using xs by (simp add: dlist_def)
  then have "links h (l # us)" "links h (vs @ [l])"
    using links_app [of h "l # us" "[e] @ vs @ [l]"] links_app [of h "[e]" "vs @ [l]"] by simp_all
  moreover have pu: "p \<in> insert l (set us)" by (simp add: p)
  have hl: "n \<in> insert l (set vs)" by (cases vs) (simp_all add: n)
  have "links h' (l # us) = links h (l # us)"
    using d hl by (intro links_cong_distinct d(1)) (auto simp: nx pr p [symmetric] simp del: last.simps)
  moreover have "links h' (vs @ [l]) = links h (vs @ [l])"
    using d pu by (intro links_cong_distinct d(2)) (auto simp: nx pr n [symmetric])
  moreover have "e_next h' (p) = n" "e_prev h' (n) = p"
    using hl pu by (auto simp: nx pr)
  ultimately have "links h' ((l # us) @ vs @ [l])" using links_app [of h' "l # us" "vs @ [l]"] by (simp add: p n)
  then show ?thesis using d by (auto simp: dlist_def)
qed

subsection \<open>The operations on lists of addresses\<close>

lemma add_fields:
  assumes "e \<noteq> p" "e \<noteq> n"
  shows "e_next (fusion_list_add e p n h) a = (if a = p then e else if a = e then n else e_next h a)"
    and "e_prev (fusion_list_add e p n h) a = (if a = e then p else if a = n then e else e_prev h a)"
  using assms by (auto simp: fusion_list_add_def Let_def)

lemma add_head_dlist:
  assumes "dlist h l xs" and "e \<notin> insert l (set xs)" and "e \<noteq> NULL"
  shows "dlist (fusion_list_add_head e l h) l (e # xs)"
proof -
  have "e \<noteq> l" "e \<noteq> hd (xs @ [l])" using assms(2) by (auto simp: hd_append)
  then show ?thesis
    using dlist_put_head [OF assms(1), of "[e]" "hd (xs @ [l])" "fusion_list_add_head e l h"] assms
    by (auto simp: fusion_list_add_head_def dlist_next [OF assms(1)] add_fields)
qed

lemma add_tail_dlist:
  assumes "dlist h l xs" and "e \<notin> insert l (set xs)" and "e \<noteq> NULL"
  shows "dlist (fusion_list_add_tail e l h) l (xs @ [e])"
proof -
  define p where "p = last (l # xs)"
  have "e \<noteq> l" "e \<noteq> p" using assms(2) by (auto simp: p_def)
  then show ?thesis
    using dlist_put_tail [OF assms(1), of "[e]" p "fusion_list_add_tail e l h"] assms
    by (auto simp: fusion_list_add_tail_def dlist_prev [OF assms(1)] add_fields p_def [symmetric]
        last_ConsL simp del: last.simps)
qed

text \<open>The neighbours of an entry.\<close>

lemma dlist_entry:
  assumes "dlist h l (us @ e # vs)"
  shows "e_next h e = hd (vs @ [l])" "e_prev h e = last (l # us)"
    "e_next h e \<noteq> NULL" "e_prev h e \<noteq> NULL" "e \<noteq> l" "e \<notin> set us" "e \<notin> set vs"
proof -
  have "links h ((l # us) @ [e] @ vs @ [l])" using assms by (simp add: dlist_def)
  then show n: "e_next h e = hd (vs @ [l])" and p: "e_prev h e = last (l # us)"
    using links_app [of h "l # us" "[e] @ vs @ [l]"] links_app [of h "[e]" "vs @ [l]"] by simp_all
  have "NULL \<notin> set (l # us @ vs)" using assms by (auto simp: dlist_def)
  moreover have "hd (vs @ [l]) \<in> set (vs @ [l])" by (rule hd_in_set) simp
  moreover have "last (l # us) \<in> set (l # us)" by (rule last_in_set) simp
  ultimately show "e_next h e \<noteq> NULL" "e_prev h e \<noteq> NULL"
    unfolding n p by auto
  show "e \<noteq> l" "e \<notin> set us" "e \<notin> set vs" using assms by (auto simp: dlist_def)
qed

lemma del_raw_fields:
  assumes "e_next h e \<noteq> NULL" "e_prev h e \<noteq> NULL" "e_next h e \<noteq> e"
  shows "e_next (fusion_list_del_raw e h) a = (if a = e_prev h e then e_next h e else e_next h a)"
    and "e_prev (fusion_list_del_raw e h) a = (if a = e_next h e then e_prev h e else e_prev h a)"
  using assms by (auto simp: fusion_list_del_raw_def Let_def)

lemma del_raw_dlist:
  assumes "dlist h l (us @ e # vs)"
  shows "dlist (fusion_list_del_raw e h) l (us @ vs)"
proof -
  note e = dlist_entry [OF assms]
  have "e_next h e \<noteq> e" using e by (auto simp: hd_append)
  note f = del_raw_fields [OF e(3,4) this]
  show ?thesis by (rule dlist_take_out [OF assms refl refl]) (simp_all only: f e(1,2))
qed

lemma init_fields:
  "e_next (fusion_init_list e h) a = (if a = e then e else e_next h a)"
  "e_prev (fusion_init_list e h) a = (if a = e then e else e_prev h a)"
  by (simp_all add: fusion_init_list_def Let_def)

lemma init_frame: "e \<notin> insert l (set xs) \<Longrightarrow> dlist (fusion_init_list e h) l xs = dlist h l xs"
  by (intro dlist_frame) (auto simp: init_fields)

lemma init_dlist: "e \<noteq> NULL \<Longrightarrow> dlist (fusion_init_list e h) e []"
  by (simp add: init_fields)

lemma del_dlist:
  assumes "dlist h l (us @ e # vs)"
  shows "dlist (fusion_list_del e h) l (us @ vs)" and "dlist (fusion_list_del e h) e []"
proof -
  have "e \<notin> insert l (set (us @ vs))" using dlist_entry [OF assms] by simp
  then show "dlist (fusion_list_del e h) l (us @ vs)"
    using del_raw_dlist [OF assms] by (simp add: fusion_list_del_def init_frame)
  have "e \<noteq> NULL" using assms by (auto simp: dlist_def)
  then show "dlist (fusion_list_del e h) e []" by (simp add: fusion_list_del_def init_dlist del: dlist_Nil)
qed

lemma empty_iff: "dlist h l xs \<Longrightarrow> fusion_list_empty l h \<longleftrightarrow> xs = []"
  by (cases xs) (auto simp: fusion_list_empty_def dlist_def)

lemma pop_head_dlist:
  assumes "dlist h l (x # xs)"
  shows "fst (fusion_list_pop_head l h) = x" and "dlist (snd (fusion_list_pop_head l h)) l xs"
    and "dlist (snd (fusion_list_pop_head l h)) x []"
proof -
  have "e_next h l = x" using dlist_next [OF assms] by simp
  then have p: "fusion_list_pop_head l h = (x, fusion_list_del x h)"
    using empty_iff [OF assms] by (simp add: fusion_list_pop_head_def)
  show "fst (fusion_list_pop_head l h) = x" by (simp add: p)
  show "dlist (snd (fusion_list_pop_head l h)) l xs" "dlist (snd (fusion_list_pop_head l h)) x []"
    using del_dlist [of h l "[]" x xs] assms by (simp_all add: p del: dlist_Nil)
qed

lemma pop_head_empty: "dlist h l [] \<Longrightarrow> fusion_list_pop_head l h = (NULL, h)"
  by (simp add: fusion_list_pop_head_def fusion_list_empty_def)

text \<open>Moving an entry: it may be on the list it moves to, on another list, or unlinked.\<close>

lemma del_raw_unlinked: "dlist h e [] \<Longrightarrow> dlist (fusion_list_del_raw e h) l xs = dlist h l xs"
  by (intro dlist_frame) (auto simp: fusion_list_del_raw_def Let_def)

lemma move_tail_same:
  assumes "dlist h l (us @ e # vs)"
  shows "dlist (fusion_list_move_tail e l h) l (us @ vs @ [e])"
  using add_tail_dlist [OF del_raw_dlist [OF assms], of e] assms dlist_entry [OF assms]
  by (auto simp: fusion_list_move_tail_def dlist_def)

lemma move_head_same:
  assumes "dlist h l (us @ e # vs)"
  shows "dlist (fusion_list_move_head e l h) l (e # us @ vs)"
  using add_head_dlist [OF del_raw_dlist [OF assms], of e] assms dlist_entry [OF assms]
  by (auto simp: fusion_list_move_head_def dlist_def)

text \<open>
  \<open>heap_lists h L\<close>: the heap holds the lists \<open>L\<close>, a map from heads to entries, and no address is in two
  of them.  An unlinked, initialised entry is the head of an empty list.
\<close>

definition apart :: "(addr \<rightharpoonup> addr list) \<Rightarrow> bool" where
  "apart L \<longleftrightarrow> (\<forall>l l' xs xs'. l \<noteq> l' \<longrightarrow> L l = Some xs \<longrightarrow> L l' = Some xs' \<longrightarrow>
     insert l (set xs) \<inter> insert l' (set xs') = {})"

definition heap_lists :: "fusion_heap \<Rightarrow> (addr \<rightharpoonup> addr list) \<Rightarrow> bool" where
  "heap_lists h L \<longleftrightarrow> (\<forall>l xs. L l = Some xs \<longrightarrow> dlist h l xs) \<and> apart L"

text \<open>An address on no list, or alone on its own.\<close>

definition unowned :: "addr \<Rightarrow> (addr \<rightharpoonup> addr list) \<Rightarrow> bool" where
  "unowned e L \<longleftrightarrow> e \<noteq> NULL \<and> (\<forall>l xs. L l = Some xs \<longrightarrow> e \<notin> insert l (set xs))"

definition free_entry :: "addr \<Rightarrow> (addr \<rightharpoonup> addr list) \<Rightarrow> bool" where
  "free_entry e L \<longleftrightarrow> L e = Some [] \<or> unowned e L"

datatype list_op =
    Init addr
  | Add_head addr addr
  | Add_tail addr addr
  | Del addr
  | Move_head addr addr
  | Move_tail addr addr
  | Pop_head addr
  | Add_list addr addr
  | Splice addr addr
  | Splice_tail addr addr

fun run_op :: "list_op \<Rightarrow> fusion_heap \<Rightarrow> fusion_heap" where
  "run_op (Init e) h = fusion_init_list e h"
| "run_op (Add_head e l) h = fusion_list_add_head e l h"
| "run_op (Add_tail e l) h = fusion_list_add_tail e l h"
| "run_op (Del e) h = fusion_list_del e h"
| "run_op (Move_head e l) h = fusion_list_move_head e l h"
| "run_op (Move_tail e l) h = fusion_list_move_tail e l h"
| "run_op (Pop_head l) h = snd (fusion_list_pop_head l h)"
| "run_op (Add_list src dst) h = fusion_list_add_list src dst h"
| "run_op (Splice src dst) h = fusion_list_splice src dst h"
| "run_op (Splice_tail src dst) h = fusion_list_splice_tail src dst h"

text \<open>What each operation does to the lists, under the conditions its comment asks for.\<close>

inductive op_spec :: "list_op \<Rightarrow> (addr \<rightharpoonup> addr list) \<Rightarrow> (addr \<rightharpoonup> addr list) \<Rightarrow> bool" where
  init: "unowned e L \<Longrightarrow> op_spec (Init e) L (L(e \<mapsto> []))"
| add_head: "free_entry e L \<Longrightarrow> e \<noteq> l \<Longrightarrow> L l = Some xs \<Longrightarrow>
     op_spec (Add_head e l) L (L(e := None, l \<mapsto> e # xs))"
| add_tail: "free_entry e L \<Longrightarrow> e \<noteq> l \<Longrightarrow> L l = Some xs \<Longrightarrow>
     op_spec (Add_tail e l) L (L(e := None, l \<mapsto> xs @ [e]))"
| del: "L l = Some (us @ e # vs) \<Longrightarrow> op_spec (Del e) L (L(l \<mapsto> us @ vs, e \<mapsto> []))"
| del_unlinked: "L e = Some [] \<Longrightarrow> op_spec (Del e) L L"
| move_head_same: "L l = Some (us @ e # vs) \<Longrightarrow> op_spec (Move_head e l) L (L(l \<mapsto> e # us @ vs))"
| move_head_other: "L l' = Some (us @ e # vs) \<Longrightarrow> L l = Some xs \<Longrightarrow> l \<noteq> l' \<Longrightarrow>
     op_spec (Move_head e l) L (L(l' \<mapsto> us @ vs, l \<mapsto> e # xs))"
| move_tail_same: "L l = Some (us @ e # vs) \<Longrightarrow> op_spec (Move_tail e l) L (L(l \<mapsto> us @ vs @ [e]))"
| move_tail_other: "L l' = Some (us @ e # vs) \<Longrightarrow> L l = Some xs \<Longrightarrow> l \<noteq> l' \<Longrightarrow>
     op_spec (Move_tail e l) L (L(l' \<mapsto> us @ vs, l \<mapsto> xs @ [e]))"
| move_tail_unlinked: "L e = Some [] \<Longrightarrow> L l = Some xs \<Longrightarrow> e \<noteq> l \<Longrightarrow>
     op_spec (Move_tail e l) L (L(e := None, l \<mapsto> xs @ [e]))"
| pop: "L l = Some (x # xs) \<Longrightarrow> op_spec (Pop_head l) L (L(l \<mapsto> xs, x \<mapsto> []))"
| pop_empty: "L l = Some [] \<Longrightarrow> op_spec (Pop_head l) L L"
| add_list: "L src = Some xs \<Longrightarrow> L dst = Some ys \<Longrightarrow> src \<noteq> dst \<Longrightarrow>
     op_spec (Add_list src dst) L (L(src \<mapsto> [], dst \<mapsto> xs @ ys))"
| splice: "L src = Some xs \<Longrightarrow> L dst = Some ys \<Longrightarrow> src \<noteq> dst \<Longrightarrow>
     op_spec (Splice src dst) L (L(src \<mapsto> [], dst \<mapsto> xs @ ys))"
| splice_tail: "L src = Some xs \<Longrightarrow> L dst = Some ys \<Longrightarrow> src \<noteq> dst \<Longrightarrow>
     op_spec (Splice_tail src dst) L (L(src \<mapsto> [], dst \<mapsto> ys @ xs))"

text \<open>\<open>same_outside F h h'\<close>: only entries in \<open>F\<close> changed.\<close>

definition same_outside :: "addr set \<Rightarrow> fusion_heap \<Rightarrow> fusion_heap \<Rightarrow> bool" where
  "same_outside F h h' \<longleftrightarrow> (\<forall>a. a \<notin> F \<longrightarrow> e_next h' a = e_next h a \<and> e_prev h' a = e_prev h a)"

subsection \<open>All lists of a heap\<close>

lemma same_outside_trans:
  "same_outside F h h' \<Longrightarrow> same_outside F h' h'' \<Longrightarrow> same_outside F h h''"
  by (simp add: same_outside_def)

lemma same_outside_mono: "same_outside F h h' \<Longrightarrow> F \<subseteq> G \<Longrightarrow> same_outside G h h'"
  by (auto simp: same_outside_def)

lemma same_outside_dlist: "same_outside F h h' \<Longrightarrow> insert l (set xs) \<inter> F = {} \<Longrightarrow> dlist h' l xs = dlist h l xs"
  by (intro dlist_frame) (auto simp: same_outside_def)

lemma add_same_outside: "same_outside {e, p, n} h (fusion_list_add e p n h)"
  by (simp add: same_outside_def fusion_list_add_def Let_def)

lemma hd_last_in: "hd (xs @ [l]) \<in> insert l (set xs)" "last (l # xs) \<in> insert l (set xs)"
  by (cases xs) auto

lemma add_head_outside: "dlist h l xs \<Longrightarrow> same_outside (insert e (insert l (set xs))) h (fusion_list_add_head e l h)"
  unfolding fusion_list_add_head_def
  by (rule same_outside_mono [OF add_same_outside]) (use hd_last_in(1) [of xs l] in \<open>auto simp: dlist_next\<close>)

lemma add_tail_outside: "dlist h l xs \<Longrightarrow> same_outside (insert e (insert l (set xs))) h (fusion_list_add_tail e l h)"
  unfolding fusion_list_add_tail_def
  by (rule same_outside_mono [OF add_same_outside]) (use hd_last_in in \<open>auto simp: dlist_prev\<close>)

lemma del_raw_outside:
  "dlist h l (us @ e # vs) \<Longrightarrow> same_outside (insert l (set (us @ vs))) h (fusion_list_del_raw e h)"
  using dlist_entry(1,2) [of h l us e vs] hd_last_in(1) [of vs l] hd_last_in(2) [of l us]
  by (auto simp: same_outside_def fusion_list_del_raw_def Let_def)

lemma init_outside: "same_outside {e} h (fusion_init_list e h)"
  by (simp add: same_outside_def init_fields)

lemma del_outside:
  "dlist h l (us @ e # vs) \<Longrightarrow> same_outside (insert l (set (us @ e # vs))) h (fusion_list_del e h)"
  unfolding fusion_list_del_def
  by (rule same_outside_trans [OF same_outside_mono [OF del_raw_outside] same_outside_mono [OF init_outside]]) auto


subsection \<open>Joining lists\<close>

lemma splice_raw_fields:
  assumes "first \<noteq> n" "p \<noteq> last_e" "e_next h l = first" "e_prev h l = last_e"
  shows "e_next (fusion_list_splice_raw l p n h) a =
      (if a = p then first else if a = last_e then n else e_next h a)"
    and "e_prev (fusion_list_splice_raw l p n h) a =
      (if a = first then p else if a = n then last_e else e_prev h a)"
  using assms by (auto simp: fusion_list_splice_raw_def Let_def)

text \<open>What the three joining functions share: the source's entries and the destination's list.\<close>

lemma join_facts:
  assumes xs: "dlist h src xs" "xs \<noteq> []" and ys: "dlist h dst ys"
    and dis: "insert src (set xs) \<inter> insert dst (set ys) = {}"
  shows "e_next h src = hd xs" "e_prev h src = last xs" "links h xs" "distinct xs" "NULL \<notin> set xs"
    "src \<noteq> NULL" "src \<notin> set xs" "hd xs \<in> set xs" "last xs \<in> set xs"
    "hd (ys @ [dst]) \<in> insert dst (set ys)" "last (dst # ys) \<in> insert dst (set ys)"
    "hd xs \<noteq> hd (ys @ [dst])" "last (dst # ys) \<noteq> last xs" "hd xs \<noteq> dst" "dst \<noteq> last xs"
    "src \<noteq> dst" "src \<notin> set ys" "\<not> fusion_list_empty src h" "set xs \<inter> insert dst (set ys) = {}"
proof -
  show "e_next h src = hd xs" "e_prev h src = last xs"
    using dlist_next [OF xs(1)] dlist_prev [OF xs(1)] xs(2) by simp_all
  show "links h xs" using dlist_entries [OF xs(1)] .
  show "distinct xs" "NULL \<notin> set xs" "src \<noteq> NULL" "src \<notin> set xs" using xs(1) by (auto simp: dlist_def)
  show h: "hd xs \<in> set xs" "last xs \<in> set xs" using xs(2) by simp_all
  show n: "hd (ys @ [dst]) \<in> insert dst (set ys)" "last (dst # ys) \<in> insert dst (set ys)"
    by (rule hd_last_in)+
  have ne: "a \<noteq> b" if "a \<in> insert src (set xs)" "b \<in> insert dst (set ys)" for a b
    using that dis by blast
  show "hd xs \<noteq> hd (ys @ [dst])" using ne [OF _ n(1)] h(1) by simp
  show "last (dst # ys) \<noteq> last xs" using ne [OF _ n(2), of "last xs"] h(2) by (simp del: last.simps)
  show "hd xs \<noteq> dst" "dst \<noteq> last xs" "src \<noteq> dst" "src \<notin> set ys"
    using ne [of "hd xs" dst] ne [of "last xs" dst] ne [of src] h by auto
  show "set xs \<inter> insert dst (set ys) = {}" using dis by auto
  show "\<not> fusion_list_empty src h" using empty_iff [OF xs(1)] xs(2) by simp
qed

lemma splice_dlist:
  assumes xs: "dlist h src xs" and ys: "dlist h dst ys"
    and dis: "insert src (set xs) \<inter> insert dst (set ys) = {}"
  shows "dlist (fusion_list_splice src dst h) dst (xs @ ys)" "dlist (fusion_list_splice src dst h) src []"
    "same_outside (insert src (set xs) \<union> insert dst (set ys)) h (fusion_list_splice src dst h)"
proof -
  have "dlist (fusion_list_splice src dst h) dst (xs @ ys) \<and> dlist (fusion_list_splice src dst h) src [] \<and>
    same_outside (insert src (set xs) \<union> insert dst (set ys)) h (fusion_list_splice src dst h)"
  proof (cases "xs = []")
    case True
    then show ?thesis using assms by (simp add: fusion_list_splice_def fusion_list_empty_def same_outside_def)
  next
    case False
    note j = join_facts [OF xs False ys dis]
    define n where "n = hd (ys @ [dst])"
    note f = splice_raw_fields [OF j(12,15,1,2), folded n_def]
    have r: "fusion_list_splice src dst h = fusion_init_list src (fusion_list_splice_raw src dst n h)"
      using j(18) dlist_next [OF ys] by (simp add: fusion_list_splice_def n_def)
    have ns: "n \<noteq> src" using j(10,16,17) by (auto simp: n_def)
    have "dlist (fusion_list_splice src dst h) dst (xs @ ys)"
      by (rule dlist_put_head [OF ys j(3) False j(4,5) n_def j(19)])
        (use ns j(7,12,14,15,16,17) in \<open>auto simp: r init_fields f n_def [symmetric]\<close>)
    moreover have "same_outside (insert src (set xs) \<union> insert dst (set ys)) h (fusion_list_splice src dst h)"
      using j(8,9,10) by (auto simp: same_outside_def r init_fields f n_def [symmetric])
    ultimately show ?thesis using init_dlist [OF j(6)] by (simp only: r)
  qed
  then show "dlist (fusion_list_splice src dst h) dst (xs @ ys)" "dlist (fusion_list_splice src dst h) src []"
    "same_outside (insert src (set xs) \<union> insert dst (set ys)) h (fusion_list_splice src dst h)" by auto
qed

lemma splice_tail_dlist:
  assumes xs: "dlist h src xs" and ys: "dlist h dst ys"
    and dis: "insert src (set xs) \<inter> insert dst (set ys) = {}"
  shows "dlist (fusion_list_splice_tail src dst h) dst (ys @ xs) \<and>
    dlist (fusion_list_splice_tail src dst h) src [] \<and>
    same_outside (insert src (set xs) \<union> insert dst (set ys)) h (fusion_list_splice_tail src dst h)"
proof (cases "xs = []")
  case True
  then show ?thesis using assms by (simp add: fusion_list_splice_tail_def fusion_list_empty_def same_outside_def)
next
  case False
  note j = join_facts [OF xs False ys dis]
  define p where "p = last (dst # ys)"
  note f = splice_raw_fields [OF j(14,13,1,2), folded p_def]
  have r: "fusion_list_splice_tail src dst h = fusion_init_list src (fusion_list_splice_raw src p dst h)"
    using j(18) dlist_prev [OF ys] by (simp add: fusion_list_splice_tail_def p_def del: last.simps)
  have "dlist (fusion_list_splice_tail src dst h) dst (ys @ xs)"
    by (rule dlist_put_tail [OF ys j(3) False j(4,5) p_def j(19)])
      (use j(7,13,14,15,16,17) in \<open>auto simp: r init_fields f p_def [symmetric] simp del: last.simps\<close>)
  moreover have "same_outside (insert src (set xs) \<union> insert dst (set ys)) h (fusion_list_splice_tail src dst h)"
    using j(8,9,11) by (auto simp: same_outside_def r init_fields f p_def [symmetric] simp del: last.simps)
  ultimately show ?thesis using init_dlist [OF j(6)] by (simp only: r)
qed

lemma add_list_eq:
  assumes xs: "dlist h src xs" and ys: "dlist h dst ys"
    and dis: "insert src (set xs) \<inter> insert dst (set ys) = {}"
  shows "fusion_list_add_list src dst h = fusion_list_splice src dst h"
proof (cases "xs = []")
  case True
  then show ?thesis using xs
    by (simp add: fusion_list_splice_def fusion_list_add_list_def fusion_list_empty_def)
next
  case False
  note j = join_facts [OF xs False ys dis]
  define n where "n = hd (ys @ [dst])"
  have "n \<noteq> src" using j(10,16,17) by (auto simp: n_def)
  have "e_next h src \<noteq> src" using j(1,7,8) by metis
  have "src \<noteq> dst" "hd xs \<noteq> src" "last xs \<noteq> src" "hd xs \<noteq> n" "dst \<noteq> last xs"
    using j by (auto simp: n_def)
  then show ?thesis
    using \<open>n \<noteq> src\<close> \<open>e_next h src \<noteq> src\<close> j(1,2,18) dlist_next [OF ys]
    by (auto simp: fusion_list_splice_def fusion_list_add_list_def fusion_list_splice_raw_def Let_def
        fusion_init_list_def n_def [symmetric] set_next_def set_prev_def fun_eq_iff intro!: fusion_heap.equality)
qed

subsection \<open>Refinement\<close>

lemma lists_step:
  assumes "heap_lists h L" and "same_outside F h h'" and "apart L'"
    and "\<And>l xs. L' l = Some xs \<Longrightarrow> (L l = Some xs \<and> insert l (set xs) \<inter> F = {}) \<or> dlist h' l xs"
  shows "heap_lists h' L'"
proof -
  have "dlist h' l xs" if "L' l = Some xs" for l xs
    using assms(4) [OF that]
  proof
    assume *: "L l = Some xs \<and> insert l (set xs) \<inter> F = {}"
    then have "dlist h l xs" using assms(1) by (simp add: heap_lists_def)
    then show ?thesis using * same_outside_dlist [OF assms(2), of l xs] by simp
  qed
  then show ?thesis using assms(3) by (simp add: heap_lists_def)
qed

lemma apart_disjoint:
  "apart L \<Longrightarrow> L l = Some xs \<Longrightarrow> L l' = Some ys \<Longrightarrow> l \<noteq> l' \<Longrightarrow>
     insert l (set xs) \<inter> insert l' (set ys) = {}"
  unfolding apart_def by blast

text \<open>Replacing lists by lists over the same addresses, or fewer, keeps them apart.\<close>

lemma apart_upd:
  assumes "apart L" and "L l = Some xs" and "set ys \<subseteq> set xs"
  shows "apart (L(l \<mapsto> ys))"
  using assms unfolding apart_def by (auto split: if_splits) blast+

lemma apart_forget: "apart L \<Longrightarrow> apart (L(e := None))"
  unfolding apart_def by (auto split: if_splits)

lemma apart_new:
  assumes "apart L" and "\<And>l xs. L l = Some xs \<Longrightarrow> l \<noteq> e \<Longrightarrow> e \<notin> insert l (set xs)"
  shows "apart (L(e \<mapsto> []))"
  using assms unfolding apart_def by (auto split: if_splits)

lemma apart_extend:
  assumes "apart L" and "L l = Some xs" and "set ys \<subseteq> set xs \<union> A"
    and "\<And>l' zs. L l' = Some zs \<Longrightarrow> l' \<noteq> l \<Longrightarrow> insert l' (set zs) \<inter> A = {}"
  shows "apart (L(l \<mapsto> ys))"
proof -
  have "insert l' (set zs) \<inter> insert l (set ys) = {}" if "L l' = Some zs" "l' \<noteq> l" for l' zs
    using that assms(3) assms(4) [OF that] apart_disjoint [OF assms(1) that(1) assms(2) that(2)] by blast
  then show ?thesis using assms(1) unfolding apart_def by (auto split: if_splits)
qed

lemma listsD:
  assumes "heap_lists h L" and "L l = Some xs"
  shows "dlist h l xs" "apart L" "distinct xs" "l \<notin> set xs" "NULL \<notin> insert l (set xs)"
  using assms by (auto simp: heap_lists_def dlist_def)

lemma free_entry_facts:
  assumes "heap_lists h L" and "free_entry e L" and "e \<noteq> l" and "L l = Some xs"
  shows "e \<notin> insert l (set xs)" "e \<noteq> NULL"
    "\<And>l' zs. L l' = Some zs \<Longrightarrow> l' \<noteq> e \<Longrightarrow> e \<notin> insert l' (set zs)"
proof -
  have *: "e \<notin> insert l' (set zs)" if "L l' = Some zs" "l' \<noteq> e" for l' zs
    using assms(1,2) that unfolding free_entry_def unowned_def heap_lists_def apart_def by blast
  then show "e \<notin> insert l (set xs)" "\<And>l' zs. L l' = Some zs \<Longrightarrow> l' \<noteq> e \<Longrightarrow> e \<notin> insert l' (set zs)"
    using assms(3,4) by blast+
  show "e \<noteq> NULL"
    using assms(2) listsD(5) [OF assms(1), of e "[]"] by (auto simp: free_entry_def unowned_def)
qed

lemma add_refines:
  assumes L: "heap_lists h L" and e: "free_entry e L" "e \<noteq> l" "L l = Some xs"
    and h': "dlist h' l ys" "set ys = insert e (set xs)" "same_outside (insert e (insert l (set xs))) h h'"
  shows "heap_lists h' (L(e := None, l \<mapsto> ys))"
proof (rule lists_step [OF L h'(3)])
  note f = free_entry_facts [OF L e]
  have L': "(L(e := None)) l = Some xs" using e by simp
  show "apart (L(e := None, l \<mapsto> ys))"
    by (rule apart_extend [OF apart_forget [OF listsD(2) [OF L e(3)]] L', of _ "{e}"])
      (use h'(2) f(3) in \<open>auto split: if_splits\<close>)
  fix k zs assume "(L(e := None, l \<mapsto> ys)) k = Some zs"
  then show "(L k = Some zs \<and> insert k (set zs) \<inter> insert e (insert l (set xs)) = {}) \<or> dlist h' k zs"
    using h'(1) f(3) [of k zs] apart_disjoint [OF listsD(2) [OF L e(3)] _ e(3), of k zs]
    by (auto split: if_splits)
qed

lemma del_refines:
  assumes L: "heap_lists h L" and l: "L l = Some (us @ e # vs)"
  shows "heap_lists (fusion_list_del e h) (L(l \<mapsto> us @ vs, e \<mapsto> []))"
proof (rule lists_step [OF L del_outside [OF listsD(1) [OF L l]]])
  note d = dlist_entry(5-7) [OF listsD(1) [OF L l]]
  have ap: "apart L" using listsD(2) [OF L l] .
  have out: "e \<notin> insert k (set zs)" if "L k = Some zs" "k \<noteq> l" for k zs
    using apart_disjoint [OF ap that(1) l that(2)] by auto
  show "apart (L(l \<mapsto> us @ vs, e \<mapsto> []))"
    by (rule apart_new [OF apart_upd [OF ap l]]) (use d out in \<open>auto split: if_splits\<close>)
  fix k zs assume "(L(l \<mapsto> us @ vs, e \<mapsto> [])) k = Some zs"
  then show "(L k = Some zs \<and> insert k (set zs) \<inter> insert l (set (us @ e # vs)) = {}) \<or>
      dlist (fusion_list_del e h) k zs"
    using del_dlist [OF listsD(1) [OF L l]] apart_disjoint [OF ap _ l, of k zs]
    by (auto simp del: dlist_Nil split: if_splits)
qed

lemma join_refines:
  assumes L: "heap_lists h L" and s: "L src = Some xs" and d: "L dst = Some ys" and ne: "src \<noteq> dst"
    and h': "dlist h' dst zs" "set zs = set xs \<union> set ys" "dlist h' src []"
      "same_outside (insert src (set xs) \<union> insert dst (set ys)) h h'"
  shows "heap_lists h' (L(src \<mapsto> [], dst \<mapsto> zs))"
proof (rule lists_step [OF L h'(4)])
  have ap: "apart L" using listsD(2) [OF L s] .
  have out: "insert k (set ws) \<inter> (insert src (set xs) \<union> insert dst (set ys)) = {}"
    if "L k = Some ws" "k \<noteq> src" "k \<noteq> dst" for k ws
    using apart_disjoint [OF ap that(1) s that(2)] apart_disjoint [OF ap that(1) d that(3)] by blast
  have ap1: "apart (L(src \<mapsto> []))" by (rule apart_upd [OF ap s]) simp
  show "apart (L(src \<mapsto> [], dst \<mapsto> zs))"
  proof (rule apart_extend [OF ap1])
    show "(L(src \<mapsto> [])) dst = Some ys" using d ne by simp
    show "set zs \<subseteq> set ys \<union> set xs" using h'(2) by blast
    fix l' ws assume "(L(src \<mapsto> [])) l' = Some ws" "l' \<noteq> dst"
    then show "insert l' (set ws) \<inter> set xs = {}"
      using out [of l' ws] listsD(4) [OF L s] by (auto split: if_splits)
  qed
  fix k ws assume "(L(src \<mapsto> [], dst \<mapsto> zs)) k = Some ws"
  then show "(L k = Some ws \<and> insert k (set ws) \<inter> (insert src (set xs) \<union> insert dst (set ys)) = {}) \<or>
      dlist h' k ws"
    using h'(1,3) out [of k ws] by (auto simp del: dlist_Nil split: if_splits)
qed


lemma del_raw_refines:
  assumes L: "heap_lists h L" and l: "L l = Some (us @ e # vs)"
  shows "heap_lists (fusion_list_del_raw e h) (L(l \<mapsto> us @ vs))" and "unowned e (L(l \<mapsto> us @ vs))"
    and "L e = None"
proof -
  note d = dlist_entry(5-7) [OF listsD(1) [OF L l]]
  have ap: "apart L" using listsD(2) [OF L l] .
  have out: "e \<notin> insert k (set zs)" if "L k = Some zs" "k \<noteq> l" for k zs
    using apart_disjoint [OF ap that(1) l that(2)] by auto
  show "heap_lists (fusion_list_del_raw e h) (L(l \<mapsto> us @ vs))"
  proof (rule lists_step [OF L del_raw_outside [OF listsD(1) [OF L l]]])
    show "apart (L(l \<mapsto> us @ vs))" by (rule apart_upd [OF ap l]) auto
    fix k zs assume "(L(l \<mapsto> us @ vs)) k = Some zs"
    then show "(L k = Some zs \<and> insert k (set zs) \<inter> insert l (set (us @ vs)) = {}) \<or>
        dlist (fusion_list_del_raw e h) k zs"
      using del_raw_dlist [OF listsD(1) [OF L l]] apart_disjoint [OF ap _ l, of k zs]
      by (auto split: if_splits)
  qed
  have "e \<noteq> NULL" using listsD(5) [OF L l] by auto
  then show "unowned e (L(l \<mapsto> us @ vs))"
    using d out by (auto simp: unowned_def split: if_splits)
  show "L e = None" using d(1) out [of e] by (cases "L e") auto
qed

lemma move_refines:
  assumes L: "heap_lists h L" and l': "L l' = Some (us @ e # vs)"
    and l: "(L(l' \<mapsto> us @ vs)) l = Some xs"
  shows "heap_lists (fusion_list_move_head e l h) (L(l' \<mapsto> us @ vs, l \<mapsto> e # xs))"
    and "heap_lists (fusion_list_move_tail e l h) (L(l' \<mapsto> us @ vs, l \<mapsto> xs @ [e]))"
proof -
  note r = del_raw_refines [OF L l']
  have fe: "free_entry e (L(l' \<mapsto> us @ vs))" using r(2) by (simp add: free_entry_def)
  have el: "e \<noteq> l" using r(2) l by (auto simp: unowned_def)
  note f = free_entry_facts [OF r(1) fe el l]
  have el': "e \<noteq> l'" using dlist_entry(5) [OF listsD(1) [OF L l']] .
  have forget: "L(l' \<mapsto> us @ vs, e := None, l \<mapsto> zs) = L(l' \<mapsto> us @ vs, l \<mapsto> zs)" for zs
    using r(3) el' by auto
  have dl: "dlist (fusion_list_del_raw e h) l xs" using listsD(1) [OF r(1) l] .
  show "heap_lists (fusion_list_move_head e l h) (L(l' \<mapsto> us @ vs, l \<mapsto> e # xs))"
    using add_refines [OF r(1) fe el l add_head_dlist [OF dl f(1,2)] _ add_head_outside [OF dl]]
    unfolding forget fusion_list_move_head_def by simp
  show "heap_lists (fusion_list_move_tail e l h) (L(l' \<mapsto> us @ vs, l \<mapsto> xs @ [e]))"
    using add_refines [OF r(1) fe el l add_tail_dlist [OF dl f(1,2)] _ add_tail_outside [OF dl]]
    unfolding forget fusion_list_move_tail_def by simp
qed

lemma add_both_refine:
  assumes L: "heap_lists h L" and e: "free_entry e L" "e \<noteq> l" "L l = Some xs"
  shows "heap_lists (fusion_list_add_head e l h) (L(e := None, l \<mapsto> e # xs))"
    and "heap_lists (fusion_list_add_tail e l h) (L(e := None, l \<mapsto> xs @ [e]))"
  using add_refines [OF L e] add_head_dlist [OF listsD(1) [OF L e(3)] free_entry_facts(1,2) [OF L e]]
    add_tail_dlist [OF listsD(1) [OF L e(3)] free_entry_facts(1,2) [OF L e]]
    add_head_outside [OF listsD(1) [OF L e(3)]] add_tail_outside [OF listsD(1) [OF L e(3)]] by auto

lemma del_raw_unlinked_id: "e_next h e = e \<Longrightarrow> e_prev h e = e \<Longrightarrow> fusion_list_del_raw e h = h"
  by (auto simp: fusion_list_del_raw_def Let_def set_next_def set_prev_def intro!: fusion_heap.equality)

lemma init_unlinked_id: "e_next h e = e \<Longrightarrow> e_prev h e = e \<Longrightarrow> fusion_init_list e h = h"
  by (auto simp: fusion_init_list_def Let_def set_next_def set_prev_def intro!: fusion_heap.equality)

lemma init_refines: "heap_lists h L \<Longrightarrow> unowned e L \<Longrightarrow> heap_lists (fusion_init_list e h) (L(e \<mapsto> []))"
proof (rule lists_step [OF _ init_outside])
  assume L: "heap_lists h L" and e: "unowned e L"
  then show "apart (L(e \<mapsto> []))" by (intro apart_new) (auto simp: unowned_def heap_lists_def)
  fix k zs assume "(L(e \<mapsto> [])) k = Some zs"
  then show "(L k = Some zs \<and> insert k (set zs) \<inter> {e} = {}) \<or> dlist (fusion_init_list e h) k zs"
    using e init_dlist [of e h] by (auto simp: unowned_def simp del: dlist_Nil split: if_splits)
qed simp

lemma op_refines: "op_spec op L L' \<Longrightarrow> heap_lists h L \<Longrightarrow> heap_lists (run_op op h) L'"
proof (induction rule: op_spec.induct)
  case (init e L)
  then show ?case using init_refines [of h L e] by (simp add: fun_upd_def)
next
  case (del_unlinked L e)
  then have "dlist h e []" using listsD(1) [of h L e "[]"] by simp
  then show ?case using del_unlinked
    by (simp add: fusion_list_del_def del_raw_unlinked_id init_unlinked_id)
next
  case (move_head_same L l us e vs)
  then show ?case using move_refines(1) [of h L l us e vs l "us @ vs"] unfolding fun_upd_upd
    by (simp add: fun_upd_def)
next
  case (move_tail_same L l us e vs)
  then show ?case using move_refines(2) [of h L l us e vs l "us @ vs"] unfolding fun_upd_upd
    by (simp add: fun_upd_def)
next
  case (move_head_other L l' us e vs l xs)
  then show ?case using move_refines(1) [of h L l' us e vs l xs] by (simp add: fun_upd_def)
next
  case (move_tail_other L l' us e vs l xs)
  then show ?case using move_refines(2) [of h L l' us e vs l xs] by (simp add: fun_upd_def)
next
  case (move_tail_unlinked L e l xs)
  then have "dlist h e []" using listsD(1) [of h L e "[]"] by simp
  then have "fusion_list_move_tail e l h = fusion_list_add_tail e l h"
    by (simp add: fusion_list_move_tail_def del_raw_unlinked_id)
  then show ?case using move_tail_unlinked add_both_refine(2) [of h L e l xs] by (simp add: free_entry_def fun_upd_def)
next
  case (pop L l x xs)
  then have "e_next h l = x" "\<not> fusion_list_empty l h"
    using dlist_next [OF listsD(1)] empty_iff [OF listsD(1)] by (auto simp: fun_upd_def)
  then show ?case using del_refines [of h L l "[]" x xs] pop by (simp add: fusion_list_pop_head_def fun_upd_def)
next
  case (pop_empty L l)
  then show ?case using pop_head_empty [OF listsD(1)] by (simp add: fun_upd_def)
next
  case (add_list L src xs dst ys)
  note d = listsD(1) [OF add_list.prems add_list.hyps(1)] listsD(1) [OF add_list.prems add_list.hyps(2)]
    apart_disjoint [OF listsD(2) [OF add_list.prems add_list.hyps(1)] add_list.hyps]
  show ?case
    using splice_dlist [OF d] add_list_eq [OF d] join_refines [OF add_list.prems add_list.hyps]
    by (simp add: fun_upd_def del: dlist_Nil)
next
  case (splice L src xs dst ys)
  note d = listsD(1) [OF splice.prems splice.hyps(1)] listsD(1) [OF splice.prems splice.hyps(2)]
    apart_disjoint [OF listsD(2) [OF splice.prems splice.hyps(1)] splice.hyps]
  show ?case
    using splice_dlist [OF d] join_refines [OF splice.prems splice.hyps]
    by (simp add: fun_upd_def del: dlist_Nil)
next
  case (splice_tail L src xs dst ys)
  note d = listsD(1) [OF splice_tail.prems splice_tail.hyps(1)] listsD(1) [OF splice_tail.prems splice_tail.hyps(2)]
    apart_disjoint [OF listsD(2) [OF splice_tail.prems splice_tail.hyps(1)] splice_tail.hyps]
  show ?case
    using splice_tail_dlist [OF d] join_refines [OF splice_tail.prems splice_tail.hyps, of _ "ys @ xs"]
    by (auto simp: fun_upd_def simp del: dlist_Nil)
next
  case (add_head e L l xs)
  then show ?case using add_both_refine(1) [of h L e l xs] by (simp add: fun_upd_def)
next
  case (add_tail e L l xs)
  then show ?case using add_both_refine(2) [of h L e l xs] by (simp add: fun_upd_def)
next
  case (del L l us e vs)
  then show ?case using del_refines [of h L l us e vs] by (simp add: fun_upd_def)
qed

text \<open>Take \<open>n\<close> times.\<close>

primrec drain :: "('h \<Rightarrow> 'e \<times> 'h) \<Rightarrow> nat \<Rightarrow> 'h \<Rightarrow> 'e list \<times> 'h" where
  "drain take_op 0 h = ([], h)"
| "drain take_op (Suc n) h =
     (let (x, h) = take_op h; (xs, h) = drain take_op n h in (x # xs, h))"

text \<open>Each of the entries may be put when its turn comes.\<close>

primrec puttable :: "('e \<Rightarrow> 'e list \<Rightarrow> bool) \<Rightarrow> ('e \<Rightarrow> 'e list \<Rightarrow> 'e list) \<Rightarrow> 'e list \<Rightarrow> 'e list \<Rightarrow> bool" where
  "puttable ok ins [] xs = True"
| "puttable ok ins (e # es) xs = (ok e xs \<and> puttable ok ins es (ins e xs))"

definition may_link :: "addr \<Rightarrow> addr \<Rightarrow> addr list \<Rightarrow> bool" where
  "may_link l e xs \<longleftrightarrow> e \<notin> insert l (set xs) \<and> e \<noteq> NULL"

definition demo_heap :: fusion_heap where
  "demo_heap = \<lparr>e_next = id(1 := 2, 2 := 3, 3 := 1), e_prev = id(1 := 3, 2 := 1, 3 := 2)\<rparr>"

subsection \<open>Traversal\<close>

lemma for_each_from_dlist:
  "dlist h l (us @ ys) \<Longrightarrow> length ys \<le> fuel \<Longrightarrow> for_each_from fuel (hd (ys @ [l])) l h = Some ys"
proof (induction ys arbitrary: us fuel)
  case (Cons y ys)
  then obtain f where f: "fuel = Suc f" "length ys \<le> f" by (cases fuel) auto
  have "e_next h y = hd (ys @ [l])" "y \<noteq> l" using dlist_entry [OF Cons.prems(1)] by auto
  moreover have "for_each_from f (hd (ys @ [l])) l h = Some ys"
    using Cons.IH [of "us @ [y]" f] Cons.prems(1) f by simp
  ultimately show ?case using f by simp
qed simp

lemma for_each_dlist: "dlist h l xs \<Longrightarrow> length xs \<le> fuel \<Longrightarrow> fusion_list_for_each fuel l h = Some xs"
  using for_each_from_dlist [of h l "[]" xs fuel] by (simp add: fusion_list_for_each_def dlist_next)

lemma for_each_safe_del:
  "dlist h l xs \<Longrightarrow> length xs \<le> fuel \<Longrightarrow>
     \<exists>h'. for_each_safe_from fuel (hd (xs @ [l])) (e_next h (hd (xs @ [l]))) fusion_list_del l h = Some h' \<and>
       dlist h' l []"
proof (induction xs arbitrary: h fuel)
  case (Cons x xs)
  then obtain f where f: "fuel = Suc f" "length xs \<le> f" by (cases fuel) auto
  have d: "dlist h l ([] @ x # xs)" using Cons.prems(1) by simp
  have x: "e_next h x = hd (xs @ [l])" "x \<noteq> l" using dlist_entry [OF d] by auto
  have "dlist (fusion_list_del x h) l xs" using del_dlist(1) [OF d] by simp
  from Cons.IH [OF this f(2)] show ?case
    using f x by (subst for_each_safe_from.simps) (simp add: Let_def del: for_each_safe_from.simps dlist_Nil)
qed (auto simp del: dlist_Nil)

subsection \<open>Clients\<close>

text \<open>
  What a client relies on: a container that represents a list, an operation that puts an entry at
  a place \<open>ins\<close> decides, and one that takes the first entry.
\<close>

locale list_interface =
  fixes repr :: "'h \<Rightarrow> 'e list \<Rightarrow> bool"
    and put :: "'e \<Rightarrow> 'h \<Rightarrow> 'h"
    and take_op :: "'h \<Rightarrow> 'e \<times> 'h"
    and ins :: "'e \<Rightarrow> 'e list \<Rightarrow> 'e list"
    and ok :: "'e \<Rightarrow> 'e list \<Rightarrow> bool"
  assumes put_repr: "repr h xs \<Longrightarrow> ok e xs \<Longrightarrow> repr (put e h) (ins e xs)"
    and take_repr: "repr h (x # xs) \<Longrightarrow> fst (take_op h) = x \<and> repr (snd (take_op h)) xs"
begin

lemma put_all: "repr h xs \<Longrightarrow> puttable ok ins es xs \<Longrightarrow> repr (fold put es h) (fold ins es xs)"
  by (induction es arbitrary: h xs) (auto intro: put_repr)

lemma drain_all: "repr h xs \<Longrightarrow> fst (drain take_op (length xs) h) = xs \<and> repr (snd (drain take_op (length xs) h)) []"
proof (induction xs arbitrary: h)
  case (Cons x xs)
  then have "fst (take_op h) = x" "repr (snd (take_op h)) xs" using take_repr by blast+
  with Cons.IH show ?case by (simp add: case_prod_beta Let_def)
qed simp

lemma drain_put_all:
  assumes "repr h []" and "puttable ok ins es []"
  shows "fst (drain take_op (length (fold ins es [])) (fold put es h)) = fold ins es []"
  using drain_all [OF put_all [OF assms]] by simp

end

text \<open>Added at the tail, the list is a queue; added at the head, it is a stack.\<close>

interpretation queue: list_interface
  "\<lambda>h xs. dlist h l xs" "\<lambda>e h. fusion_list_add_tail e l h" "\<lambda>h. fusion_list_pop_head l h"
  "\<lambda>e xs. xs @ [e]" "may_link l" for l
  by unfold_locales (auto simp: may_link_def add_tail_dlist pop_head_dlist simp del: dlist_Nil)

interpretation stack: list_interface
  "\<lambda>h xs. dlist h l xs" "\<lambda>e h. fusion_list_add_head e l h" "\<lambda>h. fusion_list_pop_head l h"
  Cons "may_link l" for l
  by unfold_locales (auto simp: may_link_def add_head_dlist pop_head_dlist simp del: dlist_Nil)

lemma fold_snoc: "fold (\<lambda>e xs. xs @ [e]) es xs = xs @ es"
  by (induction es arbitrary: xs) auto

lemma puttable_distinct:
  assumes "\<And>e xs. set (ins e xs) = insert e (set xs)"
  shows "distinct es \<Longrightarrow> set es \<inter> ({l, NULL} \<union> set xs) = {} \<Longrightarrow> puttable (may_link l) ins es xs"
  by (induction es arbitrary: xs) (auto simp: may_link_def assms)

subsection \<open>Properties\<close>



text \<open>
  Entries added at the tail of an empty list come off its head in the order they were added,
  and entries added at the head in the reverse order; afterwards the list is empty.
\<close>

lemma fusion_list_fifo_lifo:
  assumes "dlist h l []" and "distinct es" and "l \<notin> set es" and "NULL \<notin> set es"
  shows "fst (drain (\<lambda>h. fusion_list_pop_head l h) (length es)
      (fold (\<lambda>e h. fusion_list_add_tail e l h) es h)) = es \<and>
    fst (drain (\<lambda>h. fusion_list_pop_head l h) (length es)
      (fold (\<lambda>e h. fusion_list_add_head e l h) es h)) = rev es"
proof -
  have "set es \<inter> ({l, NULL} \<union> set []) = {}" using assms by auto
  then have "puttable (may_link l) (\<lambda>e xs. xs @ [e]) es []" "puttable (may_link l) Cons es []"
    using assms(2) by (auto intro!: puttable_distinct)
  from queue.drain_put_all [OF assms(1) this(1)] stack.drain_put_all [OF assms(1) this(2)]
  show ?thesis by (simp add: fold_snoc rev_conv_fold [symmetric])
qed

lemma fusion_list_fifo_lifo_example:
  "fst (drain (\<lambda>h. fusion_list_pop_head 1 h) (length [7::addr, 5])
      (fold (\<lambda>e h. fusion_list_add_tail e 1 h) [7, 5] \<lparr>e_next = id, e_prev = id\<rparr>)) = [7, 5]"
  using fusion_list_fifo_lifo [of "\<lparr>e_next = id, e_prev = id\<rparr>" 1 "[7, 5]"]
  by (simp del: drain.simps fold_simps list.size)

text \<open>
  C7: the traversals end.  \<open>fusion_list_for_each\<close> visits every entry once, in order, within as many
  iterations as there are entries; the safe traversal may unlink each entry it visits and leaves
  the list empty.
\<close>

theorem fusion_list_traversal:
  assumes "dlist h l xs"
  shows "fusion_list_for_each (length xs) l h = Some xs \<and>
    (\<exists>h'. fusion_list_for_each_safe (length xs) fusion_list_del l h = Some h' \<and> dlist h' l [])"
  using for_each_dlist [OF assms order_refl] for_each_safe_del [OF assms order_refl]
  by (simp add: fusion_list_for_each_safe_def dlist_next [OF assms])

theorem fusion_list_traversal_witness: "fusion_list_for_each 2 1 demo_heap = Some [2, 3]"
proof -
  have "dlist demo_heap 1 [2, 3]" by (simp add: dlist_def demo_heap_def)
  from fusion_list_traversal [OF this] show ?thesis by (simp add: numeral_2_eq_2)
qed

end
