(* ===== verification/Atomic_List.thy ===== *)
theory Atomic_List
  imports Prelude
begin

text \<open>
  The lock-free list of \<open>include/fio/port/atomic_list.h\<close>.

  Several threads add entries to one shared head with compare-and-exchange and take the whole list
  with an exchange.  The step relation interleaves the single memory accesses of
  \<open>fusion_atomic_list_add\<close> (read of the head, write of the entry, compare-and-exchange),
  \<open>fusion_atomic_list_splice\<close> (exchange, write of the private head) and
  \<open>fusion_atomic_list_for_each\<close>, whose loop hands every entry to its body after reading the entry's
  successor.  \<open>content\<close>, \<open>held\<close> and \<open>batch\<close> are history variables: the entries on the
  shared list, the entries a thread has taken and not yet handed out, and all the entries it took.
  They influence no step but the choice of entries to add: an entry may be added when no thread is
  adding it and it is on no list.
\<close>

subsection \<open>The operations as sequential code\<close>

type_synonym al_heap = "addr \<Rightarrow> addr"

definition fusion_atomic_list_init :: "addr \<Rightarrow> al_heap \<Rightarrow> al_heap" where
  "fusion_atomic_list_init head nx = nx(head := NULL)"

definition fusion_atomic_list_empty :: "addr \<Rightarrow> al_heap \<Rightarrow> bool" where
  "fusion_atomic_list_empty list nx \<longleftrightarrow> nx list = NULL"

text \<open>One iteration of the loop without interference, which then is the last.\<close>

definition fusion_atomic_list_add :: "addr \<Rightarrow> addr \<Rightarrow> al_heap \<Rightarrow> al_heap" where
  "fusion_atomic_list_add entry head nx =
     (let cur = nx head; nx = nx(entry := cur) in nx(head := entry))"

definition fusion_atomic_list_splice :: "addr \<Rightarrow> addr \<Rightarrow> al_heap \<Rightarrow> al_heap" where
  "fusion_atomic_list_splice list head nx = (let v = nx list; nx = nx(list := NULL) in nx(head := v))"

text \<open>The entries \<open>fusion_atomic_list_for_each\<close> visits, None when the fuel runs out.\<close>

fun al_visit :: "nat \<Rightarrow> addr \<Rightarrow> al_heap \<Rightarrow> addr list option" where
  "al_visit fuel pos nx =
     (if pos = NULL then Some []
      else case fuel of
             0 \<Rightarrow> None
           | Suc fuel \<Rightarrow> map_option (\<lambda>es. pos # es) (al_visit fuel (nx pos) nx))"

definition fusion_atomic_list_for_each :: "nat \<Rightarrow> addr \<Rightarrow> al_heap \<Rightarrow> addr list option" where
  "fusion_atomic_list_for_each fuel head nx = al_visit fuel (nx head) nx"

subsection \<open>Threads\<close>

datatype al_pc =
    AIdle
  | ALoad addr
  | AStore addr addr
  | ACas addr addr
  | ASpliced addr
  | ALocal
  | AWalk addr "addr list"

record al_sys =
  nx :: al_heap
  pc :: "u32 \<Rightarrow> al_pc"
  content :: "addr list"
  held :: "u32 \<Rightarrow> addr list"
  batch :: "u32 \<Rightarrow> addr list"

text \<open>The shared head and the threads' private heads; threads are numbered by 32-bit ids.\<close>

record al_heads =
  shared :: addr
  local_head :: "u32 \<Rightarrow> addr"

fun adding :: "al_pc \<Rightarrow> addr option" where
  "adding (ALoad e) = Some e"
| "adding (AStore e cur) = Some e"
| "adding (ACas e cur) = Some e"
| "adding _ = None"

definition may_add :: "al_heads \<Rightarrow> al_sys \<Rightarrow> addr \<Rightarrow> bool" where
  "may_add H s e \<longleftrightarrow> e \<noteq> NULL \<and> e \<noteq> shared H \<and> (\<forall>u. e \<noteq> local_head H u) \<and> e \<notin> set (content s) \<and>
     (\<forall>u. e \<notin> set (held s u) \<and> adding (pc s u) \<noteq> Some e)"

definition al_init :: "al_heads \<Rightarrow> al_sys" where
  "al_init H = \<lparr>nx = fusion_atomic_list_init (shared H) (\<lambda>_. NULL), pc = (\<lambda>_. AIdle), content = [],
     held = (\<lambda>_. []), batch = (\<lambda>_. [])\<rparr>"

inductive al_step :: "al_heads \<Rightarrow> al_sys \<Rightarrow> al_sys \<Rightarrow> bool" for H where
  add: "pc s t = AIdle \<Longrightarrow> may_add H s e \<Longrightarrow> al_step H s (s\<lparr>pc := (pc s)(t := ALoad e)\<rparr>)"
| load: "pc s t = ALoad e \<Longrightarrow> al_step H s (s\<lparr>pc := (pc s)(t := AStore e (nx s (shared H)))\<rparr>)"
| store: "pc s t = AStore e cur \<Longrightarrow>
     al_step H s (s\<lparr>nx := (nx s)(e := cur), pc := (pc s)(t := ACas e cur)\<rparr>)"
| cas_fail: "pc s t = ACas e cur \<Longrightarrow> nx s (shared H) \<noteq> cur \<Longrightarrow>
     al_step H s (s\<lparr>pc := (pc s)(t := ALoad e)\<rparr>)"
| cas_ok: "pc s t = ACas e cur \<Longrightarrow> nx s (shared H) = cur \<Longrightarrow>
     al_step H s (s\<lparr>nx := (nx s)(shared H := e), pc := (pc s)(t := AIdle), content := e # content s\<rparr>)"
| xchg: "pc s t = AIdle \<Longrightarrow>
     al_step H s (s\<lparr>nx := (nx s)(shared H := NULL), pc := (pc s)(t := ASpliced (nx s (shared H))),
       content := [], held := (held s)(t := content s), batch := (batch s)(t := content s)\<rparr>)"
| splice_store: "pc s t = ASpliced v \<Longrightarrow>
     al_step H s (s\<lparr>nx := (nx s)(local_head H t := v), pc := (pc s)(t := ALocal)\<rparr>)"
| walk_start: "pc s t = ALocal \<Longrightarrow>
     al_step H s (s\<lparr>pc := (pc s)(t := AWalk (nx s (local_head H t)) [])\<rparr>)"
| walk: "pc s t = AWalk pos seen \<Longrightarrow> pos \<noteq> NULL \<Longrightarrow>
     al_step H s (s\<lparr>pc := (pc s)(t := AWalk (nx s pos) (seen @ [pos])),
       held := (held s)(t := tl (held s t))\<rparr>)"
| walk_end: "pc s t = AWalk NULL seen \<Longrightarrow> al_step H s (s\<lparr>pc := (pc s)(t := AIdle)\<rparr>)"

definition al_reachable :: "al_heads \<Rightarrow> al_sys \<Rightarrow> bool" where
  "al_reachable H = reach (al_step H) (al_init H)"

subsection \<open>Invariant\<close>

text \<open>From \<open>p\<close> the links lead through \<open>xs\<close> to NULL.\<close>

fun chain :: "al_heap \<Rightarrow> addr \<Rightarrow> addr list \<Rightarrow> bool" where
  "chain n p [] \<longleftrightarrow> p = NULL"
| "chain n p (x # xs) \<longleftrightarrow> p = x \<and> x \<noteq> NULL \<and> chain n (n x) xs"

definition heads_ok :: "al_heads \<Rightarrow> bool" where
  "heads_ok H \<longleftrightarrow> shared H \<noteq> NULL \<and> inj (local_head H) \<and> (\<forall>u. local_head H u \<noteq> shared H \<and> local_head H u \<noteq> NULL)"

fun pc_inv :: "al_heads \<Rightarrow> al_sys \<Rightarrow> u32 \<Rightarrow> al_pc \<Rightarrow> bool" where
  "pc_inv H s t AIdle \<longleftrightarrow> held s t = []"
| "pc_inv H s t (ALoad e) \<longleftrightarrow> held s t = []"
| "pc_inv H s t (AStore e cur) \<longleftrightarrow> held s t = []"
| "pc_inv H s t (ACas e cur) \<longleftrightarrow> held s t = [] \<and> nx s e = cur"
| "pc_inv H s t (ASpliced v) \<longleftrightarrow> chain (nx s) v (held s t) \<and> batch s t = held s t"
| "pc_inv H s t ALocal \<longleftrightarrow> chain (nx s) (nx s (local_head H t)) (held s t) \<and> batch s t = held s t"
| "pc_inv H s t (AWalk pos seen) \<longleftrightarrow> chain (nx s) pos (held s t) \<and> batch s t = seen @ held s t"

text \<open>Who has an entry: the shared list, a thread that took it, or a thread adding it.\<close>

datatype al_owner = Shared_list | Taker u32 | Adder u32

fun own :: "al_sys \<Rightarrow> al_owner \<Rightarrow> addr list" where
  "own s Shared_list = content s"
| "own s (Taker t) = held s t"
| "own s (Adder t) = (case adding (pc s t) of None \<Rightarrow> [] | Some e \<Rightarrow> [e])"

definition entry_ok :: "al_heads \<Rightarrow> addr \<Rightarrow> bool" where
  "entry_ok H a \<longleftrightarrow> a \<noteq> NULL \<and> a \<noteq> shared H \<and> (\<forall>u. a \<noteq> local_head H u)"

definition al_apart :: "al_heads \<Rightarrow> (al_owner \<Rightarrow> addr list) \<Rightarrow> bool" where
  "al_apart H f \<longleftrightarrow> (\<forall>w. distinct (f w) \<and> (\<forall>a\<in>set (f w). entry_ok H a)) \<and>
     (\<forall>v w. v \<noteq> w \<longrightarrow> set (f v) \<inter> set (f w) = {})"

definition al_inv :: "al_heads \<Rightarrow> al_sys \<Rightarrow> bool" where
  "al_inv H s \<longleftrightarrow> chain (nx s) (nx s (shared H)) (content s) \<and> (\<forall>t. pc_inv H s t (pc s t)) \<and> al_apart H (own s)"

definition demo_heads :: al_heads where
  "demo_heads = \<lparr>shared = 1, local_head = (\<lambda>u. ucast u + 2)\<rparr>"

lemma chain_cong: "(\<And>a. a \<in> set xs \<Longrightarrow> n' a = n a) \<Longrightarrow> chain n' p xs = chain n p xs"
  by (induction xs arbitrary: p) auto

text \<open>A step that keeps what a thread sees keeps the thread's invariant.\<close>

lemma pc_inv_frame:
  assumes "held s' t = held s t" "batch s' t = batch s t"
    and "\<And>a. a \<in> set (held s t) \<Longrightarrow> nx s' a = nx s a"
    and "pc s t = ALocal \<Longrightarrow> nx s' (local_head H t) = nx s (local_head H t)"
    and "\<And>e. adding (pc s t) = Some e \<Longrightarrow> nx s' e = nx s e"
  shows "pc_inv H s' t (pc s t) = pc_inv H s t (pc s t)"
  using assms chain_cong [of "held s t" "nx s'" "nx s"] by (cases "pc s t") auto

lemma own_upd [simp]:
  "own (s\<lparr>nx := n\<rparr>) = own s"
  "own (s\<lparr>content := xs\<rparr>) = (own s)(Shared_list := xs)"
  "own (s\<lparr>held := (held s)(t := xs)\<rparr>) = (own s)(Taker t := xs)"
  "own (s\<lparr>batch := b\<rparr>) = own s"
  by (rule ext, case_tac x; simp)+

lemma own_pc: "own (s\<lparr>pc := (pc s)(t := p)\<rparr>) =
    (own s)(Adder t := (case adding p of None \<Rightarrow> [] | Some e \<Rightarrow> [e]))"
  by (rule ext, case_tac x; simp)

lemma own_apart_same: "f w = xs \<Longrightarrow> f(w := xs) = f"
  by auto

lemma own_apart_shrink:
  "al_apart H f \<Longrightarrow> distinct ys \<Longrightarrow> set ys \<subseteq> set (f w) \<Longrightarrow> al_apart H (f(w := ys))"
  unfolding al_apart_def by (auto split: if_splits) blast+

lemma own_apart_move:
  assumes "al_apart H f" "v \<noteq> w" "distinct ys" "set ys \<subseteq> set (f v) \<union> set (f w)"
  shows "al_apart H (f(v := [], w := ys))"
proof -
  have "entry_ok H a" if "a \<in> set ys" for a using that assms unfolding al_apart_def by blast
  moreover have "set ys \<inter> set (f u) = {}" if "u \<noteq> v" "u \<noteq> w" for u
    using that assms unfolding al_apart_def by blast
  ultimately show ?thesis using assms unfolding al_apart_def by auto
qed

lemma own_apart_new:
  assumes "al_apart H f" "entry_ok H e" "\<And>v. e \<notin> set (f v)"
  shows "al_apart H (f(w := [e]))"
  using assms unfolding al_apart_def by auto

lemma own_eqI: "(\<And>w. own s w = f w) \<Longrightarrow> own s = f"
  by (rule ext)

lemma al_inv_init: "al_inv H (al_init H)"
proof -
  have "own (al_init H) = (\<lambda>_. [])" 
  proof (rule own_eqI)
    show "own (al_init H) w = []" for w by (cases w) (simp_all add: al_init_def)
  qed
  then show ?thesis
    by (simp add: al_inv_def al_apart_def) (simp add: al_init_def fusion_atomic_list_init_def)
qed

text \<open>What one thread's invariant says about the addresses others use.\<close>

lemma al_invD:
  assumes "al_inv H s"
  shows "chain (nx s) (nx s (shared H)) (content s)" and "\<And>t. pc_inv H s t (pc s t)"
    and "al_apart H (own s)"
  using assms by (auto simp: al_inv_def)

lemma al_inv_stepI:
  assumes inv: "al_inv H s" and ap: "al_apart H (own s')"
    and ch: "chain (nx s') (nx s' (shared H)) (content s')"
    and t: "pc_inv H s' t (pc s' t)"
    and others: "\<And>u. u \<noteq> t \<Longrightarrow> pc s' u = pc s u \<and> held s' u = held s u \<and> batch s' u = batch s u"
    and frame: "\<And>a u. nx s' a \<noteq> nx s a \<Longrightarrow> u \<noteq> t \<Longrightarrow>
       a \<notin> set (held s u) \<and> a \<noteq> local_head H u \<and> adding (pc s u) \<noteq> Some a"
  shows "al_inv H s'"
proof -
  have "pc_inv H s' u (pc s' u)" for u
  proof (cases "u = t")
    case False
    have "pc_inv H s' u (pc s u) = pc_inv H s u (pc s u)"
      using others [OF False] frame [OF _ False] by (intro pc_inv_frame) blast+
    then show ?thesis using others [OF False] al_invD(2) [OF inv, of u] by simp
  qed (use t in simp)
  then show ?thesis using ap ch by (simp add: al_inv_def)
qed

lemma not_owned:
  assumes "al_apart H (own s)" and "\<not> entry_ok H a"
  shows "a \<notin> set (content s)" "a \<notin> set (held s u)" "adding (pc s u) \<noteq> Some a"
proof -
  have n: "a \<notin> set (own s w)" for w using assms unfolding al_apart_def by blast
  show "a \<notin> set (content s)" "a \<notin> set (held s u)" using n [of Shared_list] n [of "Taker u"] by simp_all
  show "adding (pc s u) \<noteq> Some a" using n [of "Adder u"] by auto
qed

lemma adding_owned:
  assumes "al_apart H (own s)" and "adding (pc s t) = Some e"
  shows "e \<notin> set (content s)" "e \<notin> set (held s u)" "u \<noteq> t \<Longrightarrow> adding (pc s u) \<noteq> Some e" "entry_ok H e"
proof -
  have n: "set (own s (Adder t)) \<inter> set (own s w) = {}" if "w \<noteq> Adder t" for w
    using assms(1) that unfolding al_apart_def by blast
  have e: "set (own s (Adder t)) = {e}" using assms(2) by simp
  show "e \<notin> set (content s)" "e \<notin> set (held s u)" using n [of Shared_list] n [of "Taker u"] e by simp_all
  show "u \<noteq> t \<Longrightarrow> adding (pc s u) \<noteq> Some e" using n [of "Adder u"] e by auto
  show "entry_ok H e" using assms(1) e unfolding al_apart_def by blast
qed

lemma heads_not_entries: "heads_ok H \<Longrightarrow> \<not> entry_ok H (shared H)" "\<not> entry_ok H (local_head H t)"
  by (auto simp: entry_ok_def)

text \<open>A program counter that adds the same entry, or none when none was added, moves no entry.\<close>

lemma own_pc_same:
  "adding p = adding (pc s t) \<Longrightarrow> own (s\<lparr>pc := (pc s)(t := p)\<rparr>) = own s"
  unfolding own_pc by (rule own_apart_same) simp

lemma al_step_inv:
  assumes H: "heads_ok H" and st: "al_step H s s'" and inv: "al_inv H s"
  shows "al_inv H s'"
  using st
proof cases
  case (add t e)
  have "e \<notin> set (own s w)" for w using add(3) by (cases w) (auto simp: may_add_def split: option.splits)
  then have "al_apart H (own s')"
    using own_apart_new [OF al_invD(3) [OF inv], of e "Adder t"] add by (simp add: own_pc may_add_def entry_ok_def)
  then show ?thesis
    by (rule al_inv_stepI [OF inv, of _ t]) (use al_invD(1) [OF inv] al_invD(2) [OF inv, of t] add in auto)
next
  case (load t e)
  have "al_apart H (own s')" using al_invD(3) [OF inv] load by (simp add: own_pc_same)
  then show ?thesis
    by (rule al_inv_stepI [OF inv, of _ t]) (use al_invD(1) [OF inv] al_invD(2) [OF inv, of t] load in auto)
next
  case (store t e cur)
  have ap: "al_apart H (own s')" using al_invD(3) [OF inv] store
    own_pc_same [of "ACas e cur" "s\<lparr>nx := (nx s)(e := cur)\<rparr>" t] by simp
  have ae: "adding (pc s t) = Some e" using store by simp
  note e = adding_owned [OF al_invD(3) [OF inv] ae]
  have "chain ((nx s)(e := cur)) p (content s) = chain (nx s) p (content s)" for p
    using e(1) by (intro chain_cong) auto
  moreover have "e \<noteq> shared H" "\<And>u. e \<noteq> local_head H u" using e(4) by (auto simp: entry_ok_def)
  ultimately show ?thesis using ap
    by (intro al_inv_stepI [OF inv, of _ t])
      (use al_invD(1) [OF inv] al_invD(2) [OF inv, of t] store e(2,3) in \<open>auto split: if_splits\<close>)
next
  case (cas_fail t e cur)
  have "al_apart H (own s')" using al_invD(3) [OF inv] cas_fail by (simp add: own_pc_same)
  then show ?thesis
    by (rule al_inv_stepI [OF inv, of _ t]) (use al_invD(1) [OF inv] al_invD(2) [OF inv, of t] cas_fail in auto)
next
  case (cas_ok t e cur)
  have ae: "adding (pc s t) = Some e" using cas_ok by simp
  note e = adding_owned [OF al_invD(3) [OF inv] ae]
  have "distinct (content s)" using al_invD(3) [OF inv] unfolding al_apart_def by (metis own.simps(1))
  then have "al_apart H ((own s)(Adder t := [], Shared_list := e # content s))"
    using e(1) ae by (intro own_apart_move [OF al_invD(3) [OF inv]]) auto
  moreover have "own s' w = ((own s)(Adder t := [], Shared_list := e # content s)) w" for w
    using cas_ok(1) by (cases w) auto
  ultimately have ap: "al_apart H (own s')" using own_eqI by metis
  note sh = not_owned [OF al_invD(3) [OF inv] heads_not_entries(1) [OF H]]
  have "nx s e = cur" using al_invD(2) [OF inv, of t] cas_ok by simp
  moreover have "chain ((nx s)(shared H := e)) p (content s) = chain (nx s) p (content s)" for p
    using sh(1) by (intro chain_cong) auto
  moreover have "e \<noteq> shared H" "e \<noteq> NULL" using e(4) by (auto simp: entry_ok_def)
  moreover have "shared H \<noteq> local_head H u" for u using H by (metis heads_ok_def)
  ultimately show ?thesis using ap
    by (intro al_inv_stepI [OF inv, of _ t])
      (use al_invD(1) [OF inv] al_invD(2) [OF inv, of t] cas_ok sh(2,3) in \<open>auto split: if_splits\<close>)
next
  case (xchg t)
  have h: "held s t = []" using al_invD(2) [OF inv, of t] xchg by simp
  have "distinct (content s)" using al_invD(3) [OF inv] unfolding al_apart_def by (metis own.simps(1))
  then have "al_apart H ((own s)(Shared_list := [], Taker t := content s))"
    by (intro own_apart_move [OF al_invD(3) [OF inv]]) auto
  moreover have "own s' w = ((own s)(Shared_list := [], Taker t := content s)) w" for w
    using xchg by (cases w) auto
  ultimately have ap: "al_apart H (own s')" using own_eqI by metis
  note sh = not_owned [OF al_invD(3) [OF inv] heads_not_entries(1) [OF H]]
  have "chain ((nx s)(shared H := NULL)) p (content s) = chain (nx s) p (content s)" for p
    using sh(1) by (intro chain_cong) auto
  moreover have "shared H \<noteq> local_head H u" for u using H by (metis heads_ok_def)
  ultimately show ?thesis using ap
    by (intro al_inv_stepI [OF inv, of _ t])
      (use al_invD(1) [OF inv] al_invD(2) [OF inv, of t] xchg sh in \<open>auto split: if_splits\<close>)
next
  case (splice_store t v)
  have ap: "al_apart H (own s')" using al_invD(3) [OF inv] splice_store
    own_pc_same [of ALocal "s\<lparr>nx := (nx s)(local_head H t := v)\<rparr>" t] by simp
  let ?l = "local_head H t"
  note l = not_owned [OF al_invD(3) [OF inv] heads_not_entries(2) [of H t]]
  have lu: "?l \<noteq> local_head H u" if "u \<noteq> t" for u
    using H that unfolding heads_ok_def by (metis injD)
  have "chain ((nx s)(?l := v)) p (content s) = chain (nx s) p (content s)" for p
    using l(1) by (intro chain_cong) auto
  moreover have "chain ((nx s)(?l := v)) p (held s t) = chain (nx s) p (held s t)" for p
    using l(2) by (intro chain_cong) auto
  moreover have "?l \<noteq> shared H" using H by (metis heads_ok_def)
  ultimately show ?thesis using ap
    by (intro al_inv_stepI [OF inv, of _ t])
      (use al_invD(1) [OF inv] al_invD(2) [OF inv, of t] splice_store l lu in \<open>auto split: if_splits\<close>)
next
  case (walk_start t)
  have "al_apart H (own s')" using al_invD(3) [OF inv] walk_start by (simp add: own_pc_same)
  then show ?thesis
    by (rule al_inv_stepI [OF inv, of _ t]) (use al_invD(1) [OF inv] al_invD(2) [OF inv, of t] walk_start in auto)
next
  case (walk t pos seen)
  have c: "chain (nx s) pos (held s t)" "batch s t = seen @ held s t" using al_invD(2) [OF inv, of t] walk by auto
  then obtain xs where xs: "held s t = pos # xs" using walk(3) by (cases "held s t") auto
  have "distinct (held s t)" using al_invD(3) [OF inv] unfolding al_apart_def by (metis own.simps(2))
  then have "al_apart H ((own s)(Taker t := xs))"
    using xs by (intro own_apart_shrink [OF al_invD(3) [OF inv]]) auto
  moreover have "own s' w = ((own s)(Taker t := xs)) w" for w
    using walk xs by (cases w) auto
  ultimately have ap: "al_apart H (own s')" using own_eqI by metis
  then show ?thesis
    by (rule al_inv_stepI [OF inv, of _ t]) (use al_invD(1) [OF inv] c walk xs in auto)
next
  case (walk_end t seen)
  have "al_apart H (own s')" using al_invD(3) [OF inv] walk_end by (simp add: own_pc_same)
  moreover have "held s t = []" using al_invD(2) [OF inv, of t] walk_end by (cases "held s t") auto
  ultimately show ?thesis
    by (intro al_inv_stepI [OF inv, of _ t]) (use al_invD(1) [OF inv] walk_end in auto)
qed

interpretation al_sys: transition_invariant "al_step H" "\<lambda>s. heads_ok H \<and> al_inv H s" for H
  by unfold_locales (auto intro: al_step_inv)

lemma al_reachable_inv: "al_reachable H s \<Longrightarrow> heads_ok H \<Longrightarrow> al_inv H s"
  unfolding al_reachable_def using al_sys.reach_inv [of H "al_init H" s] al_inv_init by blast


subsection \<open>Traversal\<close>

lemma al_visit_chain: "chain n p xs \<Longrightarrow> length xs \<le> fuel \<Longrightarrow> al_visit fuel p n = Some xs"
proof (induction xs arbitrary: p fuel)
  case (Cons x xs)
  then obtain f where "fuel = Suc f" "length xs \<le> f" by (cases fuel) auto
  then show ?case using Cons by simp
qed simp

lemma al_visit_cycle: "n e = e \<Longrightarrow> e \<noteq> NULL \<Longrightarrow> al_visit fuel e n = None"
  by (induction fuel) auto

lemma al_add_chain:
  assumes "chain n (n head) xs" and "e \<notin> set xs" and "e \<noteq> NULL" and "e \<noteq> head" and "head \<notin> set xs"
  shows "chain (fusion_atomic_list_add e head n) (fusion_atomic_list_add e head n head) (e # xs)"
proof -
  have "chain (n(e := n head, head := e)) p xs = chain n p xs" for p
    using assms(2,5) by (intro chain_cong) auto
  then show ?thesis using assms by (simp add: fusion_atomic_list_add_def Let_def)
qed

subsection \<open>Properties\<close>

text \<open>
  C8: no entry is lost or handed out twice.  In every state that any interleaving of adders and
  takers leads to, the shared list holds exactly the entries added since it was last taken, latest
  first and without duplicates, and a taker whose traversal has ended has handed out exactly the
  entries that were on the list when it took it, in their order.
\<close>

theorem atomic_list_exact:
  assumes "heads_ok H" and "al_reachable H s"
  shows "fusion_atomic_list_for_each (length (content s)) (shared H) (nx s) = Some (content s) \<and>
    distinct (content s) \<and> (pc s t = AWalk NULL seen \<longrightarrow> seen = batch s t)"
proof -
  have inv: "al_inv H s" using al_reachable_inv [OF assms(2,1)] .
  have "distinct (content s)" using al_invD(3) [OF inv] unfolding al_apart_def by (metis own.simps(1))
  moreover have "seen = batch s t" if "pc s t = AWalk NULL seen"
    using al_invD(2) [OF inv, of t] that by (cases "held s t") auto
  ultimately show ?thesis
    using al_visit_chain [OF al_invD(1) [OF inv]] by (simp add: fusion_atomic_list_for_each_def)
qed

lemma small_plus: "unat (ucast u + 2 :: addr) = unat u + 2" for u :: u32
proof -
  have "unat u < 2 ^ LENGTH(32)" by (rule unsigned_less)
  moreover from this have "unat (ucast u :: addr) = unat u"
    by (simp add: unsigned_ucast_eq take_bit_nat_eq_self)
  ultimately show ?thesis using unat_add_no_wrap [of "ucast u :: addr" 2] by simp
qed

lemma demo_heads_ok: "heads_ok demo_heads"
  unfolding heads_ok_def
proof (intro conjI allI)
  show "shared demo_heads \<noteq> NULL" by (simp add: demo_heads_def)
  show "inj (local_head demo_heads)"
  proof (rule injI)
    fix u v assume "local_head demo_heads u = local_head demo_heads v"
    then have "unat u + 2 = unat v + 2" using small_plus by (metis demo_heads_def al_heads.select_convs(2))
    then show "u = v" by (simp add: word_unat_eq_iff)
  qed
  fix u
  have l: "unat (local_head demo_heads u) = unat u + 2" "unat (shared demo_heads) = 1"
    using small_plus [of u] by (simp_all add: demo_heads_def)
  show "local_head demo_heads u \<noteq> shared demo_heads"
    by (cases "local_head demo_heads u = shared demo_heads") (use l in simp_all)
  show "local_head demo_heads u \<noteq> NULL"
    by (cases "local_head demo_heads u = NULL") (use l in simp_all)
qed

text \<open>One thread adds one entry.\<close>

lemma demo_run:
  "\<exists>s. al_reachable demo_heads s \<and> content s = [0x10000000000] \<and> nx s 1 = 0x10000000000"
proof -
  let ?e = "0x10000000000 :: addr" and ?i = "al_init demo_heads"
  have ne: "?e \<noteq> local_head demo_heads u" for u
  proof
    assume "?e = local_head demo_heads u"
    then have "unat ?e = unat u + 2" using small_plus [of u] by (simp add: demo_heads_def)
    moreover have "unat u < 2 ^ LENGTH(32)" by (rule unsigned_less)
    ultimately show False by simp
  qed
  define s1 where "s1 = ?i\<lparr>pc := (pc ?i)(0 := ALoad ?e)\<rparr>"
  define s2 where "s2 = s1\<lparr>pc := (pc s1)(0 := AStore ?e (nx s1 (shared demo_heads)))\<rparr>"
  define s3 where "s3 = s2\<lparr>nx := (nx s2)(?e := 0), pc := (pc s2)(0 := ACas ?e 0)\<rparr>"
  define s4 where "s4 = s3\<lparr>nx := (nx s3)(shared demo_heads := ?e), pc := (pc s3)(0 := AIdle),
     content := ?e # content s3\<rparr>"
  note d = al_init_def fusion_atomic_list_init_def
  have "may_add demo_heads ?i ?e" using ne by (simp add: may_add_def d) (simp add: demo_heads_def)
  then have "al_step demo_heads ?i s1" unfolding s1_def by (intro al_step.add) (simp_all add: d)
  moreover have "al_step demo_heads s1 s2" unfolding s2_def by (rule al_step.load) (simp add: s1_def)
  moreover have "al_step demo_heads s2 s3" unfolding s3_def
    by (rule al_step.store) (simp add: s2_def s1_def d)
  moreover have "al_step demo_heads s3 s4" unfolding s4_def
    by (rule al_step.cas_ok) (simp_all add: s3_def s2_def s1_def d demo_heads_def)
  ultimately have "al_reachable demo_heads s4" unfolding al_reachable_def using reach.intros by metis
  moreover have "content s4 = [?e]" "nx s4 1 = ?e"
    by (simp_all add: s4_def s3_def s2_def s1_def d) (simp add: demo_heads_def)
  ultimately show ?thesis by blast
qed

theorem atomic_list_exact_witness:
  "\<exists>s. al_reachable demo_heads s \<and> content s = [0x10000000000] \<and>
     fusion_atomic_list_for_each 1 1 (nx s) = Some [0x10000000000]"
proof -
  obtain s where s: "al_reachable demo_heads s" "content s = [0x10000000000]" using demo_run by blast
  from atomic_list_exact [OF demo_heads_ok s(1)] have
    "fusion_atomic_list_for_each (length (content s)) (shared demo_heads) (nx s) = Some (content s)" by blast
  moreover have "shared demo_heads = 1" by (simp add: demo_heads_def)
  ultimately show ?thesis using s by auto
qed

text \<open>
  adding an entry that is already first on the list ties it to itself, and a traversal of the
  list then never ends.
\<close>

lemma atomic_list_add_twice:
  assumes "e \<noteq> NULL" and "e \<noteq> head"
  shows "fusion_atomic_list_for_each fuel head
    (fusion_atomic_list_add e head (fusion_atomic_list_add e head n)) = None"
  using assms al_visit_cycle [of "fusion_atomic_list_add e head (fusion_atomic_list_add e head n)" e fuel]
  by (simp add: fusion_atomic_list_for_each_def fusion_atomic_list_add_def Let_def)

lemma atomic_list_add_twice_witness:
  "fusion_atomic_list_for_each 100 1 (fusion_atomic_list_add 7 1 (fusion_atomic_list_add 7 1 (\<lambda>_. 0))) = None"
  by (rule atomic_list_add_twice) simp_all

end
