(* ===== verification/Scatter.thy ===== *)
theory Scatter
  imports Prelude
begin

text \<open>
  Scatter-gather lists: the allocation, mapping and lookup functions of \<open>kscatter.c\<close>.

  A list has the two arrays of its allocation, \<open>sge\<close> (flags per entry) and \<open>sl\<close> (the kernel's
  \<open>struct scatterlist\<close>), which lies directly behind \<open>sge\<close>.  Kernel services are parameters:
  the address translation functions, \<open>get_user_pages_fast\<close> and the current task are the record
  \<open>mm_env\<close>.  Calls of \<open>put_page\<close>,
  \<open>set_page_dirty_lock\<close> and successful \<open>get_user_pages_fast\<close> are recorded in \<open>page_log\<close>.
  The printed messages are left out; \<open>kassert_release\<close> only reports.

  The lemmas read a list as the sequence of bytes it describes, as pairs of a page and an offset.
\<close>

subsection \<open>Data\<close>

definition FUSION_PAGE_SIZE :: u32 where
  "FUSION_PAGE_SIZE = 4096"

record scatterlist =
  page_link :: u64
  sg_offset :: u32
  sg_length :: u32
  dma_address :: u64

text \<open>The low two bits of \<open>page_link\<close> are flags of the kernel.\<close>

definition sg_page :: "scatterlist \<Rightarrow> addr" where
  "sg_page s = page_link s AND NOT 3"

definition sg_set_page :: "addr \<Rightarrow> u32 \<Rightarrow> u32 \<Rightarrow> scatterlist \<Rightarrow> scatterlist" where
  "sg_set_page page len off s =
     s\<lparr>page_link := (page_link s AND 3) OR page, sg_offset := off, sg_length := len\<rparr>"

record linux_sgentry =
  flags :: u32
  this_current :: addr

definition SGE_USER :: u32 where "SGE_USER = 2"
definition SGE_READ_MAPPED :: u32 where "SGE_READ_MAPPED = 4"

datatype page_event = Got_page addr | Put_page addr | Dirty_page addr

record linux_sgl =
  max_entries :: u32
  num_entries :: u32
  num_mapped :: u32
  sgl_size :: u32
  sge :: "linux_sgentry list"
  sl :: "scatterlist list"
  page_log :: "page_event list"

record linux_dma_cookie =
  pci_dev :: addr
  pci_dir :: int

definition IODRIVE_DMA_DIR_READ :: int where "IODRIVE_DMA_DIR_READ = 1"

definition kfio_dma_cookie_create :: "addr \<Rightarrow> int \<times> linux_dma_cookie" where
  "kfio_dma_cookie_create pcidev = (0, \<lparr>pci_dev = pcidev, pci_dir = - 1\<rparr>)"

subsection \<open>Allocation and reset\<close>

text \<open>\<open>sl_bytes\<close> is the size of the kernel's \<open>struct scatterlist\<close>; the other sizes are 32 and 16.\<close>

definition kfio_sgl_size_bytes :: "u64 \<Rightarrow> u32 \<Rightarrow> u32" where
  "kfio_sgl_size_bytes sl_bytes nvecs = ucast (32 + ucast nvecs * (16 + sl_bytes) :: u64)"

text \<open>\<open>sg_init_table\<close>: zeroed entries, the last marked as the end.\<close>

definition sg_zero :: scatterlist where
  "sg_zero = \<lparr>page_link = 0, sg_offset = 0, sg_length = 0, dma_address = 0\<rparr>"

definition sg_init_table :: "nat \<Rightarrow> scatterlist list" where
  "sg_init_table n = (replicate n sg_zero)[n - 1 := sg_zero\<lparr>page_link := 2\<rparr>]"

text \<open>\<open>mem\<close> says whether the allocation succeeds, \<open>junk\<close> is what its memory holds.\<close>

definition kfio_sgl_alloc_nvec :: "bool \<Rightarrow> linux_sgentry \<Rightarrow> nat \<Rightarrow> int + linux_sgl" where
  "kfio_sgl_alloc_nvec mem junk nvecs =
     (if \<not> mem then Inl (- ENOMEM)
      else Inr \<lparr>max_entries = of_nat nvecs, num_entries = 0, num_mapped = 0, sgl_size = 0,
             sge = replicate nvecs junk, sl = sg_init_table nvecs, page_log = []\<rparr>)"

text \<open>\<open>kfio_sgl_destroy\<close>: the number of bytes it hands to \<open>kfio_free\<close>.\<close>

definition kfio_sgl_destroy :: "u64 \<Rightarrow> linux_sgl \<Rightarrow> u64" where
  "kfio_sgl_destroy sl_bytes lsg = 32 + ucast (max_entries lsg) * (16 + sl_bytes)"

text \<open>The loop of \<open>kfio_sgl_unmap\<close> from entry \<open>i\<close> over \<open>n\<close> entries.\<close>

fun unmap_loop :: "linux_sgl \<Rightarrow> nat \<Rightarrow> nat \<Rightarrow> page_event list" where
  "unmap_loop lsg i 0 = []"
| "unmap_loop lsg i (Suc n) =
     (if flags (sge lsg ! i) AND SGE_USER \<noteq> 0
      then (if flags (sge lsg ! i) AND SGE_READ_MAPPED \<noteq> 0 then [Dirty_page (sg_page (sl lsg ! i))] else []) @
           [Put_page (sg_page (sl lsg ! i))]
      else []) @ unmap_loop lsg (Suc i) n"

definition kfio_sgl_unmap :: "linux_sgl \<Rightarrow> linux_sgl" where
  "kfio_sgl_unmap lsg = lsg\<lparr>page_log := page_log lsg @ unmap_loop lsg 0 (unat (num_entries lsg))\<rparr>"

definition kfio_sgl_reset :: "linux_sgl \<Rightarrow> linux_sgl" where
  "kfio_sgl_reset lsg =
     (let lsg = kfio_sgl_unmap lsg
      in lsg\<lparr>sgl_size := 0, num_mapped := 0, num_entries := 0\<rparr>)"

definition kfio_sgl_size :: "linux_sgl \<Rightarrow> u32" where
  "kfio_sgl_size lsg = sgl_size lsg"

subsection \<open>Adding memory\<close>

record mm_env =
  vmalloc_start :: addr
  vmalloc_end :: addr
  vmalloc_to_page :: "addr \<Rightarrow> addr"
  virt_to_page :: "addr \<Rightarrow> addr"
  get_user_page :: "addr \<Rightarrow> int \<times> addr"
  current_task :: addr

datatype kfio_mem_seg_t = kfio_mem_seg_system | kfio_mem_seg_user

text \<open>
  The write of \<open>sge->flags\<close> at the top of the loop, before the test of the bound.  Past the end of
  \<open>sge\<close> it goes to the low half of the first word of \<open>sl\<close>.
\<close>

definition clear_flags :: "linux_sgl \<Rightarrow> linux_sgl" where
  "clear_flags lsg =
     (let n = unat (num_entries lsg)
      in if n < unat (max_entries lsg) then lsg\<lparr>sge := (sge lsg)[n := (sge lsg ! n)\<lparr>flags := 0\<rparr>]\<rparr>
         else if n = unat (max_entries lsg)
         then lsg\<lparr>sl := (sl lsg)[0 := (sl lsg ! 0)\<lparr>page_link := page_link (sl lsg ! 0) AND NOT 0xFFFFFFFF\<rparr>]\<rparr>
         else lsg)"

text \<open>The entry that is filled: page, bytes and offset, for user memory with the flag and the owner.\<close>

definition add_entry :: "linux_sgl \<Rightarrow> addr \<Rightarrow> u32 \<Rightarrow> u32 \<Rightarrow> linux_sgl" where
  "add_entry lsg page len off =
     lsg\<lparr>sl := (sl lsg)[unat (num_entries lsg) := sg_set_page page len off (sl lsg ! unat (num_entries lsg))],
       num_entries := num_entries lsg + 1, sgl_size := sgl_size lsg + len\<rparr>"

definition mark_user :: "mm_env \<Rightarrow> linux_sgl \<Rightarrow> addr \<Rightarrow> linux_sgl" where
  "mark_user env lsg page =
     (let n = unat (num_entries lsg)
      in lsg\<lparr>sge := (sge lsg)[n := \<lparr>flags = flags (sge lsg ! n) OR SGE_USER, this_current = current_task env\<rparr>],
           page_log := page_log lsg @ [Got_page page]\<rparr>)"

text \<open>The pages put back when a user page cannot be had; the entries stay counted.\<close>

definition put_new_pages :: "linux_sgl \<Rightarrow> nat \<Rightarrow> linux_sgl" where
  "put_new_pages lsg old_num =
     lsg\<lparr>page_log := page_log lsg @
       map (\<lambda>i. Put_page (sg_page (sl lsg ! i))) [old_num..<unat (num_entries lsg)]\<rparr>"

definition bytes_in_page :: "addr \<Rightarrow> u32 \<Rightarrow> u32" where
  "bytes_in_page bp sz = min sz (FUSION_PAGE_SIZE - ucast (bp mod 4096))"

lemma unat_page_offset: "unat (ucast (bp mod 4096) :: u32) = unat bp mod 4096" for bp :: addr
proof -
  have "unat (bp mod 4096) = unat bp mod 4096" by (simp add: unat_mod)
  moreover have "unat bp mod 4096 < 4096" by simp
  ultimately show ?thesis by (simp add: unsigned_ucast_eq take_bit_nat_eq_self)
qed

lemma unat_bytes_in_page: "unat (bytes_in_page bp sz) = min (unat sz) (4096 - unat bp mod 4096)"
proof -
  have "ucast (bp mod 4096) \<le> (4096 :: u32)"
    by (simp add: word_le_nat_alt unat_page_offset less_imp_le)
  then have "unat (FUSION_PAGE_SIZE - ucast (bp mod 4096)) = 4096 - unat bp mod 4096"
    by (simp add: FUSION_PAGE_SIZE_def unat_sub_le unat_page_offset)
  then show ?thesis by (simp add: bytes_in_page_def min_def word_le_nat_alt)
qed

lemma unat_less_bytes: "unat (sz - bytes_in_page bp sz) = unat sz - unat (bytes_in_page bp sz)"
  by (intro unat_sub_le) (simp add: word_le_nat_alt unat_bytes_in_page)

function map_bytes_loop ::
  "mm_env \<Rightarrow> kfio_mem_seg_t \<Rightarrow> bool \<Rightarrow> nat \<Rightarrow> addr \<Rightarrow> u32 \<Rightarrow> linux_sgl \<Rightarrow> int \<times> linux_sgl" where
  "map_bytes_loop env seg vmalloc_buffer old_num bp sz lsg =
     (if sz = 0 then (0, lsg)
      else
        let lsg = clear_flags lsg
        in if num_entries lsg \<ge> max_entries lsg then (- ENOMEM, lsg)
           else
             let page_offset = ucast (bp mod 4096);
                 mapped_bytes = bytes_in_page bp sz
             in case seg of
                  kfio_mem_seg_system \<Rightarrow>
                    let page = (if vmalloc_buffer then vmalloc_to_page env bp else virt_to_page env bp)
                    in map_bytes_loop env seg vmalloc_buffer old_num (bp + ucast mapped_bytes)
                         (sz - mapped_bytes) (add_entry lsg page mapped_bytes page_offset)
                | kfio_mem_seg_user \<Rightarrow>
                    let (retval, page) = get_user_page env bp
                    in if retval \<le> 0 then (retval, put_new_pages lsg old_num)
                       else
                         let lsg = mark_user env lsg page
                         in map_bytes_loop env seg vmalloc_buffer old_num (bp + ucast mapped_bytes)
                              (sz - mapped_bytes) (add_entry lsg page mapped_bytes page_offset))"
  by pat_completeness auto
termination
  by (relation "measure (\<lambda>(_, _, _, _, _, sz, _). unat sz)")
    (auto simp: unat_less_bytes unat_bytes_in_page word_neq_0_conv word_less_nat_alt)

declare map_bytes_loop.simps [simp del]

definition kfio_sgl_map_bytes_gen ::
  "mm_env \<Rightarrow> linux_sgl \<Rightarrow> addr \<Rightarrow> u32 \<Rightarrow> kfio_mem_seg_t \<Rightarrow> int \<times> linux_sgl" where
  "kfio_sgl_map_bytes_gen env lsg buffer sz seg =
     (let vmalloc_buffer = (buffer \<ge> vmalloc_start env \<and> buffer < vmalloc_end env);
          old_num = unat (num_entries lsg)
      in map_bytes_loop env seg vmalloc_buffer old_num buffer sz lsg)"

definition kfio_sgl_map_page :: "linux_sgl \<Rightarrow> addr \<Rightarrow> u32 \<Rightarrow> u32 \<Rightarrow> int \<times> linux_sgl" where
  "kfio_sgl_map_page lsg page off sz =
     (if num_entries lsg \<ge> max_entries lsg then (- EINVAL, lsg)
      else if off + sz > FUSION_PAGE_SIZE then (- EINVAL, lsg)
      else (0, add_entry (clear_flags lsg) page sz off))"

record bio_vec =
  bv_page :: addr
  bv_offset :: u32
  bv_len :: u32

text \<open>The loop over the segments; the result is the value of \<open>rval\<close> when the loop is left.\<close>

fun map_bio_loop :: "bio_vec list \<Rightarrow> linux_sgl \<Rightarrow> int \<times> linux_sgl" where
  "map_bio_loop [] lsg = (0, lsg)"
| "map_bio_loop (vec # vecs) lsg =
     (let last = unat (num_entries lsg - 1); s = sl lsg ! last
      in if num_entries lsg > 0 \<and> sg_page s = bv_page vec \<and> sg_offset s + sg_length s = bv_offset vec
         then map_bio_loop vecs
                (lsg\<lparr>sl := (sl lsg)[last := s\<lparr>sg_length := sg_length s + bv_len vec\<rparr>],
                   sgl_size := sgl_size lsg + bv_len vec\<rparr>)
         else if num_entries lsg > 0 \<and> num_entries lsg \<ge> max_entries lsg then (- EAGAIN, lsg)
         else
           let (rval, lsg) = kfio_sgl_map_page lsg (bv_page vec) (bv_offset vec) (bv_len vec)
           in if rval \<noteq> 0 then (rval, lsg) else map_bio_loop vecs lsg)"

definition kfio_sgl_map_bio :: "linux_sgl \<Rightarrow> bio_vec list \<Rightarrow> int \<times> linux_sgl" where
  "kfio_sgl_map_bio lsg pbio =
     (if num_entries lsg + of_nat (length pbio) > max_entries lsg then (- EAGAIN, lsg)
      else
        let old_sl = unat (num_entries lsg - 1);
            old_len = sg_length (sl lsg ! old_sl);
            old_sgl_len = num_entries lsg;
            old_sgl_size = sgl_size lsg;
            (rval, lsg) = map_bio_loop pbio lsg
        in if rval \<noteq> 0
           then
             let lsg = lsg\<lparr>num_entries := old_sgl_len, sgl_size := old_sgl_size\<rparr>
             in (rval, if old_sgl_len > 0
                       then lsg\<lparr>sl := (sl lsg)[old_sl := (sl lsg ! old_sl)\<lparr>sg_length := old_len\<rparr>]\<rparr>
                       else lsg)
           else (0, lsg))"

subsection \<open>Looking at bytes\<close>

text \<open>\<open>page_address\<close> is the kernel's address of a page; NULL when the offset is behind the list.\<close>

definition kfio_sgl_get_vaddr :: "(addr \<Rightarrow> addr) \<Rightarrow> scatterlist \<Rightarrow> addr" where
  "kfio_sgl_get_vaddr page_address s = page_address (sg_page s) + ucast (sg_offset s)"

fun byte_pointer_loop :: "(addr \<Rightarrow> addr) \<Rightarrow> scatterlist list \<Rightarrow> u32 \<Rightarrow> u32 \<Rightarrow> addr" where
  "byte_pointer_loop page_address [] off total_offset = NULL"
| "byte_pointer_loop page_address (s # ss) off total_offset =
     (if off < total_offset + sg_length s
      then kfio_sgl_get_vaddr page_address s + ucast (off - total_offset)
      else byte_pointer_loop page_address ss off (total_offset + sg_length s))"

definition kfio_sgl_get_byte_pointer :: "(addr \<Rightarrow> addr) \<Rightarrow> linux_sgl \<Rightarrow> u32 \<Rightarrow> addr" where
  "kfio_sgl_get_byte_pointer page_address lsg off =
     byte_pointer_loop page_address (take (unat (num_entries lsg)) (sl lsg)) off 0"

text \<open>The bytes an entry describes, as page and offset, and those of a list's entries.\<close>

definition entry_bytes :: "scatterlist \<Rightarrow> (addr \<times> nat) list" where
  "entry_bytes s = map (\<lambda>k. (sg_page s, unat (sg_offset s) + k)) [0..<unat (sg_length s)]"

definition entries :: "linux_sgl \<Rightarrow> scatterlist list" where
  "entries lsg = take (unat (num_entries lsg)) (sl lsg)"

definition sgl_bytes :: "linux_sgl \<Rightarrow> (addr \<times> nat) list" where
  "sgl_bytes lsg = concat (map entry_bytes (entries lsg))"

definition in_page :: "scatterlist \<Rightarrow> bool" where
  "in_page s \<longleftrightarrow> unat (sg_offset s) + unat (sg_length s) \<le> 4096"

definition sgl_wf :: "linux_sgl \<Rightarrow> bool" where
  "sgl_wf lsg \<longleftrightarrow> length (sge lsg) = unat (max_entries lsg) \<and> length (sl lsg) = unat (max_entries lsg) \<and>
     num_entries lsg \<le> max_entries lsg \<and> sgl_size lsg = of_nat (length (sgl_bytes lsg)) \<and>
     (\<forall>s\<in>set (entries lsg). in_page s)"

definition new_bytes :: "addr \<Rightarrow> u32 \<Rightarrow> u32 \<Rightarrow> (addr \<times> nat) list" where
  "new_bytes page len off = map (\<lambda>k. (page AND NOT 3, unat off + k)) [0..<unat len]"

subsection \<open>A list as bytes\<close>

lemma length_entry_bytes [simp]: "length (entry_bytes s) = unat (sg_length s)"
  by (simp add: entry_bytes_def)

lemma sg_page_set: "sg_page (sg_set_page page len off s) = page AND NOT 3"
  by (simp add: sg_page_def sg_set_page_def bit_eq_iff bit_simps) blast

lemma sg_set_fields [simp]:
  "sg_offset (sg_set_page page len off s) = off" "sg_length (sg_set_page page len off s) = len"
  by (simp_all add: sg_set_page_def)

lemma wf_alloc: "kfio_sgl_alloc_nvec mem junk nvecs = Inr lsg \<Longrightarrow> nvecs < 2 ^ 31 \<Longrightarrow> sgl_wf lsg \<and> sgl_bytes lsg = []"
  by (auto simp: kfio_sgl_alloc_nvec_def sgl_wf_def sgl_bytes_def entries_def sg_init_table_def
      unat_of_nat take_bit_nat_eq_self split: if_splits)

lemma num_less:
  assumes "num_entries lsg < max_entries lsg"
  shows "unat (num_entries lsg) < unat (max_entries lsg)" "unat (num_entries lsg + 1) = unat (num_entries lsg) + 1"
proof -
  show less: "unat (num_entries lsg) < unat (max_entries lsg)" using assms by (simp add: word_less_nat_alt)
  have "unat (max_entries lsg) < 2 ^ LENGTH(32)" by (rule unsigned_less)
  then show "unat (num_entries lsg + 1) = unat (num_entries lsg) + 1"
    using less unat_add_no_wrap [of "num_entries lsg" 1] by simp
qed

lemma clear_flags_fields [simp]:
  "num_entries (clear_flags lsg) = num_entries lsg" "max_entries (clear_flags lsg) = max_entries lsg"
  "sgl_size (clear_flags lsg) = sgl_size lsg" "page_log (clear_flags lsg) = page_log lsg"
  "length (sge (clear_flags lsg)) = length (sge lsg)" "length (sl (clear_flags lsg)) = length (sl lsg)"
  "num_entries lsg < max_entries lsg \<Longrightarrow> sl (clear_flags lsg) = sl lsg"
  by (simp_all add: clear_flags_def Let_def word_less_nat_alt)

lemma clear_flags_wf:
  assumes "num_entries lsg < max_entries lsg"
  shows "sgl_wf (clear_flags lsg) = sgl_wf lsg" "entries (clear_flags lsg) = entries lsg"
    "sgl_bytes (clear_flags lsg) = sgl_bytes lsg"
proof -
  show e: "entries (clear_flags lsg) = entries lsg" using assms by (simp add: entries_def)
  then show "sgl_bytes (clear_flags lsg) = sgl_bytes lsg" by (simp add: sgl_bytes_def)
  then show "sgl_wf (clear_flags lsg) = sgl_wf lsg" using e by (simp add: sgl_wf_def)
qed

lemma add_entry_entries:
  assumes "length (sl lsg) = unat (max_entries lsg)" and "num_entries lsg < max_entries lsg"
  shows "entries (add_entry lsg page len off) =
    entries lsg @ [sg_set_page page len off (sl lsg ! unat (num_entries lsg))]"
  using num_less [OF assms(2)] assms(1)
  by (simp add: entries_def add_entry_def take_list_update_last)

lemma add_entry_wf:
  assumes "sgl_wf lsg" and "num_entries lsg < max_entries lsg"
  shows "sgl_bytes (add_entry lsg page len off) = sgl_bytes lsg @ new_bytes page len off"
    and "unat off + unat len \<le> 4096 \<Longrightarrow> sgl_wf (add_entry lsg page len off)"
proof -
  have l: "length (sl lsg) = unat (max_entries lsg)" using assms(1) by (simp add: sgl_wf_def)
  note e = add_entry_entries [OF l assms(2)]
  show b: "sgl_bytes (add_entry lsg page len off) = sgl_bytes lsg @ new_bytes page len off"
    by (simp add: sgl_bytes_def e entry_bytes_def new_bytes_def sg_page_set)
  assume "unat off + unat len \<le> 4096"
  moreover have "num_entries lsg + 1 \<le> max_entries lsg"
    using num_less [OF assms(2)] by (simp add: word_le_nat_alt)
  moreover have "sgl_size lsg + len = of_nat (length (sgl_bytes lsg @ new_bytes page len off))"
    using assms(1) by (simp add: sgl_wf_def new_bytes_def)
  ultimately show "sgl_wf (add_entry lsg page len off)"
    using assms(1) unfolding sgl_wf_def b e by (auto simp: add_entry_def in_page_def)
qed

text \<open>How many pages a buffer touches, and the bytes of a buffer under a page lookup.\<close>

definition pages_spanned :: "nat \<Rightarrow> nat \<Rightarrow> nat" where
  "pages_spanned b n = (if n = 0 then 0 else (b mod 4096 + n + 4095) div 4096)"

definition buffer_bytes :: "(addr \<Rightarrow> addr) \<Rightarrow> addr \<Rightarrow> nat \<Rightarrow> (addr \<times> nat) list" where
  "buffer_bytes P bp n = map (\<lambda>k. (P (bp + of_nat k) AND NOT 3, (unat bp + k) mod 4096)) [0..<n]"

definition page_lookup :: "(addr \<Rightarrow> addr) \<Rightarrow> bool" where
  "page_lookup P \<longleftrightarrow> (\<forall>a b. unat a div 4096 = unat b div 4096 \<longrightarrow> P a = P b)"

definition lookup :: "mm_env \<Rightarrow> bool \<Rightarrow> addr \<Rightarrow> addr" where
  "lookup env vm = (if vm then vmalloc_to_page env else virt_to_page env)"

subsection \<open>Mapping kernel memory\<close>

lemma pages_spanned_step:
  assumes "n \<noteq> 0" and m: "m = min n (4096 - b mod 4096)"
  shows "pages_spanned b n = Suc (pages_spanned (b + m) (n - m))"
proof (cases "n \<le> 4096 - b mod 4096")
  case True
  then have "m = n" by (simp add: m)
  moreover have "b mod 4096 + n + 4095 = 4096 + (b mod 4096 + n - 1)" "b mod 4096 + n - 1 < 4096"
    using assms(1) True by linarith+
  then have "(b mod 4096 + n + 4095) div 4096 = 1" by simp
  ultimately show ?thesis using assms(1) by (simp add: pages_spanned_def)
next
  case False
  then have m': "m = 4096 - b mod 4096" by (simp add: m)
  have lt: "b mod 4096 < 4096" by simp
  have "(b + m) mod 4096 = 0"
  proof -
    have "b + m = b div 4096 * 4096 + 4096" using m' lt div_mult_mod_eq [of b 4096] by linarith
    then show ?thesis by simp
  qed
  moreover have "n - m \<noteq> 0" "b mod 4096 + n + 4095 = (n - m + 4095) + 4096" using False m' lt by linarith+
  ultimately show ?thesis using assms(1) by (simp add: pages_spanned_def)
qed

lemma unat_plus_mod: "unat (bp + of_nat m :: addr) mod 4096 = (unat bp + m) mod 4096"
proof -
  have "unat (bp + of_nat m :: addr) = (unat bp + m) mod 2 ^ 64"
    by (simp add: unat_word_ariths unat_of_nat take_bit_eq_mod mod_add_right_eq)
  then show ?thesis by (simp add: mod_mod_cancel)
qed

lemma buffer_bytes_split:
  assumes "m \<le> n"
  shows "buffer_bytes P bp n = buffer_bytes P bp m @ buffer_bytes P (bp + of_nat m) (n - m)"
proof -
  have "[0..<n] = [0..<m] @ map (\<lambda>k. k + m) [0..<n - m]"
    using assms upt_add_eq_append [of 0 m "n - m"] map_add_upt [of m "n - m"] by simp
  moreover have "(unat (bp + of_nat m) + k) mod 4096 = (unat bp + (k + m)) mod 4096" for k
  proof -
    have "(unat (bp + of_nat m) + k) mod 4096 = (unat (bp + of_nat m) mod 4096 + k) mod 4096"
      by (simp only: mod_add_left_eq)
    also have "\<dots> = (unat bp + m + k) mod 4096" by (simp only: unat_plus_mod mod_add_left_eq)
    finally show ?thesis by (simp only: ac_simps)
  qed
  moreover have "bp + of_nat (k + m) = bp + of_nat m + of_nat k" for k :: nat by simp
  ultimately show ?thesis by (simp only: buffer_bytes_def map_append map_map comp_def)
qed

text \<open>Within a page the lookup gives the page of the first byte.\<close>

lemma buffer_bytes_page:
  assumes "page_lookup P" and "unat bp mod 4096 + n \<le> 4096"
  shows "buffer_bytes P bp n = map (\<lambda>k. (P bp AND NOT 3, unat bp mod 4096 + k)) [0..<n]"
  unfolding buffer_bytes_def
proof (rule map_cong [OF refl])
  fix k assume "k \<in> set [0..<n]"
  then have k: "unat bp mod 4096 + k < 4096" using assms(2) by simp
  have "unat bp < 2 ^ LENGTH(64)" by (rule unsigned_less)
  moreover have b: "unat bp = unat bp div 4096 * 4096 + unat bp mod 4096" by simp
  ultimately have "unat bp div 4096 < 4503599627370496" by (simp add: div_less_iff_less_mult)
  then have "unat bp + k < 18446744073709551616" using k b by linarith
  then have u: "unat (bp + of_nat k) = unat bp + k"
    using unat_add_no_wrap [of bp "of_nat k"] by (simp add: unat_of_nat take_bit_nat_eq_self)
  have "unat bp + k = (unat bp mod 4096 + k) + unat bp div 4096 * 4096" using b by linarith
  then have "(unat bp + k) div 4096 = unat bp div 4096" "(unat bp + k) mod 4096 = unat bp mod 4096 + k"
    using k by (simp_all only: div_mult_self1 mod_mult_self1 div_less mod_less)
  then show "(P (bp + of_nat k) AND NOT 3, (unat bp + k) mod 4096) = (P bp AND NOT 3, unat bp mod 4096 + k)"
    using assms(1) u unfolding page_lookup_def by metis
qed

lemma map_bytes_system:
  assumes P: "page_lookup (lookup env vm)"
  shows "sgl_wf lsg \<Longrightarrow>
    case map_bytes_loop env kfio_mem_seg_system vm old_num bp sz lsg of (rc, lsg') \<Rightarrow>
      if unat (num_entries lsg) + pages_spanned (unat bp) (unat sz) \<le> unat (max_entries lsg)
      then rc = 0 \<and> sgl_wf lsg' \<and> max_entries lsg' = max_entries lsg \<and>
        sgl_bytes lsg' = sgl_bytes lsg @ buffer_bytes (lookup env vm) bp (unat sz)
      else rc = - ENOMEM"
proof (induction "unat sz" arbitrary: bp sz lsg rule: less_induct)
  case less
  show ?case
  proof (cases "sz = 0")
    case True
    then show ?thesis using less.prems
      by (subst map_bytes_loop.simps) (simp add: pages_spanned_def buffer_bytes_def sgl_wf_def word_le_nat_alt)
  next
    case False
    then have n0: "unat sz \<noteq> 0" by (simp add: unat_eq_zero)
    define m where "m = bytes_in_page bp sz"
    have m: "unat m = min (unat sz) (4096 - unat bp mod 4096)" by (simp add: m_def unat_bytes_in_page)
    have sp: "pages_spanned (unat bp) (unat sz) = Suc (pages_spanned (unat bp + unat m) (unat sz - unat m))"
      using n0 m by (rule pages_spanned_step)
    show ?thesis
    proof (cases "num_entries lsg < max_entries lsg")
      case full: False
      then have "\<not> unat (num_entries lsg) < unat (max_entries lsg)" by (simp add: word_less_nat_alt)
      then show ?thesis using False sp full by (subst map_bytes_loop.simps) (simp add: not_less)
    next
      case room: True
      define l1 where "l1 = add_entry (clear_flags lsg) (lookup env vm bp) m (ucast (bp mod 4096))"
      have cw: "sgl_wf (clear_flags lsg)" using clear_flags_wf [OF room] less.prems by simp
      have off: "unat (ucast (bp mod 4096) :: u32) + unat m \<le> 4096"
        using m mod_less_divisor [of 4096 "unat bp"] by (auto simp: unat_page_offset min_def simp del: mod_less_divisor)
      have wf1: "sgl_wf l1" unfolding l1_def using add_entry_wf(2) [OF cw _ off] room by simp
      have b1: "sgl_bytes l1 = sgl_bytes lsg @ buffer_bytes (lookup env vm) bp (unat m)"
        unfolding l1_def using add_entry_wf(1) [OF cw] room clear_flags_wf(3) [OF room]
          buffer_bytes_page [OF P, of bp "unat m"] off by (simp add: new_bytes_def unat_page_offset)
      have n1: "unat (num_entries l1) = Suc (unat (num_entries lsg))" "max_entries l1 = max_entries lsg"
        using num_less [OF room] by (simp_all add: l1_def add_entry_def)
      have run: "map_bytes_loop env kfio_mem_seg_system vm old_num bp sz lsg =
          map_bytes_loop env kfio_mem_seg_system vm old_num (bp + ucast m) (sz - m) l1"
        using False room by (subst map_bytes_loop.simps) (auto simp: l1_def m_def lookup_def Let_def not_le [symmetric])
      have sz': "unat (sz - m) = unat sz - unat m" using unat_less_bytes by (simp add: m_def)
      then have "unat (sz - m) < unat sz" using n0 m by simp
      note IH = less.hyps [OF this wf1, of "bp + ucast m"]
      have um: "ucast m = (of_nat (unat m) :: addr)" by simp
      have ps: "pages_spanned (unat (bp + ucast m)) (unat (sz - m)) = pages_spanned (unat bp + unat m) (unat sz - unat m)"
        unfolding sz' um by (simp only: pages_spanned_def unat_plus_mod)
      have bs: "buffer_bytes (lookup env vm) bp (unat sz) =
          buffer_bytes (lookup env vm) bp (unat m) @ buffer_bytes (lookup env vm) (bp + ucast m) (unat (sz - m))"
        unfolding sz' um by (rule buffer_bytes_split) (simp add: m)
      show ?thesis using IH unfolding run ps sp bs b1 n1 by (auto split: prod.splits if_splits)
    qed
  qed
qed

text \<open>The pages a log says were taken and given back, and those a reset will give back.\<close>

fun got :: "page_event list \<Rightarrow> addr list" where
  "got [] = []"
| "got (Got_page p # es) = p # got es"
| "got (_ # es) = got es"

fun puts :: "page_event list \<Rightarrow> addr list" where
  "puts [] = []"
| "puts (Put_page p # es) = p # puts es"
| "puts (_ # es) = puts es"

definition pending :: "linux_sgl \<Rightarrow> addr list" where
  "pending lsg = puts (unmap_loop lsg 0 (unat (num_entries lsg)))"

text \<open>One user page added.\<close>

definition add_user :: "mm_env \<Rightarrow> linux_sgl \<Rightarrow> addr \<Rightarrow> u32 \<Rightarrow> u32 \<Rightarrow> linux_sgl" where
  "add_user env lsg page len off = add_entry (mark_user env (clear_flags lsg) page) page len off"

subsection \<open>User pages\<close>

lemma got_append [simp]: "got (xs @ ys) = got xs @ got ys"
  by (induction xs rule: got.induct) auto

lemma puts_append [simp]: "puts (xs @ ys) = puts xs @ puts ys"
  by (induction xs rule: puts.induct) auto

lemma got_puts_map [simp]:
  "got (map Got_page ps) = ps" "puts (map Got_page ps) = []" "got (map Put_page ps) = []" "puts (map Put_page ps) = ps"
  by (induction ps) auto

lemma unmap_got: "got (unmap_loop lsg i n) = []"
  by (induction n arbitrary: i) simp_all

lemma reset_puts: "puts (page_log (kfio_sgl_reset lsg)) = puts (page_log lsg) @ pending lsg"
  by (simp add: kfio_sgl_reset_def kfio_sgl_unmap_def pending_def)

lemma unmap_loop_Suc: "unmap_loop lsg i (Suc n) = unmap_loop lsg i n @ unmap_loop lsg (i + n) 1"
proof (induction n arbitrary: i)
  case (Suc n)
  have "unmap_loop lsg i (Suc (Suc n)) = unmap_loop lsg i 1 @ unmap_loop lsg (Suc i) (Suc n)" by simp
  also have "\<dots> = unmap_loop lsg i 1 @ unmap_loop lsg (Suc i) n @ unmap_loop lsg (Suc i + n) 1" by (simp only: Suc)
  finally show ?case by simp
qed simp

lemma unmap_loop_cong:
  "(\<And>k. i \<le> k \<Longrightarrow> k < i + n \<Longrightarrow> sge lsg' ! k = sge lsg ! k \<and> sl lsg' ! k = sl lsg ! k) \<Longrightarrow>
     unmap_loop lsg' i n = unmap_loop lsg i n"
  by (induction n arbitrary: i) simp_all

lemma aligned_page:
  fixes p :: addr
  assumes "p AND 3 = 0"
  shows "p AND NOT 3 = p" "p AND - 4 = p"
proof -
  have "\<not> bit (p AND 3) i" for i using assms by simp
  then show "p AND NOT 3 = p" by (intro bit_eqI) (auto simp: bit_simps)
  then show "p AND - 4 = p" by simp
qed

lemma add_user_facts:
  assumes wf: "sgl_wf lsg" and room: "num_entries lsg < max_entries lsg" and al: "page AND 3 = 0"
    and off: "unat off + unat len \<le> 4096"
  shows "sgl_wf (add_user env lsg page len off)"
    and "pending (add_user env lsg page len off) = pending lsg @ [page]"
    and "page_log (add_user env lsg page len off) = page_log lsg @ [Got_page page]"
    and "unat (num_entries (add_user env lsg page len off)) = Suc (unat (num_entries lsg))"
    and "max_entries (add_user env lsg page len off) = max_entries lsg"
    and "map sg_page (entries (add_user env lsg page len off)) = map sg_page (entries lsg) @ [page]"
proof -
  let ?l = "add_user env lsg page len off" and ?n = "unat (num_entries lsg)"
  define l1 where "l1 = mark_user env (clear_flags lsg) page"
  have l1: "num_entries l1 = num_entries lsg" "max_entries l1 = max_entries lsg" "sl l1 = sl lsg"
    "sgl_size l1 = sgl_size lsg" "length (sge l1) = length (sge lsg)" "entries l1 = entries lsg"
    using room by (simp_all add: l1_def mark_user_def Let_def entries_def)
  then have wf1: "sgl_wf l1" using wf by (simp add: sgl_wf_def sgl_bytes_def)
  have room1: "num_entries l1 < max_entries l1" using room l1 by simp
  show "sgl_wf ?l" unfolding add_user_def l1_def [symmetric] by (rule add_entry_wf(2) [OF wf1 room1 off])
  have len: "length (sl lsg) = unat (max_entries lsg)" "length (sge lsg) = unat (max_entries lsg)"
    using wf by (simp_all add: sgl_wf_def)
  have n: "?n < unat (max_entries lsg)" using num_less(1) [OF room] .
  show num: "unat (num_entries ?l) = Suc ?n" and "max_entries ?l = max_entries lsg"
    using num_less(2) [OF room] l1 by (simp_all add: add_user_def add_entry_def l1_def [symmetric])
  show "page_log ?l = page_log lsg @ [Got_page page]"
    by (simp add: add_user_def add_entry_def mark_user_def Let_def)
  show "map sg_page (entries ?l) = map sg_page (entries lsg) @ [page]"
    using add_entry_entries [of l1 page len off] l1 len room1 al
    by (simp add: add_user_def l1_def [symmetric] sg_page_set aligned_page)
  have "sge ?l ! k = sge lsg ! k \<and> sl ?l ! k = sl lsg ! k" if "k < ?n" for k
    using that n room by (simp add: add_user_def add_entry_def mark_user_def clear_flags_def Let_def)
  then have "unmap_loop ?l 0 ?n = unmap_loop lsg 0 ?n" by (intro unmap_loop_cong) auto
  moreover have "flags (sge ?l ! ?n) AND SGE_USER \<noteq> 0" "sg_page (sl ?l ! ?n) = page"
    using n len room al by (simp_all add: add_user_def add_entry_def mark_user_def Let_def SGE_USER_def
        sg_page_set aligned_page clear_flags_def)
  ultimately show "pending ?l = pending lsg @ [page]"
    unfolding pending_def num unmap_loop_Suc [of ?l 0 ?n] by simp
qed

lemma map_bytes_user:
  assumes gup: "\<And>a. fst (get_user_page env a) \<noteq> 0 \<and> snd (get_user_page env a) AND 3 = 0"
  shows "sgl_wf lsg \<Longrightarrow> old_num \<le> unat (num_entries lsg) \<Longrightarrow>
    unat (num_entries lsg) + pages_spanned (unat bp) (unat sz) \<le> unat (max_entries lsg) \<Longrightarrow>
    \<exists>ps. case map_bytes_loop env kfio_mem_seg_user vm old_num bp sz lsg of (rc, lsg') \<Rightarrow>
      pending lsg' = pending lsg @ ps \<and> map sg_page (entries lsg') = map sg_page (entries lsg) @ ps \<and>
      page_log lsg' = page_log lsg @ map Got_page ps @
        (if rc = 0 then [] else map Put_page (drop old_num (map sg_page (entries lsg'))))"
proof (induction "unat sz" arbitrary: bp sz lsg rule: less_induct)
  case less
  show ?case
  proof (cases "sz = 0")
    case True
    then show ?thesis by (subst map_bytes_loop.simps) (intro exI [of _ "[]"], simp)
  next
    case False
    then have n0: "unat sz \<noteq> 0" by (simp add: unat_eq_zero)
    define m where "m = bytes_in_page bp sz"
    have m: "unat m = min (unat sz) (4096 - unat bp mod 4096)" by (simp add: m_def unat_bytes_in_page)
    have sp: "pages_spanned (unat bp) (unat sz) = Suc (pages_spanned (unat bp + unat m) (unat sz - unat m))"
      using n0 m by (rule pages_spanned_step)
    have room: "num_entries lsg < max_entries lsg" using less.prems(3) sp by (simp add: word_less_nat_alt)
    obtain rv page where g: "get_user_page env bp = (rv, page)" by (cases "get_user_page env bp")
    have al: "page AND 3 = 0" and rv0: "rv \<noteq> 0" using gup [of bp] g by auto
    show ?thesis
    proof (cases "rv \<le> 0")
      case True
      have run: "map_bytes_loop env kfio_mem_seg_user vm old_num bp sz lsg =
          (rv, put_new_pages (clear_flags lsg) old_num)"
        using False room True g by (subst map_bytes_loop.simps) (simp add: not_le [symmetric])
      let ?l = "put_new_pages (clear_flags lsg) old_num"
      have e: "entries ?l = entries lsg" using clear_flags_wf(2) [OF room] by (simp add: put_new_pages_def entries_def)
      have "unmap_loop ?l 0 n = unmap_loop lsg 0 n" if "n \<le> unat (num_entries lsg)" for n
        using that num_less(1) [OF room]
        by (intro unmap_loop_cong) (auto simp: put_new_pages_def clear_flags_def Let_def)
      then have p: "pending ?l = pending lsg" by (simp add: pending_def) (simp add: put_new_pages_def)
      have len: "length (sl lsg) = unat (max_entries lsg)" using less.prems(1) by (simp add: sgl_wf_def)
      have "map (\<lambda>i. Put_page (sg_page (sl lsg ! i))) [old_num..<unat (num_entries lsg)] =
          map Put_page (drop old_num (map sg_page (entries lsg)))"
        using less.prems(2) len num_less(1) [OF room]
        by (intro nth_equalityI) (simp_all add: entries_def)
      then show ?thesis
        using run e p rv0 room by (intro exI [of _ "[]"]) (simp add: put_new_pages_def)
    next
      case ok: False
      define l1 where "l1 = add_user env lsg page m (ucast (bp mod 4096))"
      have off: "unat (ucast (bp mod 4096) :: u32) + unat m \<le> 4096"
        using m mod_less_divisor [of 4096 "unat bp"] by (auto simp: unat_page_offset min_def simp del: mod_less_divisor)
      note f = add_user_facts [OF less.prems(1) room al off, of env, folded l1_def]
      have run: "map_bytes_loop env kfio_mem_seg_user vm old_num bp sz lsg =
          map_bytes_loop env kfio_mem_seg_user vm old_num (bp + ucast m) (sz - m) l1"
        using False room ok g by (subst map_bytes_loop.simps)
          (simp add: l1_def add_user_def m_def Let_def not_le [symmetric])
      have sz': "unat (sz - m) = unat sz - unat m" using unat_less_bytes by (simp add: m_def)
      then have lt: "unat (sz - m) < unat sz" using n0 m by simp
      have um: "ucast m = (of_nat (unat m) :: addr)" by simp
      have ps: "pages_spanned (unat (bp + ucast m)) (unat (sz - m)) = pages_spanned (unat bp + unat m) (unat sz - unat m)"
        unfolding sz' um by (simp only: pages_spanned_def unat_plus_mod)
      have "old_num \<le> unat (num_entries l1)" using less.prems(2) f(4) by simp
      moreover have "unat (num_entries l1) + pages_spanned (unat (bp + ucast m)) (unat (sz - m)) \<le> unat (max_entries l1)"
        using less.prems(3) f(4,5) by (simp add: ps sp)
      ultimately have "\<exists>qs. case map_bytes_loop env kfio_mem_seg_user vm old_num (bp + ucast m) (sz - m) l1 of (rc, lsg') \<Rightarrow>
        pending lsg' = pending l1 @ qs \<and> map sg_page (entries lsg') = map sg_page (entries l1) @ qs \<and>
        page_log lsg' = page_log l1 @ map Got_page qs @
          (if rc = 0 then [] else map Put_page (drop old_num (map sg_page (entries lsg'))))"
        by (rule less.hyps [OF lt f(1)])
      then show ?thesis using f unfolding run
        by (elim exE, intro exI [of _ "page # _"]) (simp split: prod.splits)
    qed
  qed
qed

definition two_pages :: linux_sgl where
  "two_pages = \<lparr>max_entries = 2, num_entries = 2, num_mapped = 2, sgl_size = 300,
     sge = replicate 2 \<lparr>flags = 0, this_current = 0\<rparr>,
     sl = [\<lparr>page_link = 0x1000, sg_offset = 4000, sg_length = 96, dma_address = 0x70000FA0\<rparr>,
           \<lparr>page_link = 0x1042, sg_offset = 0, sg_length = 204, dma_address = 0x80000000\<rparr>],
     page_log = []\<rparr>"

definition linear_env :: mm_env where
  "linear_env = \<lparr>vmalloc_start = 0xF00000, vmalloc_end = 0xFFF000,
     vmalloc_to_page = (\<lambda>a. a div 4096 * 64), virt_to_page = (\<lambda>a. a div 4096 * 64),
     get_user_page = (\<lambda>a. if a < 0x3000 then (1, a div 4096 * 64) else (- 14, 0)), current_task = 1\<rparr>"

definition empty_sgl :: linux_sgl where
  "empty_sgl = \<lparr>max_entries = 4, num_entries = 0, num_mapped = 0, sgl_size = 0,
     sge = replicate 4 \<lparr>flags = 0, this_current = 0\<rparr>, sl = sg_init_table 4, page_log = []\<rparr>"

subsection \<open>Looking up a byte\<close>

lemma byte_pointer_loop_nth:
  assumes "unat t + length (concat (map entry_bytes ss)) < 2 ^ 32" and "t \<le> off"
  shows "byte_pointer_loop pa ss off t =
    (let bs = concat (map entry_bytes ss); k = unat off - unat t
     in if k < length bs then pa (fst (bs ! k)) + of_nat (snd (bs ! k)) else NULL)"
  using assms
proof (induction ss arbitrary: t)
  case (Cons s ss)
  have t: "unat (t + sg_length s) = unat t + unat (sg_length s)"
    using Cons.prems(1) unat_add_no_wrap [of t "sg_length s"] by simp
  have le: "unat t \<le> unat off" using Cons.prems(2) by (simp add: word_le_nat_alt)
  show ?case
  proof (cases "off < t + sg_length s")
    case True
    then have k: "unat off - unat t < unat (sg_length s)" using t le by (simp add: word_less_nat_alt)
    moreover have "unat (off - t) = unat off - unat t" using Cons.prems(2) by (rule unat_sub_le)
    then have "(ucast (off - t) :: addr) = of_nat (unat off - unat t)" by (metis of_nat_unat)
    ultimately show ?thesis using True
      by (simp add: Let_def nth_append entry_bytes_def kfio_sgl_get_vaddr_def add.assoc)
  next
    case False
    then have ge: "t + sg_length s \<le> off" "\<not> unat off - unat t < unat (sg_length s)"
      using t le by (simp_all add: word_less_nat_alt word_le_nat_alt not_less)
    have "unat (t + sg_length s) + length (concat (map entry_bytes ss)) < 2 ^ 32" using Cons.prems(1) t by simp
    from Cons.IH [OF this ge(1)] show ?thesis using False ge(2) t le
      by (simp add: Let_def nth_append) linarith
  qed
qed simp

text \<open>
  Kfio_sgl_get_byte_pointer returns, for an offset inside the list, the kernel address of
  exactly that byte of the list, and NULL for an offset behind it.
\<close>

lemma kfio_sgl_get_byte_pointer_nth:
  assumes "length (sgl_bytes lsg) < 2 ^ 32"
  shows "kfio_sgl_get_byte_pointer page_address lsg off =
    (if unat off < length (sgl_bytes lsg)
     then page_address (fst (sgl_bytes lsg ! unat off)) + of_nat (snd (sgl_bytes lsg ! unat off))
     else NULL)"
  using byte_pointer_loop_nth [of 0 "entries lsg" off page_address] assms
  by (simp add: kfio_sgl_get_byte_pointer_def sgl_bytes_def entries_def Let_def)

lemma kfio_sgl_get_byte_pointer_nth_example:
  "length (sgl_bytes two_pages) < 2 ^ 32 \<and>
   kfio_sgl_get_byte_pointer (\<lambda>p. p * 0x1000) two_pages 100 = 0x1040004"
proof -
  have "length (sgl_bytes two_pages) = 300" "sgl_bytes two_pages ! 100 = (0x1040, 4)" by code_simp+
  then show ?thesis using kfio_sgl_get_byte_pointer_nth [of two_pages "\<lambda>p. p * 0x1000" 100] by simp
qed

text \<open>
  C9: kfio_sgl_map_bytes_gen on kernel memory appends to the list exactly the bytes of the buffer,
  page by page and in order, and returns 0 when the list has an entry for every page the buffer
  touches; otherwise it returns -ENOMEM.  The hypothesis is that the kernel's translations give the
  same page for all addresses of a page.
\<close>

theorem kfio_sgl_map_bytes_exact:
  assumes "page_lookup (vmalloc_to_page env)" and "page_lookup (virt_to_page env)" and "sgl_wf lsg"
  shows "case kfio_sgl_map_bytes_gen env lsg buffer sz kfio_mem_seg_system of (rc, lsg') \<Rightarrow>
    if unat (num_entries lsg) + pages_spanned (unat buffer) (unat sz) \<le> unat (max_entries lsg)
    then rc = 0 \<and> sgl_wf lsg' \<and>
      sgl_bytes lsg' = sgl_bytes lsg @
        buffer_bytes (lookup env (vmalloc_start env \<le> buffer \<and> buffer < vmalloc_end env)) buffer (unat sz)
    else rc = - ENOMEM"
proof -
  define vm where "vm = (vmalloc_start env \<le> buffer \<and> buffer < vmalloc_end env)"
  have "page_lookup (lookup env vm)" using assms(1,2) by (simp add: lookup_def)
  from map_bytes_system [OF this assms(3), of buffer sz "unat (num_entries lsg)"] show ?thesis
    by (simp add: kfio_sgl_map_bytes_gen_def vm_def Let_def split: prod.splits if_splits)
qed

lemma linear_lookup: "page_lookup (\<lambda>a. a div 4096 * 64)"
proof -
  have "a div 4096 * 64 = b div 4096 * (64 :: addr)" if "unat a div 4096 = unat b div 4096" for a b
  proof -
    have "unat (a div 4096) = unat (b div 4096)" using that by (simp add: unat_div)
    then have "a div 4096 = b div 4096" by (rule unsigned_word_eqI)
    then show ?thesis by simp
  qed
  then show ?thesis unfolding page_lookup_def by blast
qed

lemma empty_sgl_wf: "sgl_wf empty_sgl" by code_simp

theorem kfio_sgl_map_bytes_exact_witness:
  "page_lookup (vmalloc_to_page linear_env) \<and> page_lookup (virt_to_page linear_env) \<and> sgl_wf empty_sgl \<and>
   fst (kfio_sgl_map_bytes_gen linear_env empty_sgl 0x1FFE 5000 kfio_mem_seg_system) = 0 \<and>
   fst (kfio_sgl_map_bytes_gen linear_env empty_sgl 0x1FFF 16384 kfio_mem_seg_system) = - ENOMEM"
proof -
  have p: "page_lookup (vmalloc_to_page linear_env)" "page_lookup (virt_to_page linear_env)"
    using linear_lookup by (simp_all add: linear_env_def)
  have "pages_spanned 0x1FFE 5000 = 3" "pages_spanned 0x1FFF 16384 = 5" "unat (max_entries empty_sgl) = 4"
    "unat (num_entries empty_sgl) = 0"
    by (simp_all add: pages_spanned_def empty_sgl_def)
  then show ?thesis
    using kfio_sgl_map_bytes_exact [OF p empty_sgl_wf, of "0x1FFE" 5000]
      kfio_sgl_map_bytes_exact [OF p empty_sgl_wf, of "0x1FFF" 16384] p empty_sgl_wf
    by (simp split: prod.splits if_splits)
qed

text \<open>
  C11: when get_user_pages_fast succeeds for the whole buffer, the pages taken are each put exactly
  once by kfio_sgl_reset.  When it fails part of the way, kfio_sgl_map_bytes_gen puts the pages it
  took but leaves their entries in the list, so that kfio_sgl_reset puts every one of them again.
\<close>

theorem kfio_sgl_user_pages_put:
  assumes gup: "\<And>a. fst (get_user_page env a) \<noteq> 0 \<and> snd (get_user_page env a) AND 3 = 0"
    and "sgl_wf lsg" and "num_entries lsg = 0"
    and "pages_spanned (unat buffer) (unat sz) \<le> unat (max_entries lsg)"
  shows "\<exists>E. case kfio_sgl_map_bytes_gen env lsg buffer sz kfio_mem_seg_user of (rc, lsg') \<Rightarrow>
    page_log (kfio_sgl_reset lsg') = page_log lsg @ E \<and>
    puts E = (if rc = 0 then got E else got E @ got E)"
proof -
  define vm where "vm = (vmalloc_start env \<le> buffer \<and> buffer < vmalloc_end env)"
  obtain rc l where r: "map_bytes_loop env kfio_mem_seg_user vm 0 buffer sz lsg = (rc, l)" by fastforce
  have p0: "pending lsg = []" "entries lsg = []" using assms(3) by (simp_all add: pending_def entries_def)
  obtain ps where ps: "pending l = ps" "map sg_page (entries l) = ps"
    "page_log l = page_log lsg @ map Got_page ps @ (if rc = 0 then [] else map Put_page ps)"
    using map_bytes_user [OF gup assms(2), of 0 buffer sz vm] assms(3,4) p0 r by auto
  let ?E = "map Got_page ps @ (if rc = 0 then [] else map Put_page ps) @ unmap_loop l 0 (unat (num_entries l))"
  have "page_log (kfio_sgl_reset l) = page_log lsg @ ?E"
    using ps(3) by (simp add: kfio_sgl_reset_def kfio_sgl_unmap_def)
  moreover have "puts ?E = (if rc = 0 then got ?E else got ?E @ got ?E)"
    using ps(1) by (simp add: pending_def unmap_got)
  ultimately show ?thesis using r assms(3)
    by (intro exI [of _ ?E]) (simp add: kfio_sgl_map_bytes_gen_def vm_def)
qed

lemma linear_gup: "fst (get_user_page linear_env a) \<noteq> 0 \<and> snd (get_user_page linear_env a) AND 3 = 0"
proof -
  have "push_bit 6 b AND 3 = 0" for b :: addr
  proof (rule bit_eqI)
    fix n
    have "bit (3 :: addr) n \<Longrightarrow> n < 6" by (simp add: bit_numeral_rec(2) bit_1_iff split: nat.splits)
    then show "bit (push_bit 6 b AND 3) n = bit (0 :: addr) n" by (auto simp: bit_simps)
  qed
  then have "(b * 64) AND 3 = 0" for b :: addr by (simp add: push_bit_eq_mult mult.commute)
  then show ?thesis by (simp add: linear_env_def)
qed

theorem kfio_sgl_user_pages_put_witness:
  "sgl_wf empty_sgl \<and> (\<exists>E. puts E = [128, 128] \<and>
     page_log (kfio_sgl_reset (snd (kfio_sgl_map_bytes_gen linear_env empty_sgl 0x2000 5000 kfio_mem_seg_user))) = E)"
proof -
  have r: "fst (kfio_sgl_map_bytes_gen linear_env empty_sgl 0x2000 5000 kfio_mem_seg_user) = - 14"
    "got (page_log (kfio_sgl_reset (snd (kfio_sgl_map_bytes_gen linear_env empty_sgl 0x2000 5000 kfio_mem_seg_user)))) = [128]"
    by code_simp+
  have "pages_spanned (unat (0x2000 :: addr)) (unat (5000 :: u32)) \<le> unat (max_entries empty_sgl)"
    "num_entries empty_sgl = 0" "page_log empty_sgl = []"
    by (simp_all add: pages_spanned_def empty_sgl_def)
  then show ?thesis
    using kfio_sgl_user_pages_put [OF linear_gup empty_sgl_wf, of "0x2000" 5000] empty_sgl_wf r
    by (simp add: case_prod_unfold)
qed

text \<open>
  On a full list kfio_sgl_map_bytes_gen returns -ENOMEM, but not without harm: the flags it clears
  before the test of the bound are behind the array, and the low half of the first entry's page
  pointer is lost.
\<close>

lemma kfio_sgl_map_bytes_full_clobbers:
  assumes "sgl_wf lsg" and "num_entries lsg = max_entries lsg" and "num_entries lsg \<noteq> 0" and "sz \<noteq> 0"
  shows "case kfio_sgl_map_bytes_gen env lsg buffer sz seg of (rc, lsg') \<Rightarrow>
    rc = - ENOMEM \<and> tl (entries lsg') = tl (entries lsg) \<and>
    sg_page (hd (entries lsg')) = sg_page (hd (entries lsg)) AND NOT 0xFFFFFFFF"
proof -
  have len: "length (sl lsg) = unat (max_entries lsg)" using assms(1) by (simp add: sgl_wf_def)
  have pos: "0 < unat (max_entries lsg)" using assms(2,3) by (simp add: unat_gt_0)
  then obtain s ss where s: "sl lsg = s # ss" using len by (cases "sl lsg") auto
  have c: "clear_flags lsg = lsg\<lparr>sl := s\<lparr>page_link := page_link s AND NOT 0xFFFFFFFF\<rparr> # ss\<rparr>"
    using assms(2) by (simp add: clear_flags_def s Let_def)
  have "kfio_sgl_map_bytes_gen env lsg buffer sz seg = (- ENOMEM, clear_flags lsg)"
    using assms(2,4) by (simp add: kfio_sgl_map_bytes_gen_def Let_def, subst map_bytes_loop.simps) simp
  moreover have "sg_page (s\<lparr>page_link := page_link s AND NOT 0xFFFFFFFF\<rparr>) = sg_page s AND NOT 0xFFFFFFFF"
    by (simp add: sg_page_def and.assoc)
  ultimately show ?thesis using c s len assms(2) by (simp add: entries_def)
qed

lemma kfio_sgl_map_bytes_full_clobbers_witness:
  "sgl_wf two_pages \<and> num_entries two_pages = max_entries two_pages \<and>
   sg_page (hd (entries two_pages)) = 0x1000 \<and>
   sg_page (hd (entries (snd (kfio_sgl_map_bytes_gen linear_env two_pages 0x5000 1 kfio_mem_seg_system)))) = 0"
proof -
  have "sgl_wf two_pages" "sg_page (hd (entries two_pages)) = 0x1000" by code_simp+
  moreover have "num_entries two_pages = max_entries two_pages" "num_entries two_pages \<noteq> 0"
    by (simp_all add: two_pages_def)
  ultimately show ?thesis
    using kfio_sgl_map_bytes_full_clobbers [of two_pages 1 linear_env "0x5000" kfio_mem_seg_system]
    by (simp split: prod.splits)
qed

definition vec_bytes :: "bio_vec \<Rightarrow> (addr \<times> nat) list" where
  "vec_bytes vec = map (\<lambda>k. (bv_page vec, unat (bv_offset vec) + k)) [0..<unat (bv_len vec)]"

definition vec_ok :: "bio_vec \<Rightarrow> bool" where
  "vec_ok vec \<longleftrightarrow> bv_page vec AND 3 = 0 \<and> unat (bv_offset vec) + unat (bv_len vec) \<le> 4096"

text \<open>What the rollback relies on: apart from the length of the last old entry, old entries stay.\<close>

definition keeps :: "nat \<Rightarrow> linux_sgl \<Rightarrow> linux_sgl \<Rightarrow> bool" where
  "keeps n lsg lsg' \<longleftrightarrow> length (sl lsg') = length (sl lsg) \<and> length (sge lsg') = length (sge lsg) \<and>
     max_entries lsg' = max_entries lsg \<and> n \<le> unat (num_entries lsg') \<and>
     take (n - 1) (sl lsg') = take (n - 1) (sl lsg) \<and>
     (\<forall>len. (sl lsg' ! (n - 1))\<lparr>sg_length := len\<rparr> = (sl lsg ! (n - 1))\<lparr>sg_length := len\<rparr>)"

text \<open>The two ways in which a segment enters the list.\<close>

definition merge_vec :: "linux_sgl \<Rightarrow> u32 \<Rightarrow> linux_sgl" where
  "merge_vec lsg len =
     (let last = unat (num_entries lsg - 1); s = sl lsg ! last
      in lsg\<lparr>sl := (sl lsg)[last := s\<lparr>sg_length := sg_length s + len\<rparr>], sgl_size := sgl_size lsg + len\<rparr>)"

definition append_vec :: "linux_sgl \<Rightarrow> bio_vec \<Rightarrow> linux_sgl" where
  "append_vec lsg vec = add_entry (clear_flags lsg) (bv_page vec) (bv_len vec) (bv_offset vec)"

definition merges :: "linux_sgl \<Rightarrow> bio_vec \<Rightarrow> bool" where
  "merges lsg vec \<longleftrightarrow> (let s = sl lsg ! unat (num_entries lsg - 1) in
     num_entries lsg > 0 \<and> sg_page s = bv_page vec \<and> sg_offset s + sg_length s = bv_offset vec)"

subsection \<open>Mapping a bio\<close>

lemma keeps_trans: "keeps n a b \<Longrightarrow> keeps n b c \<Longrightarrow> keeps n a c"
  by (simp add: keeps_def)

lemma map_bio_step:
  assumes "merges lsg vec \<or> num_entries lsg < max_entries lsg"
  shows "map_bio_loop (vec # vecs) lsg =
    (if merges lsg vec then map_bio_loop vecs (merge_vec lsg (bv_len vec))
     else if bv_offset vec + bv_len vec > FUSION_PAGE_SIZE then (- EINVAL, lsg)
     else map_bio_loop vecs (append_vec lsg vec))"
  using assms by (auto simp: merges_def merge_vec_def append_vec_def kfio_sgl_map_page_def Let_def not_le)

lemma map_bio_full:
  assumes "\<not> merges lsg vec" and "max_entries lsg \<le> num_entries lsg"
  shows "\<exists>rc. rc \<noteq> 0 \<and> map_bio_loop (vec # vecs) lsg = (rc, lsg)"
  using assms by (auto simp: merges_def Let_def kfio_sgl_map_page_def)

lemma num_pred: "num_entries lsg > 0 \<Longrightarrow> unat (num_entries lsg - 1) = unat (num_entries lsg) - 1"
  using unat_sub_le [of 1 "num_entries lsg"] by (simp add: word_le_nat_alt word_less_nat_alt Suc_le_eq)

lemma merge_keeps:
  assumes "merges lsg vec" and "n \<le> unat (num_entries lsg)"
  shows "keeps n lsg (merge_vec lsg len)"
proof -
  let ?k = "unat (num_entries lsg) - 1"
  have k: "unat (num_entries lsg - 1) = ?k" using assms(1) num_pred [of lsg] by (simp add: merges_def Let_def)
  have "(xs[?k := (xs ! ?k)\<lparr>sg_length := a\<rparr>] ! i)\<lparr>sg_length := b\<rparr> = (xs ! i)\<lparr>sg_length := b\<rparr>" for xs :: "scatterlist list" and a b i
    by (cases "?k < length xs") (auto simp: nth_list_update list_update_beyond)
  then show ?thesis using assms(2) by (simp add: keeps_def merge_vec_def Let_def k)
qed

lemma append_keeps:
  assumes "length (sl lsg) = unat (max_entries lsg)" and "num_entries lsg < max_entries lsg"
    and "n \<le> unat (num_entries lsg)" and "n > 0"
  shows "keeps n lsg (append_vec lsg vec)"
  using assms num_less [OF assms(2)]
  by (simp add: keeps_def append_vec_def add_entry_def)

lemma merge_entries:
  assumes "merges lsg vec" and "length (sl lsg) = unat (max_entries lsg)" and "num_entries lsg \<le> max_entries lsg"
  obtains es s where "entries lsg = es @ [s]" "sg_page s = bv_page vec" "sg_offset s + sg_length s = bv_offset vec"
    "entries (merge_vec lsg len) = es @ [s\<lparr>sg_length := sg_length s + len\<rparr>]"
proof -
  let ?n = "unat (num_entries lsg) - 1"
  have pos: "0 < unat (num_entries lsg)" using assms(1) by (simp add: merges_def Let_def word_less_nat_alt)
  have n: "unat (num_entries lsg) = Suc ?n" "?n < length (sl lsg)" "unat (num_entries lsg - 1) = ?n"
    using pos assms(2,3) num_pred [of lsg] by (simp_all add: word_le_nat_alt word_less_nat_alt)
  have "entries lsg = take ?n (sl lsg) @ [sl lsg ! ?n]"
    unfolding entries_def using n by (metis take_Suc_conv_app_nth)
  moreover have "entries (merge_vec lsg len) =
      take ?n (sl lsg) @ [(sl lsg ! ?n)\<lparr>sg_length := sg_length (sl lsg ! ?n) + len\<rparr>]"
  proof -
    have "entries (merge_vec lsg len) =
        take (Suc ?n) ((sl lsg)[?n := (sl lsg ! ?n)\<lparr>sg_length := sg_length (sl lsg ! ?n) + len\<rparr>])"
      unfolding n(1) [symmetric] by (simp add: entries_def merge_vec_def Let_def n(3))
    then show ?thesis using n(2) by (simp only: take_list_update_last)
  qed
  ultimately show thesis using that assms(1) n(3) by (simp add: merges_def Let_def)
qed

lemma merge_wf:
  assumes wf: "sgl_wf lsg" and m: "merges lsg vec" and v: "vec_ok vec"
  shows "sgl_wf (merge_vec lsg (bv_len vec)) \<and> sgl_bytes (merge_vec lsg (bv_len vec)) = sgl_bytes lsg @ vec_bytes vec"
proof -
  let ?l = "merge_vec lsg (bv_len vec)"
  have h: "length (sl lsg) = unat (max_entries lsg)" "num_entries lsg \<le> max_entries lsg"
    "sgl_size lsg = of_nat (length (sgl_bytes lsg))" "\<forall>s\<in>set (entries lsg). in_page s"
    using wf by (simp_all add: sgl_wf_def)
  obtain es s where e: "entries lsg = es @ [s]" and p: "sg_page s = bv_page vec"
    and o: "sg_offset s + sg_length s = bv_offset vec"
    and e': "entries ?l = es @ [s\<lparr>sg_length := sg_length s + bv_len vec\<rparr>]"
    using merge_entries [OF m h(1,2)] by blast
  have ip: "unat (sg_offset s) + unat (sg_length s) \<le> 4096" using h(4) e by (simp add: in_page_def)
  then have uo: "unat (bv_offset vec) = unat (sg_offset s) + unat (sg_length s)"
    using o unat_add_no_wrap [of "sg_offset s" "sg_length s"] by simp
  have ul: "unat (sg_length s + bv_len vec) = unat (sg_length s) + unat (bv_len vec)"
    using v uo unat_add_no_wrap [of "sg_length s" "bv_len vec"] by (simp add: vec_ok_def)
  have sp: "sg_page (s\<lparr>sg_length := x\<rparr>) = bv_page vec" for x using p by (simp add: sg_page_def)
  have split: "[0..<a + b] = [0..<a] @ map (\<lambda>k. a + k) [0..<b]" for a b :: nat
    using upt_add_eq_append [of 0 a b] map_add_upt [of a b] by (simp add: add.commute)
  have "entry_bytes (s\<lparr>sg_length := sg_length s + bv_len vec\<rparr>) = entry_bytes s @ vec_bytes vec"
    unfolding entry_bytes_def vec_bytes_def
    by (simp add: ul split sp p uo comp_def add.assoc)
  then have b: "sgl_bytes ?l = sgl_bytes lsg @ vec_bytes vec" by (simp add: sgl_bytes_def e e')
  have "in_page (s\<lparr>sg_length := sg_length s + bv_len vec\<rparr>)"
    using v by (simp add: in_page_def ul vec_ok_def uo)
  then have "\<forall>s\<in>set (entries ?l). in_page s" using h(4) e e' by auto
  moreover have "sgl_size ?l = sgl_size lsg + bv_len vec" by (simp add: merge_vec_def Let_def)
  then have "sgl_size ?l = of_nat (length (sgl_bytes ?l))"
    unfolding b using h(3) by (simp add: vec_bytes_def)
  ultimately have "sgl_wf ?l" using wf by (simp add: sgl_wf_def merge_vec_def Let_def)
  then show ?thesis using b by simp
qed

lemma append_wf:
  assumes wf: "sgl_wf lsg" and room: "num_entries lsg < max_entries lsg" and v: "vec_ok vec"
  shows "sgl_wf (append_vec lsg vec) \<and> sgl_bytes (append_vec lsg vec) = sgl_bytes lsg @ vec_bytes vec"
  using add_entry_wf(1) [of "clear_flags lsg" "bv_page vec" "bv_len vec" "bv_offset vec"]
    add_entry_wf(2) [of "clear_flags lsg" "bv_offset vec" "bv_len vec" "bv_page vec"] clear_flags_wf [OF room]
    wf room v by (simp add: append_vec_def vec_ok_def new_bytes_def vec_bytes_def aligned_page)

lemma vec_ok_span:
  assumes "vec_ok vec" shows "\<not> bv_offset vec + bv_len vec > FUSION_PAGE_SIZE"
  using assms unat_add_no_wrap [of "bv_offset vec" "bv_len vec"]
  by (simp add: vec_ok_def FUSION_PAGE_SIZE_def word_less_nat_alt)

lemma map_bio_loop_ok:
  "sgl_wf lsg \<Longrightarrow> \<forall>v\<in>set vecs. vec_ok v \<Longrightarrow>
   unat (num_entries lsg) + length vecs \<le> unat (max_entries lsg) \<Longrightarrow>
   \<exists>lsg'. map_bio_loop vecs lsg = (0, lsg') \<and> sgl_wf lsg' \<and>
     sgl_bytes lsg' = sgl_bytes lsg @ concat (map vec_bytes vecs)"
proof (induction vecs arbitrary: lsg)
  case (Cons vec vecs)
  have v: "vec_ok vec" and vs: "\<forall>v\<in>set vecs. vec_ok v" using Cons.prems(2) by simp_all
  have room: "num_entries lsg < max_entries lsg" using Cons.prems(3) by (simp add: word_less_nat_alt)
  define l where "l = (if merges lsg vec then merge_vec lsg (bv_len vec) else append_vec lsg vec)"
  have run: "map_bio_loop (vec # vecs) lsg = map_bio_loop vecs l"
    using room vec_ok_span [OF v] by (simp add: map_bio_step l_def del: map_bio_loop.simps)
  have wf: "sgl_wf l" "sgl_bytes l = sgl_bytes lsg @ vec_bytes vec"
    using merge_wf [OF Cons.prems(1) _ v] append_wf [OF Cons.prems(1) room v] by (auto simp: l_def)
  have n: "unat (num_entries l) + length vecs \<le> unat (max_entries l)"
    using Cons.prems(3) num_less(2) [OF room]
    by (simp add: l_def merge_vec_def append_vec_def add_entry_def Let_def)
  show ?case using Cons.IH [OF wf(1) vs n] unfolding run wf(2) by simp
qed simp

lemma map_bio_loop_keeps:
  "length (sl lsg) = unat (max_entries lsg) \<Longrightarrow> n \<le> unat (num_entries lsg) \<Longrightarrow> n > 0 \<Longrightarrow>
   keeps n lsg (snd (map_bio_loop vecs lsg))"
proof (induction vecs arbitrary: lsg)
  case (Cons vec vecs)
  have self: "keeps n lsg lsg" using Cons.prems(2) by (simp add: keeps_def)
  show ?case
  proof (cases "merges lsg vec \<or> num_entries lsg < max_entries lsg")
    case True
    define l where "l = (if merges lsg vec then merge_vec lsg (bv_len vec) else append_vec lsg vec)"
    have k: "keeps n lsg l"
      using merge_keeps [of lsg vec n] append_keeps [OF Cons.prems(1) _ Cons.prems(2,3)] Cons.prems(2) True
      by (auto simp: l_def)
    then have "length (sl l) = unat (max_entries l)" "n \<le> unat (num_entries l)"
      using Cons.prems(1) by (simp_all add: keeps_def)
    then have "keeps n lsg (snd (map_bio_loop vecs l))"
      using Cons.IH [of l] Cons.prems(3) keeps_trans [OF k] by simp
    then show ?thesis using self
      by (cases "merges lsg vec") (simp_all add: map_bio_step [OF True] l_def del: map_bio_loop.simps)
  next
    case False
    then obtain rc where "map_bio_loop (vec # vecs) lsg = (rc, lsg)"
      using map_bio_full [of lsg vec vecs] by (auto simp: not_less)
    then show ?thesis using self by simp
  qed
qed (simp add: keeps_def)

definition bio_example :: "bio_vec list" where
  "bio_example = [\<lparr>bv_page = 0x1040, bv_offset = 204, bv_len = 100\<rparr>, \<lparr>bv_page = 0x1080, bv_offset = 0, bv_len = 4096\<rparr>]"

definition roomy :: linux_sgl where
  "roomy = two_pages\<lparr>max_entries := 4, sge := replicate 4 \<lparr>flags = 0, this_current = 0\<rparr>,
     sl := sl two_pages @ [sg_zero, sg_zero]\<rparr>"

text \<open>The rollback of \<open>kfio_sgl_map_bio\<close> undoes what the loop kept track of.\<close>

lemma rollback_entries:
  assumes k: "keeps n lsg l" and n: "unat (num_entries lsg) = n" "n > 0" "n \<le> length (sl lsg)"
  shows "take n ((sl l)[n - 1 := (sl l ! (n - 1))\<lparr>sg_length := sg_length (sl lsg ! (n - 1))\<rparr>]) = entries lsg"
proof -
  obtain m where m: "n = Suc m" using n(2) by (cases n) auto
  have len: "m < length (sl l)" "m < length (sl lsg)" using k n(3) m by (simp_all add: keeps_def)
  have "(sl l ! m)\<lparr>sg_length := sg_length (sl lsg ! m)\<rparr> = sl lsg ! m"
    using k m by (simp add: keeps_def)
  moreover have "take m (sl l) = take m (sl lsg)" using k m by (simp add: keeps_def)
  ultimately show ?thesis
    using m n(1) len by (simp only: diff_Suc_1 entries_def take_list_update_last take_Suc_conv_app_nth)
qed

lemma map_bio_loop_frame:
  "length (sl (snd (map_bio_loop vecs lsg))) = length (sl lsg) \<and> length (sge (snd (map_bio_loop vecs lsg))) = length (sge lsg) \<and>
   max_entries (snd (map_bio_loop vecs lsg)) = max_entries lsg"
  by (induction vecs arbitrary: lsg)
    (auto simp: Let_def kfio_sgl_map_page_def add_entry_def split: prod.splits if_splits)

lemma map_bio_result:
  assumes wf: "sgl_wf lsg" and n32: "unat (num_entries lsg) + length pbio < 2 ^ 32"
  shows "case kfio_sgl_map_bio lsg pbio of (rc, lsg') \<Rightarrow> max_entries lsg' = max_entries lsg \<and>
    (rc \<noteq> 0 \<longrightarrow> sgl_wf lsg' \<and> entries lsg' = entries lsg \<and> sgl_size lsg' = sgl_size lsg) \<and>
    ((\<forall>v\<in>set pbio. vec_ok v) \<longrightarrow>
       (rc = 0 \<longleftrightarrow> unat (num_entries lsg) + length pbio \<le> unat (max_entries lsg)) \<and>
       (rc = 0 \<longrightarrow> sgl_wf lsg' \<and> sgl_bytes lsg' = sgl_bytes lsg @ concat (map vec_bytes pbio)))"
proof (cases "unat (num_entries lsg) + length pbio \<le> unat (max_entries lsg)")
  case False
  moreover have "unat (num_entries lsg + of_nat (length pbio)) = unat (num_entries lsg) + length pbio"
    using n32 unat_add_no_wrap [of "num_entries lsg" "of_nat (length pbio)"] by (simp add: unat_of_nat take_bit_nat_eq_self)
  ultimately show ?thesis using wf by (simp add: kfio_sgl_map_bio_def word_less_nat_alt)
next
  case True
  have u: "unat (num_entries lsg + of_nat (length pbio)) = unat (num_entries lsg) + length pbio"
    using n32 unat_add_no_wrap [of "num_entries lsg" "of_nat (length pbio)"] by (simp add: unat_of_nat take_bit_nat_eq_self)
  let ?n = "unat (num_entries lsg)"
  obtain rc l where r: "map_bio_loop pbio lsg = (rc, l)" by fastforce
  have len: "length (sl lsg) = unat (max_entries lsg)" "?n \<le> length (sl lsg)"
    using wf by (simp_all add: sgl_wf_def word_le_nat_alt)
  define l' where "l' = snd (kfio_sgl_map_bio lsg pbio)"
  have run: "kfio_sgl_map_bio lsg pbio = (rc, l')" "rc = 0 \<Longrightarrow> l' = l"
    using True u r by (auto simp: kfio_sgl_map_bio_def Let_def word_less_nat_alt l'_def)
  have undone: "entries l' = entries lsg \<and> sgl_size l' = sgl_size lsg"
    if "rc \<noteq> 0"
  proof (cases "num_entries lsg = 0")
    case z: True
    then show ?thesis using True u r that
      by (simp add: kfio_sgl_map_bio_def Let_def word_less_nat_alt l'_def entries_def)
  next
    case False
    then have pos: "?n > 0" "num_entries lsg > 0" by (simp_all add: unat_gt_0 word_neq_0_conv)
    have "keeps ?n lsg l" using map_bio_loop_keeps [OF len(1) _ pos(1), of pbio] r by simp
    from rollback_entries [OF this refl pos(1) len(2)] show ?thesis using True u r that pos(2)
      by (simp add: kfio_sgl_map_bio_def Let_def word_less_nat_alt l'_def num_pred entries_def [of "_\<lparr>sl := _\<rparr>"])
  qed
  have frame: "length (sl l') = length (sl lsg)" "length (sge l') = length (sge lsg)" "max_entries l' = max_entries lsg"
    using True u r map_bio_loop_frame [of pbio lsg]
    by (auto simp: kfio_sgl_map_bio_def Let_def word_less_nat_alt l'_def)
  have "num_entries l' = num_entries lsg" if "rc \<noteq> 0"
    using True u r that by (simp add: kfio_sgl_map_bio_def Let_def word_less_nat_alt l'_def)
  then have wf': "sgl_wf l'" if "rc \<noteq> 0"
    using undone [OF that] frame wf that by (simp add: sgl_wf_def sgl_bytes_def)
  show ?thesis using undone wf' run frame map_bio_loop_ok [OF wf _ True] r True by auto
qed

text \<open>
  C10: kfio_sgl_map_bio is all or nothing.  When it fails, the list describes the same entries and the
  same number of bytes as before.  When every segment lies within a page it succeeds if and only if
  the list could take an entry per segment, and then the bytes of the segments are appended in
  order, adjacent segments of a page merged or not.
\<close>

theorem kfio_sgl_map_bio_all_or_nothing:
  assumes "sgl_wf lsg" and "unat (num_entries lsg) + length pbio < 2 ^ 32"
  shows "case kfio_sgl_map_bio lsg pbio of (rc, lsg') \<Rightarrow>
    (rc \<noteq> 0 \<longrightarrow> entries lsg' = entries lsg \<and> sgl_size lsg' = sgl_size lsg) \<and>
    ((\<forall>v\<in>set pbio. vec_ok v) \<longrightarrow>
       (rc = 0 \<longleftrightarrow> unat (num_entries lsg) + length pbio \<le> unat (max_entries lsg)) \<and>
       (rc = 0 \<longrightarrow> sgl_wf lsg' \<and> sgl_bytes lsg' = sgl_bytes lsg @ concat (map vec_bytes pbio)))"
  using map_bio_result [OF assms] by auto

theorem kfio_sgl_map_bio_all_or_nothing_witness:
  "sgl_wf roomy \<and> unat (num_entries roomy) + length bio_example < 2 ^ 32 \<and>
   fst (kfio_sgl_map_bio roomy bio_example) = 0 \<and>
   sgl_bytes (snd (kfio_sgl_map_bio roomy bio_example)) = sgl_bytes roomy @ concat (map vec_bytes bio_example)"
proof -
  have wf: "sgl_wf roomy" by code_simp
  have n: "unat (num_entries roomy) = 2" "unat (max_entries roomy) = 4" "length bio_example = 2"
    by (simp_all add: roomy_def two_pages_def bio_example_def)
  have "\<forall>v\<in>set bio_example. vec_ok v" by code_simp
  then show ?thesis using kfio_sgl_map_bio_all_or_nothing [OF wf, of bio_example] wf n by (simp add: case_prod_unfold)
qed

end
