(* ===== verification/Scatter_Dma.thy ===== *)
theory Scatter_Dma
  imports Scatter
begin

text \<open>
  DMA maps over scatter-gather lists, and copying between lists: the remaining functions of
  \<open>kscatter.c\<close>.  The kernel's \<open>dma_map_sg\<close> is an argument of \<open>kfio_sgl_dma_map\<close>.

  The lemmas show that a slice of a mapped list, enumerated with \<open>kfio_dma_map_first\<close> and
  \<open>kfio_dma_map_next\<close>, covers exactly the bytes asked for.
\<close>

subsection \<open>DMA\<close>

text \<open>Entries are named by their index in \<open>sge\<close>, which is also their index in \<open>sl\<close>.\<close>

record kfio_dma_map =
  map_offset :: u32
  map_length :: u32
  sge_count :: u32
  sge_skip :: u32
  sge_trunc :: u32
  sge_first :: "int option"
  sge_last :: "int option"

definition kfio_dma_map_zero :: kfio_dma_map where
  "kfio_dma_map_zero = \<lparr>map_offset = 0, map_length = 0, sge_count = 0, sge_skip = 0, sge_trunc = 0,
     sge_first = None, sge_last = None\<rparr>"

text \<open>\<open>kfio_dma_map_alloc\<close>: a zeroed map, or NULL when there is no memory.\<close>

definition kfio_dma_map_alloc :: "bool \<Rightarrow> kfio_dma_map option" where
  "kfio_dma_map_alloc mem = (if mem then Some kfio_dma_map_zero else None)"

definition kfio_sgl_dma_unmap :: "linux_sgl \<Rightarrow> linux_dma_cookie \<Rightarrow> linux_sgl \<times> linux_dma_cookie" where
  "kfio_sgl_dma_unmap lsg cookie = (lsg\<lparr>num_mapped := 0\<rparr>, cookie\<lparr>pci_dir := - 1\<rparr>)"

text \<open>
  \<open>dma_map_sg\<close> gives the number of entries mapped and the table with its bus addresses.  The
  result is the value returned, the map when one was asked for and filled, the list and the cookie.
\<close>

definition kfio_sgl_dma_map ::
  "(scatterlist list \<Rightarrow> nat \<Rightarrow> u32 \<times> scatterlist list) \<Rightarrow> linux_sgl \<Rightarrow> linux_dma_cookie \<Rightarrow> int
     \<Rightarrow> int \<times> kfio_dma_map option \<times> linux_sgl \<times> linux_dma_cookie" where
  "kfio_sgl_dma_map dma_map_sg lsg cookie dir =
     (let cookie = cookie\<lparr>pci_dir := dir\<rparr>;
          n = unat (num_entries lsg);
          lsg = (if dir = IODRIVE_DMA_DIR_READ
                 then lsg\<lparr>sge := map (\<lambda>e. e\<lparr>flags := flags e OR SGE_READ_MAPPED\<rparr>) (take n (sge lsg)) @ drop n (sge lsg)\<rparr>
                 else lsg);
          (i, table) = dma_map_sg (sl lsg) n;
          lsg = lsg\<lparr>sl := table, num_mapped := i\<rparr>
      in if i < num_entries lsg
         then let (lsg, cookie) = kfio_sgl_dma_unmap lsg cookie in (- EINVAL, None, lsg, cookie)
         else (uint (num_mapped lsg),
               Some \<lparr>map_offset = 0, map_length = sgl_size lsg, sge_count = num_mapped lsg, sge_skip = 0,
                 sge_trunc = 0, sge_first = Some 0, sge_last = Some (uint (num_mapped lsg) - 1)\<rparr>,
               lsg, cookie))"

text \<open>
  \<open>kfio_sgl_dma_slice\<close>: the search for the entry of the first byte, which leaves the index at which
  it stopped, and the loop that extends the map.  None: an entry behind the table is read.
\<close>

fun slice_first :: "scatterlist list \<Rightarrow> nat \<Rightarrow> nat \<Rightarrow> u32 \<Rightarrow> kfio_dma_map \<Rightarrow> (nat \<times> kfio_dma_map) option" where
  "slice_first table i 0 off dmap = Some (i, dmap)"
| "slice_first table i (Suc n) off dmap =
     (if i \<ge> length table then None
      else if off < sg_length (table ! i)
      then Some (i, dmap\<lparr>sge_first := Some (int i), sge_last := Some (int i),
                  map_length := sg_length (table ! i) - off, sge_skip := off, sge_count := 1\<rparr>)
      else slice_first table (Suc i) n (off - sg_length (table ! i)) dmap)"

fun slice_rest :: "scatterlist list \<Rightarrow> nat \<Rightarrow> nat \<Rightarrow> u32 \<Rightarrow> kfio_dma_map \<Rightarrow> kfio_dma_map option" where
  "slice_rest table i 0 len dmap = Some dmap"
| "slice_rest table i (Suc n) len dmap =
     (if map_length dmap \<ge> len
      then let trunc = map_length dmap - len
           in Some (dmap\<lparr>sge_trunc := trunc, map_length := map_length dmap - trunc\<rparr>)
      else if i \<ge> length table then None
      else slice_rest table (Suc i) n len
             (dmap\<lparr>map_length := map_length dmap + sg_length (table ! i), sge_last := Some (int i),
                sge_count := sge_count dmap + 1\<rparr>))"

definition kfio_sgl_dma_slice :: "linux_sgl \<Rightarrow> kfio_dma_map \<Rightarrow> u32 \<Rightarrow> u32 \<Rightarrow> kfio_dma_map option" where
  "kfio_sgl_dma_slice lsg dmap off len =
     (case slice_first (sl lsg) 0 (unat (num_mapped lsg)) off (dmap\<lparr>map_offset := off\<rparr>) of
        None \<Rightarrow> None
      | Some (i, dmap) \<Rightarrow> slice_rest (sl lsg) (Suc i) (unat (num_mapped lsg) - i) len dmap)"

definition kfio_dma_map_nvecs :: "kfio_dma_map \<Rightarrow> u32" where
  "kfio_dma_map_nvecs dmap = sge_count dmap"

definition kfio_dma_map_size :: "kfio_dma_map \<Rightarrow> u32" where
  "kfio_dma_map_size dmap = map_length dmap"

text \<open>A physical segment: bus address and length.\<close>

type_synonym kfio_sgl_phys_t = "u64 \<times> u32"

definition kfio_dma_map_first :: "scatterlist list \<Rightarrow> kfio_dma_map \<Rightarrow> (int \<times> kfio_sgl_phys_t) option" where
  "kfio_dma_map_first table dmap =
     (case sge_first dmap of
        None \<Rightarrow> None
      | Some i \<Rightarrow>
          let s = table ! nat i; len = sg_length s - sge_skip dmap;
              len = (if sge_first dmap = sge_last dmap then len - sge_trunc dmap else len)
          in Some (i, dma_address s + ucast (sge_skip dmap), len))"

definition kfio_dma_map_next ::
  "scatterlist list \<Rightarrow> kfio_dma_map \<Rightarrow> int \<Rightarrow> (int \<times> kfio_sgl_phys_t) option" where
  "kfio_dma_map_next table dmap iter =
     (case (sge_first dmap, sge_last dmap) of
        (Some f, Some l) \<Rightarrow>
          if iter \<ge> f \<and> iter < l
          then let s = table ! nat (iter + 1); len = sg_length s;
                   len = (if iter + 1 = l then len - sge_trunc dmap else len)
               in Some (iter + 1, dma_address s, len)
          else None
      | _ \<Rightarrow> None)"

text \<open>
  \<open>kfio_sgl_copy_data\<close>: the pieces copied, as source page and offset, destination page and offset,
  and length; None when the loop reads an entry behind a table or the fuel runs out.  The minimum
  of the remaining length and the unsigned differences is taken in 32 bits.
\<close>

fun copy_loop ::
  "nat \<Rightarrow> scatterlist list \<Rightarrow> nat \<Rightarrow> u32 \<Rightarrow> scatterlist list \<Rightarrow> nat \<Rightarrow> u32 \<Rightarrow> u32
     \<Rightarrow> ((addr \<times> u32) \<times> (addr \<times> u32) \<times> u32) list option" where
  "copy_loop 0 dst i doff src j soff len = (if len = 0 then Some [] else None)"
| "copy_loop (Suc fuel) dst i doff src j soff len =
     (if len = 0 then Some []
      else if i \<ge> length dst \<or> j \<ge> length src then None
      else
        let sub = min (min len (sg_length (dst ! i) - doff)) (sg_length (src ! j) - soff);
            piece = ((sg_page (src ! j), soff), (sg_page (dst ! i), doff), sub);
            (i', doff') = (if doff + sub = sg_length (dst ! i)
                           then (i + 1, sg_offset (dst ! (i + 1))) else (i, doff + sub));
            (j', soff') = (if soff + sub = sg_length (src ! j)
                           then (j + 1, sg_offset (src ! (j + 1))) else (j, soff + sub))
        in map_option (\<lambda>ps. piece # ps) (copy_loop fuel dst i' doff' src j' soff' (len - sub)))"

definition kfio_sgl_copy_data ::
  "nat \<Rightarrow> linux_sgl \<Rightarrow> linux_sgl \<Rightarrow> u32 \<Rightarrow> int + ((addr \<times> u32) \<times> (addr \<times> u32) \<times> u32) list option" where
  "kfio_sgl_copy_data fuel dst src len =
     (if len > sgl_size dst \<or> len > sgl_size src then Inl (- EFAULT)
      else Inr (copy_loop fuel (sl dst) 0 (sg_offset (sl dst ! 0)) (sl src) 0 (sg_offset (sl src ! 0)) len))"

text \<open>Bus addresses of a physical segment, and of the entries \<open>i..<j\<close> of a table.\<close>

definition seg_bytes :: "kfio_sgl_phys_t \<Rightarrow> u64 list" where
  "seg_bytes seg = map (\<lambda>k. fst seg + of_nat k) [0..<unat (snd seg)]"

definition entry_seg :: "scatterlist \<Rightarrow> kfio_sgl_phys_t" where
  "entry_seg s = (dma_address s, sg_length s)"

definition bus_bytes :: "scatterlist list \<Rightarrow> nat \<Rightarrow> nat \<Rightarrow> u64 list" where
  "bus_bytes table i j = concat (map (\<lambda>k. seg_bytes (entry_seg (table ! k))) [i..<j])"

text \<open>The caller's loop over the segments of a map.\<close>

fun dma_segments :: "nat \<Rightarrow> scatterlist list \<Rightarrow> kfio_dma_map \<Rightarrow> (int \<times> kfio_sgl_phys_t) option \<Rightarrow> kfio_sgl_phys_t list" where
  "dma_segments 0 table dmap it = []"
| "dma_segments (Suc fuel) table dmap None = []"
| "dma_segments (Suc fuel) table dmap (Some (i, seg)) = seg # dma_segments fuel table dmap (kfio_dma_map_next table dmap i)"

text \<open>A map that reaches from entry \<open>f\<close> to entry \<open>l\<close>.\<close>

definition covers :: "scatterlist list \<Rightarrow> nat \<Rightarrow> nat \<Rightarrow> kfio_dma_map \<Rightarrow> bool" where
  "covers table f l dmap \<longleftrightarrow> f \<le> l \<and> sge_first dmap = Some (int f) \<and> sge_last dmap = Some (int l) \<and>
     sge_skip dmap < sg_length (table ! f) \<and> sge_count dmap = of_nat (Suc l - f)"

subsection \<open>The bytes of a slice\<close>

lemma length_seg_bytes [simp]: "length (seg_bytes seg) = unat (snd seg)"
  by (simp add: seg_bytes_def)

lemma snd_entry_seg [simp]: "snd (entry_seg s) = sg_length s"
  by (simp add: entry_seg_def)

lemma bus_bytes_Suc: "i \<le> j \<Longrightarrow> bus_bytes table i (Suc j) = bus_bytes table i j @ seg_bytes (entry_seg (table ! j))"
  by (simp add: bus_bytes_def)

lemma bus_bytes_empty [simp]: "bus_bytes table i i = []"
  by (simp add: bus_bytes_def)

lemma bus_bytes_append: "i \<le> j \<Longrightarrow> j \<le> k \<Longrightarrow> bus_bytes table i k = bus_bytes table i j @ bus_bytes table j k"
  using upt_add_eq_append [of i j "k - j"] by (simp add: bus_bytes_def)

lemma bus_bytes_Cons: "i < k \<Longrightarrow> bus_bytes table i k = seg_bytes (entry_seg (table ! i)) @ bus_bytes table (Suc i) k"
  using bus_bytes_append [of i "Suc i" k table] bus_bytes_Suc [of i i table] by simp

lemma bus_bytes_mono: "i \<le> j \<Longrightarrow> j \<le> k \<Longrightarrow> length (bus_bytes table i j) \<le> length (bus_bytes table i k)"
  by (simp add: bus_bytes_append [of i j k])

lemma seg_bytes_drop: "s \<le> n \<Longrightarrow> seg_bytes (a + ucast s, n - s) = drop (unat s) (seg_bytes (a, n))"
proof -
  assume "s \<le> n"
  then have "unat (n - s) = unat n - unat s" "unat s \<le> unat n" by (simp_all add: unat_sub_le word_le_nat_alt)
  moreover from this have "[0..<unat n] = [0..<unat s] @ map (\<lambda>k. k + unat s) [0..<unat n - unat s]"
    using upt_add_eq_append [of 0 "unat s" "unat n - unat s"] map_add_upt [of "unat s" "unat n - unat s"] by simp
  ultimately show ?thesis by (simp add: seg_bytes_def comp_def ac_simps)
qed

lemma seg_bytes_take: "t \<le> n \<Longrightarrow> seg_bytes (a, n - t) = take (unat n - unat t) (seg_bytes (a, n))"
proof -
  assume "t \<le> n"
  then have "unat (n - t) = unat n - unat t" "unat t \<le> unat n" by (simp_all add: unat_sub_le word_le_nat_alt)
  then show ?thesis by (simp add: seg_bytes_def take_map)
qed

lemma slice_first_found:
  "i + n \<le> length table \<Longrightarrow> unat off < length (bus_bytes table i (i + n)) \<Longrightarrow>
   \<exists>j off'. i \<le> j \<and> j < i + n \<and> off' < sg_length (table ! j) \<and> unat off = length (bus_bytes table i j) + unat off' \<and>
     slice_first table i n off dmap = Some (j, dmap\<lparr>sge_first := Some (int j), sge_last := Some (int j),
       map_length := sg_length (table ! j) - off', sge_skip := off', sge_count := 1\<rparr>)"
proof (induction n arbitrary: i off)
  case (Suc n)
  show ?case
  proof (cases "off < sg_length (table ! i)")
    case True
    then show ?thesis using Suc.prems(1) by (intro exI [of _ i] exI [of _ off]) simp
  next
    case False
    let ?o = "off - sg_length (table ! i)"
    have o: "unat ?o = unat off - unat (sg_length (table ! i))" "unat (sg_length (table ! i)) \<le> unat off"
      using False by (simp_all add: unat_sub_le not_less word_le_nat_alt)
    have c: "k > i \<Longrightarrow> bus_bytes table i k = seg_bytes (entry_seg (table ! i)) @ bus_bytes table (Suc i) k" for k
      by (rule bus_bytes_Cons)
    have "unat ?o < length (bus_bytes table (Suc i) (Suc i + n))" using Suc.prems(2) o c [of "i + Suc n"] by simp
    from Suc.IH [OF _ this] Suc.prems(1) obtain j off' where j: "Suc i \<le> j" "j < Suc i + n" "off' < sg_length (table ! j)"
      "unat ?o = length (bus_bytes table (Suc i) j) + unat off'"
      "slice_first table (Suc i) n ?o dmap = Some (j, dmap\<lparr>sge_first := Some (int j), sge_last := Some (int j),
       map_length := sg_length (table ! j) - off', sge_skip := off', sge_count := 1\<rparr>)" by auto
    then show ?thesis using False Suc.prems(1) o c [of j] by (intro exI [of _ j] exI [of _ off']) simp
  qed
qed simp

lemma slice_rest_found:
  assumes "N \<le> length table" and "length (bus_bytes table f N) < 2 ^ 32"
  shows "covers table f l dmap \<Longrightarrow> l < N \<Longrightarrow> n = N - l \<Longrightarrow>
    unat (map_length dmap) + unat (sge_skip dmap) = length (bus_bytes table f (Suc l)) \<Longrightarrow>
    l = f \<or> length (bus_bytes table f l) < unat len + unat (sge_skip dmap) \<Longrightarrow>
    unat len + unat (sge_skip dmap) \<le> length (bus_bytes table f N) \<Longrightarrow>
    \<exists>l' dmap'. slice_rest table (Suc l) n len dmap = Some dmap' \<and> covers table f l' dmap' \<and> l' < N \<and>
      map_length dmap' = len \<and> sge_skip dmap' = sge_skip dmap \<and> map_offset dmap' = map_offset dmap \<and>
      unat len + unat (sge_skip dmap) + unat (sge_trunc dmap') = length (bus_bytes table f (Suc l')) \<and>
      (l' = f \<or> length (bus_bytes table f l') < unat len + unat (sge_skip dmap))"
proof (induction n arbitrary: l dmap)
  case (Suc n)
  show ?case
  proof (cases "map_length dmap \<ge> len")
    case True
    then have "unat (map_length dmap - len) = unat (map_length dmap) - unat len" "unat len \<le> unat (map_length dmap)"
      by (simp_all add: unat_sub_le word_le_nat_alt)
    moreover have "slice_rest table (Suc l) (Suc n) len dmap =
        Some (dmap\<lparr>sge_trunc := map_length dmap - len, map_length := len\<rparr>)"
      using True by (simp add: Let_def)
    ultimately show ?thesis using Suc.prems
      by (intro exI [of _ l] exI [of _ "dmap\<lparr>sge_trunc := map_length dmap - len, map_length := len\<rparr>"])
        (simp add: covers_def del: slice_rest.simps)
  next
    case False
    then have lt: "unat (map_length dmap) < unat len" by (simp add: word_le_nat_alt)
    have fl: "f \<le> l" using Suc.prems(1) by (simp add: covers_def)
    have l: "Suc l < N"
    proof (rule ccontr)
      assume "\<not> Suc l < N"
      then have "N = Suc l" using Suc.prems(2) by simp
      then show False using Suc.prems(4,6) lt by simp
    qed
    let ?d = "dmap\<lparr>map_length := map_length dmap + sg_length (table ! Suc l), sge_last := Some (int (Suc l)),
      sge_count := sge_count dmap + 1\<rparr>"
    have run: "slice_rest table (Suc l) (Suc n) len dmap = slice_rest table (Suc (Suc l)) n len ?d"
      using False l assms(1) by simp
    have b: "length (bus_bytes table f (Suc (Suc l))) = length (bus_bytes table f (Suc l)) + unat (sg_length (table ! Suc l))"
      using fl by (simp add: bus_bytes_Suc)
    have "length (bus_bytes table f (Suc (Suc l))) \<le> length (bus_bytes table f N)"
      using fl l by (intro bus_bytes_mono) auto
    then have "unat (map_length dmap) + unat (sg_length (table ! Suc l)) < 2 ^ 32"
      using b Suc.prems(4) assms(2) by simp
    then have u: "unat (map_length ?d) = unat (map_length dmap) + unat (sg_length (table ! Suc l))"
      using unat_add_no_wrap [of "map_length dmap" "sg_length (table ! Suc l)"] by simp
    have "covers table f (Suc l) ?d" using Suc.prems(1) by (simp add: covers_def Suc_diff_le)
    moreover have "unat (map_length ?d) + unat (sge_skip ?d) = length (bus_bytes table f (Suc (Suc l)))"
      using u b Suc.prems(4) by simp
    moreover have "length (bus_bytes table f (Suc l)) < unat len + unat (sge_skip ?d)"
      using Suc.prems(4) lt by simp
    moreover have "n = N - Suc l" "unat len + unat (sge_skip ?d) \<le> length (bus_bytes table f N)"
      using Suc.prems(3,6) by simp_all
    ultimately have "\<exists>l' dmap'. slice_rest table (Suc (Suc l)) n len ?d = Some dmap' \<and> covers table f l' dmap' \<and> l' < N \<and>
      map_length dmap' = len \<and> sge_skip dmap' = sge_skip ?d \<and> map_offset dmap' = map_offset ?d \<and>
      unat len + unat (sge_skip ?d) + unat (sge_trunc dmap') = length (bus_bytes table f (Suc l')) \<and>
      (l' = f \<or> length (bus_bytes table f l') < unat len + unat (sge_skip ?d))"
      using l by (intro Suc.IH) simp_all
    then show ?thesis unfolding run by simp
  qed
qed simp

lemma dma_segments_mid:
  assumes "sge_first dmap = Some (int f)" and "sge_last dmap = Some (int l)" and "sge_trunc dmap \<le> sg_length (table ! l)"
  shows "f \<le> i \<Longrightarrow> i < l \<Longrightarrow> l - i \<le> fuel \<Longrightarrow>
    concat (map seg_bytes (dma_segments fuel table dmap (kfio_dma_map_next table dmap (int i)))) @
      drop (unat (sg_length (table ! l)) - unat (sge_trunc dmap)) (seg_bytes (entry_seg (table ! l))) =
    bus_bytes table (Suc i) (Suc l) \<and>
    length (dma_segments fuel table dmap (kfio_dma_map_next table dmap (int i))) = l - i"
proof (induction "l - i" arbitrary: i fuel)
  case (Suc d)
  obtain g where g: "fuel = Suc g" using Suc.prems by (cases fuel) auto
  have nat: "nat (int i + 1) = Suc i" "nat (1 + int i) = Suc i" "int i + 1 = int (Suc i)" by simp_all
  show ?case
  proof (cases "Suc i = l")
    case True
    have e: "kfio_dma_map_next table dmap (int l) = None" using assms(1,2) by (simp add: kfio_dma_map_next_def)
    have "kfio_dma_map_next table dmap (int i) =
        Some (int l, dma_address (table ! l), sg_length (table ! l) - sge_trunc dmap)"
      using assms(1,2) Suc.prems True by (auto simp: kfio_dma_map_next_def Let_def nat)
    moreover have "dma_segments g table dmap None = []" by (cases g) simp_all
    moreover have "bus_bytes table l (Suc l) = seg_bytes (entry_seg (table ! l))" by (simp add: bus_bytes_def)
    ultimately show ?thesis using g True seg_bytes_take [OF assms(3), of "dma_address (table ! l)"]
      by (simp add: e entry_seg_def)
  next
    case False
    then have n: "kfio_dma_map_next table dmap (int i) = Some (int (Suc i), entry_seg (table ! Suc i))"
      using assms(1,2) Suc.prems by (auto simp: kfio_dma_map_next_def Let_def nat entry_seg_def)
    have "d = l - Suc i" "Suc i < l" "f \<le> Suc i" "l - Suc i \<le> g" using Suc.hyps(2) Suc.prems False g by simp_all
    note IH = Suc.hyps(1) [OF this(1,3,2,4)]
    have "bus_bytes table (Suc i) (Suc l) = seg_bytes (entry_seg (table ! Suc i)) @ bus_bytes table (Suc (Suc i)) (Suc l)"
      using \<open>Suc i < l\<close> by (intro bus_bytes_Cons) simp
    then show ?thesis using IH \<open>Suc i < l\<close> by (simp add: n g)
  qed
qed simp

lemma dma_segments_covers:
  assumes c: "covers table f l dmap" and t: "sge_trunc dmap \<le> sg_length (table ! l)"
    and tf: "l = f \<Longrightarrow> unat (sge_skip dmap) + unat (sge_trunc dmap) \<le> unat (sg_length (table ! f))"
  defines "segs \<equiv> dma_segments (unat (sge_count dmap)) table dmap (kfio_dma_map_first table dmap)"
  assumes n: "Suc l - f < 2 ^ 32"
  shows "concat (map seg_bytes segs) = take (length (bus_bytes table f (Suc l)) - unat (sge_skip dmap) - unat (sge_trunc dmap))
      (drop (unat (sge_skip dmap)) (bus_bytes table f (Suc l))) \<and> length segs = unat (sge_count dmap)"
proof -
  have f: "f \<le> l" "sge_first dmap = Some (int f)" "sge_last dmap = Some (int l)" "sge_skip dmap < sg_length (table ! f)"
    "sge_count dmap = of_nat (Suc l - f)"
    using c by (simp_all add: covers_def)
  have fn: "unat (sge_count dmap) = Suc (l - f)"
    unfolding f(5) unat_of_nat using n f(1) by (simp add: take_bit_nat_eq_self Suc_diff_le)
  let ?s = "unat (sge_skip dmap)" and ?t = "unat (sge_trunc dmap)" and ?e = "\<lambda>k. seg_bytes (entry_seg (table ! k))"
  have sk: "sge_skip dmap \<le> sg_length (table ! f)" using f(4) by simp
  note d = seg_bytes_drop [OF sk, of "dma_address (table ! f)"]
  show ?thesis
  proof (cases "f = l")
    case True
    have ub: "unat (sg_length (table ! f) - sge_skip dmap) = unat (sg_length (table ! f)) - ?s" using sk by (rule unat_sub_le)
    then have tt: "sge_trunc dmap \<le> sg_length (table ! f) - sge_skip dmap" using tf True by (simp add: word_le_nat_alt)
    have e: "kfio_dma_map_next table dmap (int l) = None" using f by (simp add: kfio_dma_map_next_def)
    have "segs = [(dma_address (table ! f) + ucast (sge_skip dmap), sg_length (table ! f) - sge_skip dmap - sge_trunc dmap)]"
      using f(1-4) fn True e by (simp add: segs_def kfio_dma_map_first_def Let_def)
    moreover have "bus_bytes table f (Suc l) = ?e f" using True by (simp add: bus_bytes_def)
    ultimately show ?thesis using fn True seg_bytes_take [OF tt, of "dma_address (table ! f) + ucast (sge_skip dmap)"] d ub
      by (simp add: entry_seg_def)
  next
    case False
    then have fl: "f < l" using f(1) by simp
    have "kfio_dma_map_first table dmap = Some (int f, dma_address (table ! f) + ucast (sge_skip dmap), sg_length (table ! f) - sge_skip dmap)"
      using f False by (simp add: kfio_dma_map_first_def Let_def)
    then have segs: "segs = (dma_address (table ! f) + ucast (sge_skip dmap), sg_length (table ! f) - sge_skip dmap) #
        dma_segments (l - f) table dmap (kfio_dma_map_next table dmap (int f))"
      using fn by (simp add: segs_def)
    note m = dma_segments_mid [OF f(2,3) t order_refl fl order_refl]
    let ?r = "drop (unat (sg_length (table ! l)) - ?t) (?e l)"
    have "bus_bytes table f (Suc l) = ?e f @ bus_bytes table (Suc f) (Suc l)" using fl by (intro bus_bytes_Cons) simp
    moreover have "?s \<le> unat (sg_length (table ! f))" using sk by (simp add: word_le_nat_alt)
    ultimately have "drop ?s (bus_bytes table f (Suc l)) = concat (map seg_bytes segs) @ ?r"
      using m d by (simp add: segs entry_seg_def)
    moreover have "length ?r = ?t" using t by (simp add: word_le_nat_alt)
    moreover from calculation have "length (bus_bytes table f (Suc l)) - ?s = length (concat (map seg_bytes segs)) + ?t"
      by (metis length_append length_drop)
    ultimately have "concat (map seg_bytes segs) = take (length (bus_bytes table f (Suc l)) - ?s - ?t) (drop ?s (bus_bytes table f (Suc l)))"
      by simp
    moreover have "length segs = unat (sge_count dmap)" using m fn fl by (simp add: segs)
    ultimately show ?thesis by simp
  qed
qed

text \<open>
  C12: kfio_sgl_dma_slice covers exactly the bytes asked for.  For a slice inside a mapped list the
  segments that kfio_dma_map_first and kfio_dma_map_next give are, byte for byte and in order, the
  bus addresses of the bytes [offset, offset + length) of the list; kfio_dma_map_size is the
  length and kfio_dma_map_nvecs the number of segments.
\<close>

theorem kfio_sgl_dma_slice_exact:
  assumes tab: "unat (num_mapped lsg) \<le> length (sl lsg)"
    and total: "length (bus_bytes (sl lsg) 0 (unat (num_mapped lsg))) < 2 ^ 32"
    and off: "unat off < length (bus_bytes (sl lsg) 0 (unat (num_mapped lsg)))"
    and len: "unat off + unat len \<le> length (bus_bytes (sl lsg) 0 (unat (num_mapped lsg)))"
  shows "\<exists>dmap'. kfio_sgl_dma_slice lsg dmap off len = Some dmap' \<and> kfio_dma_map_size dmap' = len \<and>
    map_offset dmap' = off \<and>
    (let segs = dma_segments (unat (kfio_dma_map_nvecs dmap')) (sl lsg) dmap' (kfio_dma_map_first (sl lsg) dmap')
     in length segs = unat (kfio_dma_map_nvecs dmap') \<and>
        concat (map seg_bytes segs) =
          take (unat len) (drop (unat off) (bus_bytes (sl lsg) 0 (unat (num_mapped lsg)))))"
proof -
  let ?T = "sl lsg" and ?N = "unat (num_mapped lsg)"
  obtain j off' where j: "j < ?N" "off' < sg_length (?T ! j)" "unat off = length (bus_bytes ?T 0 j) + unat off'"
    and s1: "slice_first ?T 0 ?N off (dmap\<lparr>map_offset := off\<rparr>) = Some (j, dmap\<lparr>map_offset := off,
       sge_first := Some (int j), sge_last := Some (int j), map_length := sg_length (?T ! j) - off',
       sge_skip := off', sge_count := 1\<rparr>)" (is "_ = Some (j, ?d)")
    using slice_first_found [of 0 ?N ?T off "dmap\<lparr>map_offset := off\<rparr>"] tab off by auto
  have ap: "bus_bytes ?T 0 ?N = bus_bytes ?T 0 j @ bus_bytes ?T j ?N" using j(1) by (intro bus_bytes_append) auto
  have ml: "unat (map_length ?d) + unat (sge_skip ?d) = length (bus_bytes ?T j (Suc j))"
    using j(2) by (simp add: bus_bytes_Suc unat_sub_le word_less_nat_alt less_imp_le)
  have c: "covers ?T j j ?d" using j(2) by (simp add: covers_def)
  have t: "length (bus_bytes ?T j ?N) < 2 ^ 32" "unat len + unat (sge_skip ?d) \<le> length (bus_bytes ?T j ?N)"
    using total len j(3) by (simp_all add: ap)
  obtain l d' where s2: "slice_rest ?T (Suc j) (?N - j) len ?d = Some d'" and d': "covers ?T j l d'" "l < ?N"
      "map_length d' = len" "sge_skip d' = off'" "map_offset d' = off"
      "unat len + unat off' + unat (sge_trunc d') = length (bus_bytes ?T j (Suc l))"
      "l = j \<or> length (bus_bytes ?T j l) < unat len + unat off'"
    using slice_rest_found [OF tab t(1) c j(1) refl ml _ t(2)] by auto
  have jl: "j \<le> l" using d'(1) by (simp add: covers_def)
  have tr: "sge_trunc d' \<le> sg_length (?T ! l)"
    using d'(6,7) jl bus_bytes_Suc [OF jl, of ?T] by (auto simp: word_le_nat_alt)
  have tf: "l = j \<Longrightarrow> unat (sge_skip d') + unat (sge_trunc d') \<le> unat (sg_length (?T ! j))"
    using d'(4,6) by (simp add: bus_bytes_Suc)
  have "?N < 2 ^ LENGTH(32)" by (rule unsigned_less)
  then have "Suc l - j < 2 ^ 32" using d'(2) by simp
  note sg = dma_segments_covers [OF d'(1) tr tf this]
  have "bus_bytes ?T j ?N = bus_bytes ?T j (Suc l) @ bus_bytes ?T (Suc l) ?N"
    using jl d'(2) by (intro bus_bytes_append) auto
  then have "take (unat len) (drop (unat off) (bus_bytes ?T 0 ?N)) =
      take (unat len) (drop (unat off') (bus_bytes ?T j (Suc l)))"
    using d'(6) by (simp add: ap j(3))
  moreover have "length (bus_bytes ?T j (Suc l)) - unat off' - unat (sge_trunc d') = unat len" using d'(6) by simp
  ultimately show ?thesis using s1 s2 sg d'
    by (simp add: kfio_sgl_dma_slice_def kfio_dma_map_size_def kfio_dma_map_nvecs_def)
qed

theorem kfio_sgl_dma_slice_exact_witness:
  "length (bus_bytes (sl two_pages) 0 (unat (num_mapped two_pages))) = 300 \<and>
   (\<exists>dmap'. kfio_sgl_dma_slice two_pages kfio_dma_map_zero 90 10 = Some dmap' \<and> kfio_dma_map_size dmap' = 10)"
proof -
  have "length (bus_bytes (sl two_pages) 0 (unat (num_mapped two_pages))) = 300" by code_simp
  then show ?thesis using kfio_sgl_dma_slice_exact [of two_pages 90 10 kfio_dma_map_zero]
    by (auto simp: two_pages_def)
qed

text \<open>
  Positions in \<open>kfio_sgl_copy_data\<close> start at the entry's offset but are compared with its length:
  with an offset of 40 in an entry of 100 bytes, copying 100 bytes runs off the end of the table.
\<close>

definition shifted :: linux_sgl where
  "shifted = \<lparr>max_entries = 1, num_entries = 1, num_mapped = 0, sgl_size = 100,
     sge = [\<lparr>flags = 0, this_current = 0\<rparr>],
     sl = [\<lparr>page_link = 0x1002, sg_offset = 40, sg_length = 100, dma_address = 0\<rparr>], page_log = []\<rparr>"

lemma copy_data_offset_overruns: "kfio_sgl_copy_data fuel shifted shifted 100 = Inr None"
proof (cases fuel)
  case 0
  then show ?thesis by (simp add: kfio_sgl_copy_data_def shifted_def)
next
  case (Suc f)
  have "copy_loop f [\<lparr>page_link = 0x1002, sg_offset = 40, sg_length = 100, dma_address = 0\<rparr>] 1 off
      [\<lparr>page_link = 0x1002, sg_offset = 40, sg_length = 100, dma_address = 0\<rparr>] 1 off' 40 = None" for off off'
    by (cases f) simp_all
  then show ?thesis using Suc by (simp add: kfio_sgl_copy_data_def shifted_def)
qed

end
