(* ===== verification/Kblock_Bio.thy ===== *)
theory Kblock_Bio
  imports Scatter Ranges
begin

text \<open>
  The bio path of the block device: \<open>kblock.c\<close> from \<open>kfio_submit_bio\<close> through the
  plugged list to the requests handed to the core with \<open>kfio_bio_submit\<close>, and the completion of
  their bios.

  Linux bios live in a heap \<open>bios\<close> and are linked by \<open>bi_next\<close>.  The calls that leave the file
  (\<open>bio_endio\<close>, \<open>kfio_bio_submit\<close>, \<open>kfio_bio_free\<close>) are events; a submission
  keeps the heap of its moment.  The constants of the kernel's block layer are the record
  \<open>blk_consts\<close>, and \<open>kfio_bio_alloc\<close> of the core is an argument that gives the request of the
  n-th call.  A loop over \<open>bi_next\<close> takes fuel and gives None when it runs out.

  The lemmas show that every bio is ended or submitted exactly once and in order, that a
  submitted request describes exactly its bios, and when a request is marked synchronous.
\<close>

subsection \<open>Bios and requests\<close>

record blk_consts =
  req_op_mask :: u32
  req_op_discard :: u32
  req_sync :: u32

record bio =
  bi_sector :: u64
  bi_size :: u32
  bi_opf :: u32
  bi_vecs :: "bio_vec list"
  bi_next :: addr
  bi_status :: int

definition KERNEL_SECTOR_SIZE :: u64 where "KERNEL_SECTOR_SIZE = 512"

definition FUSION_MAX_SECTORS_PER_OS_RW_REQUEST :: u64 where
  "FUSION_MAX_SECTORS_PER_OS_RW_REQUEST = 2048"

datatype kbio_cmd = KBIO_CMD_INVALID | KBIO_CMD_READ | KBIO_CMD_WRITE | KBIO_CMD_DISCARD | KBIO_CMD_FLUSH

definition KBIO_FLG_SYNC :: u32 where "KBIO_FLG_SYNC = 0x001"
definition KBIO_FLG_NONBLOCK :: u32 where "KBIO_FLG_NONBLOCK = 0x020"
definition KBIO_FLG_ATOMIC :: u32 where "KBIO_FLG_ATOMIC = 0x100"

datatype kbio_completor = No_completor | Bio_completor | Req_completor | Atomic_chain_completor

record kfio_bio =
  fbio_sgl :: linux_sgl
  fbio_flags :: u32
  fbio_cmd :: kbio_cmd
  fbio_cpu :: u32
  fbio_completor :: kbio_completor
  fbio_parameter :: addr
  fbio_range :: fio_range_t

record fio_bdev =
  bdev_block_size :: u32

datatype blk_event = Endio addr int | Submit kfio_bio "addr \<Rightarrow> bio" | Free_bio

record kfio_plug =
  cb_is_kfio :: bool
  plug_disk :: addr
  bio_head :: addr
  bio_tail :: addr

text \<open>\<open>cur_plug\<close> is \<open>current->plug\<close> with its callbacks, None when the task has no plug.\<close>

record blk_state =
  bios :: "addr \<Rightarrow> bio"
  events :: "blk_event list"
  n_alloc :: nat
  cur_plug :: "kfio_plug list option"

text \<open>What a task has at hand: constants, device, allocator and current processor.\<close>

record blk_env =
  blk_c :: blk_consts
  bdev :: fio_bdev
  kfio_bio_alloc :: "nat \<Rightarrow> kfio_bio option"
  kfio_bio_alloc_chain :: "nat \<Rightarrow> int \<Rightarrow> kfio_bio list option"
  max_atomic_iovs :: int
  max_atomic_total_write_size :: int
  current_cpu :: u32

definition bio_flags :: "blk_consts \<Rightarrow> bio \<Rightarrow> u32" where
  "bio_flags c b = bi_opf b AND req_op_mask c"

definition bio_op :: "blk_consts \<Rightarrow> bio \<Rightarrow> u32" where
  "bio_op c b = bi_opf b AND req_op_mask c"

text \<open>\<open>bio_data_dir\<close>: the lowest bit of the operation says write.\<close>

definition bio_is_write :: "blk_consts \<Rightarrow> bio \<Rightarrow> bool" where
  "bio_is_write c b \<longleftrightarrow> bio_op c b AND 1 \<noteq> 0"

definition kfio_bio_is_discard :: "blk_consts \<Rightarrow> bio \<Rightarrow> bool" where
  "kfio_bio_is_discard c b \<longleftrightarrow> bio_op c b = req_op_discard c"

definition kfio_bio_sync_raw :: "blk_consts \<Rightarrow> bio \<Rightarrow> bool" where
  "kfio_bio_sync_raw c b \<longleftrightarrow> bio_flags c b = req_sync c"

definition kfio_bio_atomic_raw :: "bio \<Rightarrow> bool" where
  "kfio_bio_atomic_raw b \<longleftrightarrow> False"

definition kfio_bio_complete_raw :: "addr \<Rightarrow> int \<Rightarrow> blk_state \<Rightarrow> blk_state" where
  "kfio_bio_complete_raw a err st =
     st\<lparr>bios := (if err \<noteq> 0 then (bios st)(a := (bios st a)\<lparr>bi_status := err\<rparr>) else bios st),
        events := events st @ [Endio a err]\<rparr>"

text \<open>The loop of the completors: it reads \<open>bi_next\<close> before it ends the bio.\<close>

fun complete_chain :: "nat \<Rightarrow> addr \<Rightarrow> int \<Rightarrow> u64 \<Rightarrow> blk_state \<Rightarrow> (u64 \<times> blk_state) option" where
  "complete_chain 0 a err bytes st = None"
| "complete_chain (Suc fuel) a err bytes st =
     (let nxt = bi_next (bios st a);
          bytes = bytes + ucast (bi_size (bios st a));
          st = kfio_bio_complete_raw a err st
      in if nxt = NULL then Some (bytes, st) else complete_chain fuel nxt err bytes st)"

definition kfio_bio_completor :: "nat \<Rightarrow> kfio_bio \<Rightarrow> int \<Rightarrow> blk_state \<Rightarrow> blk_state option" where
  "kfio_bio_completor fuel fbio err st = map_option snd (complete_chain fuel (fbio_parameter fbio) err 0 st)"

text \<open>The number of bytes is narrowed to \<open>int\<close> by the return type.\<close>

definition complete_bio_chain :: "nat \<Rightarrow> addr \<Rightarrow> int \<Rightarrow> blk_state \<Rightarrow> (int \<times> blk_state) option" where
  "complete_bio_chain fuel a err st =
     map_option (\<lambda>(bytes, st). (sint (ucast bytes :: u32), st)) (complete_chain fuel a err 0 st)"

definition fusion_handle_atomic_chain_completor :: "nat \<Rightarrow> kfio_bio \<Rightarrow> int \<Rightarrow> blk_state \<Rightarrow> blk_state option" where
  "fusion_handle_atomic_chain_completor fuel fbio err st =
     map_option snd (complete_bio_chain fuel (fbio_parameter fbio) err st)"

definition linux_bio_get_bid :: "fio_bdev \<Rightarrow> bio \<Rightarrow> u64" where
  "linux_bio_get_bid d b = bi_sector b * KERNEL_SECTOR_SIZE div ucast (bdev_block_size d)"

definition linux_bio_get_blen :: "fio_bdev \<Rightarrow> bio \<Rightarrow> u64" where
  "linux_bio_get_blen d b = ucast (bi_size b div bdev_block_size d)"

text \<open>Value 1: the request is full or does not fit, and a new one is needed.\<close>

definition kfio_kbio_add_bio :: "blk_env \<Rightarrow> kfio_bio \<Rightarrow> bio \<Rightarrow> int \<times> kfio_bio" where
  "kfio_kbio_add_bio env fbio b =
     (let c = blk_c env; blen = linux_bio_get_blen (bdev env) b
      in if kfio_bio_is_discard c b then (1, fbio)
         else if (bio_is_write c b \<and> fbio_cmd fbio \<noteq> KBIO_CMD_WRITE) \<or>
                 (\<not> bio_is_write c b \<and> fbio_cmd fbio \<noteq> KBIO_CMD_READ) then (1, fbio)
         else if fbio_flags fbio AND KBIO_FLG_ATOMIC \<noteq> 0 then (1, fbio)
         else if fio_range_upper_bound (fbio_range fbio) \<noteq> linux_bio_get_bid (bdev env) b then (1, fbio)
         else if length64 (fbio_range fbio) + blen > FUSION_MAX_SECTORS_PER_OS_RW_REQUEST then (1, fbio)
         else
           let (err, lsg) = kfio_sgl_map_bio (fbio_sgl fbio) (bi_vecs b);
               fbio = fbio\<lparr>fbio_sgl := lsg\<rparr>
           in if err \<noteq> 0 then (1, fbio)
              else (0, fbio\<lparr>fbio_range := (fbio_range fbio)\<lparr>length64 := length64 (fbio_range fbio) + blen\<rparr>\<rparr>))"

definition kfio_map_to_fbio :: "blk_env \<Rightarrow> addr \<Rightarrow> blk_state \<Rightarrow> kfio_bio option \<times> blk_state" where
  "kfio_map_to_fbio env a st =
     (let b = bios st a; c = blk_c env; bs = bdev_block_size (bdev env)
      in if bi_sector b * KERNEL_SECTOR_SIZE mod ucast bs \<noteq> 0 \<or> bi_size b mod bs \<noteq> 0 then (None, st)
         else
           let r = kfio_bio_alloc env (n_alloc st); st = st\<lparr>n_alloc := n_alloc st + 1\<rparr>
           in case r of
                None \<Rightarrow> (None, st)
              | Some fbio \<Rightarrow>
                  let fbio = fbio\<lparr>fbio_flags := 0,
                        fbio_range := \<lparr>base = linux_bio_get_bid (bdev env) b, length64 = linux_bio_get_blen (bdev env) b\<rparr>,
                        fbio_completor := Bio_completor, fbio_parameter := a, fbio_cpu := current_cpu env\<rparr>
                  in if kfio_bio_is_discard c b then (Some (fbio\<lparr>fbio_cmd := KBIO_CMD_DISCARD\<rparr>), st)
                     else
                       let fbio = (if bio_is_write c b
                                   then (let fbio = fbio\<lparr>fbio_cmd := KBIO_CMD_WRITE\<rparr>
                                         in if kfio_bio_sync_raw c b
                                            then fbio\<lparr>fbio_flags := fbio_flags fbio OR KBIO_FLG_SYNC\<rparr> else fbio)
                                   else fbio\<lparr>fbio_cmd := KBIO_CMD_READ\<rparr>);
                           (err, lsg) = kfio_sgl_map_bio (fbio_sgl fbio) (bi_vecs b)
                       in if err \<noteq> 0 then (None, st\<lparr>events := events st @ [Free_bio]\<rparr>)
                          else (Some (fbio\<lparr>fbio_sgl := lsg\<rparr>), st))"

definition submit :: "kfio_bio \<Rightarrow> blk_state \<Rightarrow> blk_state" where
  "submit fbio st = st\<lparr>events := events st @ [Submit fbio (bios st)]\<rparr>"

definition set_next :: "addr \<Rightarrow> addr \<Rightarrow> blk_state \<Rightarrow> blk_state" where
  "set_next a v st = st\<lparr>bios := (bios st)(a := (bios st a)\<lparr>bi_next := v\<rparr>)\<rparr>"

text \<open>
  The body of the loop of \<open>kfio_kickoff_plugged_io\<close> behind the two statements on \<open>bi_next\<close>, from and to the
  variables \<open>fbio\<close> and \<open>tail\<close>; then the loop, and the submission behind it.
\<close>

definition start_bio :: "blk_env \<Rightarrow> addr \<Rightarrow> addr \<Rightarrow> blk_state \<Rightarrow> kfio_bio option \<times> addr \<times> blk_state" where
  "start_bio env a tail st =
     (case kfio_map_to_fbio env a st of
        (None, st) \<Rightarrow> (None, tail, kfio_bio_complete_raw a (- EIO) st)
      | (Some f, st) \<Rightarrow> (Some f, a, st))"

definition kickoff_step ::
  "blk_env \<Rightarrow> addr \<Rightarrow> kfio_bio option \<Rightarrow> addr \<Rightarrow> blk_state \<Rightarrow> kfio_bio option \<times> addr \<times> blk_state" where
  "kickoff_step env a fbio tail st =
     (case fbio of
        None \<Rightarrow> start_bio env a tail st
      | Some f \<Rightarrow>
          let (r, f) = kfio_kbio_add_bio env f (bios st a)
          in if r = 0 then (Some f, a, if tail \<noteq> NULL then set_next tail a st else st)
             else start_bio env a NULL (submit f st))"

fun kickoff_loop :: "nat \<Rightarrow> blk_env \<Rightarrow> addr \<Rightarrow> kfio_bio option \<Rightarrow> addr \<Rightarrow> blk_state \<Rightarrow> blk_state option" where
  "kickoff_loop 0 env a fbio tail st = None"
| "kickoff_loop (Suc fuel) env a fbio tail st =
     (let nxt = bi_next (bios st a);
          (fbio, tail, st) = kickoff_step env a fbio tail (set_next a NULL st)
      in if nxt = NULL then Some (case fbio of None \<Rightarrow> st | Some f \<Rightarrow> submit f st)
         else kickoff_loop fuel env nxt fbio tail st)"

definition kfio_kickoff_plugged_io :: "nat \<Rightarrow> blk_env \<Rightarrow> addr \<Rightarrow> blk_state \<Rightarrow> blk_state option" where
  "kfio_kickoff_plugged_io fuel env a st = kickoff_loop fuel env a None NULL st"

subsection \<open>Chains of atomic writes\<close>

text \<open>\<open>kfio_bio_chain_count\<close>; its loop gives the error or the counts.\<close>

fun chain_count_loop :: "nat \<Rightarrow> blk_consts \<Rightarrow> (addr \<Rightarrow> bio) \<Rightarrow> addr \<Rightarrow> int \<Rightarrow> u64 \<Rightarrow> (int + int \<times> u64) option" where
  "chain_count_loop 0 c h a segments total_length = None"
| "chain_count_loop (Suc fuel) c h a segments total_length =
     (if a = NULL then Some (Inr (segments, total_length))
      else if \<not> kfio_bio_atomic_raw (h a) then Some (Inl (- EINVAL))
      else if kfio_bio_is_discard c (h a) then chain_count_loop fuel c h (bi_next (h a)) (segments + 1) total_length
      else if \<not> bio_is_write c (h a) then Some (Inl (- EINVAL))
      else chain_count_loop fuel c h (bi_next (h a)) (segments + 1) (total_length + ucast (bi_size (h a))))"

definition kfio_bio_chain_count :: "nat \<Rightarrow> blk_env \<Rightarrow> (addr \<Rightarrow> bio) \<Rightarrow> addr \<Rightarrow> int option" where
  "kfio_bio_chain_count fuel env h a =
     (case chain_count_loop fuel (blk_c env) h a 0 0 of
        None \<Rightarrow> None
      | Some (Inl e) \<Rightarrow> Some e
      | Some (Inr (segments, total_length)) \<Rightarrow>
          if segments > max_atomic_iovs env then Some (- EINVAL)
          else if total_length > word_of_int (max_atomic_total_write_size env) then Some (- EINVAL)
          else Some segments)"

text \<open>One request per bio; the list is the chain of requests linked by \<open>fbio_next\<close>.\<close>

fun kfio_bio_chain_to_fbio_chain :: "blk_env \<Rightarrow> (addr \<Rightarrow> bio) \<Rightarrow> kfio_bio list \<Rightarrow> addr \<Rightarrow> int \<times> kfio_bio list" where
  "kfio_bio_chain_to_fbio_chain env h [] a = (0, [])"
| "kfio_bio_chain_to_fbio_chain env h (f # fs) a =
     (if a = NULL then (0, f # fs)
      else
        let b = h a;
            f = f\<lparr>fbio_range := \<lparr>base = linux_bio_get_bid (bdev env) b, length64 = linux_bio_get_blen (bdev env) b\<rparr>,
                  fbio_flags := KBIO_FLG_ATOMIC\<rparr>
        in if kfio_bio_is_discard (blk_c env) b
           then (let (ret, fs) = kfio_bio_chain_to_fbio_chain env h fs (bi_next b)
                 in (ret, f\<lparr>fbio_cmd := KBIO_CMD_DISCARD\<rparr> # fs))
           else
             let (ret, lsg) = kfio_sgl_map_bio (fbio_sgl f) (bi_vecs b);
                 f = f\<lparr>fbio_cmd := KBIO_CMD_WRITE, fbio_sgl := lsg\<rparr>
             in if ret \<noteq> 0 then (ret, f # fs)
                else let (ret, fs) = kfio_bio_chain_to_fbio_chain env h fs (bi_next b) in (ret, f # fs))"

text \<open>A submission is recorded with the first request of the chain.\<close>

definition kfio_submit_atomic_chain :: "nat \<Rightarrow> blk_env \<Rightarrow> addr \<Rightarrow> blk_state \<Rightarrow> blk_state option" where
  "kfio_submit_atomic_chain fuel env a st =
     (case kfio_bio_chain_count fuel env (bios st) a of
        None \<Rightarrow> None
      | Some ret \<Rightarrow>
          if ret < 0 then map_option snd (complete_bio_chain fuel a ret st)
          else
            let r = kfio_bio_alloc_chain env (n_alloc st) ret; st = st\<lparr>n_alloc := n_alloc st + 1\<rparr>
            in (case r of
                  None \<Rightarrow> map_option snd (complete_bio_chain fuel a (- ENOMEM) st)
                | Some fbios \<Rightarrow>
                    let (ret, fbios) = kfio_bio_chain_to_fbio_chain env (bios st) fbios a
                    in if ret < 0
                       then map_option snd (complete_bio_chain fuel a ret (st\<lparr>events := events st @ [Free_bio]\<rparr>))
                       else Some (submit ((hd fbios)\<lparr>fbio_completor := Atomic_chain_completor, fbio_parameter := a\<rparr>) st)))"

subsection \<open>Plugging\<close>

definition kfio_bio_should_submit_now :: "blk_consts \<Rightarrow> bio \<Rightarrow> bool" where
  "kfio_bio_should_submit_now c b \<longleftrightarrow> bi_size b = 0 \<or> kfio_bio_is_discard c b"

datatype use_queue = USE_QUEUE_NONE | USE_QUEUE_RQ | USE_QUEUE_MQ

text \<open>The bio that \<open>kfio_add_bio_to_plugged_list\<close> returns, the plug and the heap after it.\<close>

definition kfio_add_bio_to_plugged_list ::
  "blk_consts \<Rightarrow> use_queue \<Rightarrow> kfio_plug \<Rightarrow> addr \<Rightarrow> blk_state \<Rightarrow> addr \<times> kfio_plug \<times> blk_state" where
  "kfio_add_bio_to_plugged_list c use_workqueue plug a st =
     (let (plug, st) = (if bio_tail plug \<noteq> NULL then (plug, set_next (bio_tail plug) a st)
                        else (plug\<lparr>bio_head := a\<rparr>, st));
          plug = plug\<lparr>bio_tail := a\<rparr>
      in if kfio_bio_should_submit_now c (bios st a) \<and> use_workqueue = USE_QUEUE_NONE
         then (bio_head plug, plug\<lparr>bio_head := NULL, bio_tail := NULL\<rparr>, st)
         else (NULL, plug, st))"

text \<open>\<open>kfio_unplug_do_cb\<close>: the plug is freed and its bios are started.\<close>

definition kfio_unplug_do_cb :: "nat \<Rightarrow> blk_env \<Rightarrow> kfio_plug \<Rightarrow> blk_state \<Rightarrow> blk_state option" where
  "kfio_unplug_do_cb fuel env plug st =
     (if bio_head plug \<noteq> NULL then kfio_kickoff_plugged_io fuel env (bio_head plug) st else Some st)"

text \<open>
  \<open>kfio_should_plug\<close>: the index of the task's plug for the disk, added when there is none;
  None when the bio is to be started at once.  \<open>mem\<close> says whether \<open>kmalloc\<close> succeeds.
\<close>

fun find_plug :: "addr \<Rightarrow> kfio_plug list \<Rightarrow> nat option" where
  "find_plug disk [] = None"
| "find_plug disk (p # ps) =
     (if cb_is_kfio p \<and> plug_disk p = disk then Some 0 else map_option Suc (find_plug disk ps))"

definition kfio_should_plug ::
  "use_queue \<Rightarrow> int \<Rightarrow> bool \<Rightarrow> addr \<Rightarrow> blk_state \<Rightarrow> nat option \<times> blk_state" where
  "kfio_should_plug use_workqueue dangerous_plugging_callback mem disk st =
     (if use_workqueue \<noteq> USE_QUEUE_NONE then (None, st)
      else if dangerous_plugging_callback = 1 then (None, st)
      else case cur_plug st of
             None \<Rightarrow> (None, st)
           | Some cbs \<Rightarrow>
               (case find_plug disk cbs of
                  Some i \<Rightarrow> (Some i, st)
                | None \<Rightarrow>
                    if \<not> mem then (None, st)
                    else (Some (length cbs),
                          st\<lparr>cur_plug := Some (cbs @ [\<lparr>cb_is_kfio = True, plug_disk = disk,
                            bio_head = NULL, bio_tail = NULL\<rparr>])\<rparr>)))"

text \<open>
  \<open>kfio_submit_bio\<close>.  \<open>unstalled\<close> is the result of \<open>holdoff_writes_under_pressure\<close> and
  \<open>split_bio\<close> the kernel's split to limits.
\<close>

definition kfio_submit_bio ::
  "nat \<Rightarrow> blk_env \<Rightarrow> use_queue \<Rightarrow> int \<Rightarrow> bool \<Rightarrow> addr \<Rightarrow> bool \<Rightarrow> (addr \<Rightarrow> addr) \<Rightarrow> addr \<Rightarrow> blk_state \<Rightarrow> blk_state option" where
  "kfio_submit_bio fuel env use_workqueue dangerous mem disk unstalled split_bio a st =
     (if bio_is_write (blk_c env) (bios st a) \<and> \<not> unstalled
      then Some (kfio_bio_complete_raw a (- EIO) st)
      else
        let a = split_bio a
        in if a = NULL then Some st
           else if bi_next (bios st a) \<noteq> NULL \<and> kfio_bio_atomic_raw (bios st a) \<and> bio_is_write (blk_c env) (bios st a)
           then kfio_submit_atomic_chain fuel env a st
           else case kfio_should_plug use_workqueue dangerous mem disk st of
                  (None, st) \<Rightarrow>
                    (case kfio_map_to_fbio env a st of
                       (Some fbio, st) \<Rightarrow> Some (submit fbio st)
                     | (None, st) \<Rightarrow> Some (kfio_bio_complete_raw a (- EIO) st))
                | (Some i, st) \<Rightarrow>
                    let cbs = the (cur_plug st);
                        (ret, plug, st) = kfio_add_bio_to_plugged_list (blk_c env) use_workqueue (cbs ! i) a st;
                        st = st\<lparr>cur_plug := Some (cbs[i := plug])\<rparr>
                    in if ret \<noteq> NULL then kfio_kickoff_plugged_io fuel env ret st else Some st)"

text \<open>A list of bios linked by \<open>bi_next\<close>, and the content of bios that the loops leave alone.\<close>

fun chained :: "(addr \<Rightarrow> bio) \<Rightarrow> addr \<Rightarrow> addr list \<Rightarrow> bool" where
  "chained h a [] \<longleftrightarrow> a = NULL"
| "chained h a (x # xs) \<longleftrightarrow> a = x \<and> x \<noteq> NULL \<and> chained h (bi_next (h x)) xs"

definition same_payload :: "(addr \<Rightarrow> bio) \<Rightarrow> (addr \<Rightarrow> bio) \<Rightarrow> bool" where
  "same_payload h h' \<longleftrightarrow> (\<forall>a. bi_sector (h a) = bi_sector (h' a) \<and> bi_size (h a) = bi_size (h' a) \<and>
     bi_opf (h a) = bi_opf (h' a) \<and> bi_vecs (h a) = bi_vecs (h' a))"

definition bio_cmd :: "blk_consts \<Rightarrow> bio \<Rightarrow> kbio_cmd" where
  "bio_cmd c b = (if kfio_bio_is_discard c b then KBIO_CMD_DISCARD
     else if bio_is_write c b then KBIO_CMD_WRITE else KBIO_CMD_READ)"

definition bio_bytes :: "bio \<Rightarrow> (addr \<times> nat) list" where
  "bio_bytes b = concat (map vec_bytes (bi_vecs b))"

text \<open>The blocks of the bios follow each other from \<open>start\<close> on and end before \<open>stop\<close>.\<close>

fun contiguous :: "fio_bdev \<Rightarrow> (addr \<Rightarrow> bio) \<Rightarrow> u64 \<Rightarrow> addr list \<Rightarrow> u64 \<Rightarrow> bool" where
  "contiguous d h start [] stop \<longleftrightarrow> start = stop"
| "contiguous d h start (a # g) stop \<longleftrightarrow>
     linux_bio_get_bid d (h a) = start \<and> contiguous d h (start + linux_bio_get_blen d (h a)) g stop"

definition describes :: "blk_env \<Rightarrow> (addr \<Rightarrow> bio) \<Rightarrow> kfio_bio \<Rightarrow> addr list \<Rightarrow> bool" where
  "describes env h f g \<longleftrightarrow>
     (\<forall>a\<in>set g. bio_cmd (blk_c env) (h a) = fbio_cmd f) \<and>
     contiguous (bdev env) h (base (fbio_range f)) g (fio_range_upper_bound (fbio_range f)) \<and>
     (fbio_cmd f = KBIO_CMD_DISCARD \<or>
        sgl_wf (fbio_sgl f) \<and> max_entries (fbio_sgl f) < 0x80000000 \<and>
        sgl_bytes (fbio_sgl f) = concat (map (\<lambda>a. bio_bytes (h a)) g))"

definition bio_ok :: "bio \<Rightarrow> bool" where
  "bio_ok b \<longleftrightarrow> (\<forall>v\<in>set (bi_vecs b). vec_ok v) \<and> length (bi_vecs b) < 2 ^ 31"

definition fresh_alloc :: "blk_env \<Rightarrow> bool" where
  "fresh_alloc env \<longleftrightarrow> (\<forall>n f. kfio_bio_alloc env n = Some f \<longrightarrow>
     sgl_wf (fbio_sgl f) \<and> num_entries (fbio_sgl f) = 0 \<and> max_entries (fbio_sgl f) < 0x80000000)"

subsection \<open>What a request describes\<close>

lemma contiguous_snoc:
  "contiguous d h start (g @ [a]) stop \<longleftrightarrow>
     (\<exists>mid. contiguous d h start g mid \<and> linux_bio_get_bid d (h a) = mid \<and> stop = mid + linux_bio_get_blen d (h a))"
  by (induction g arbitrary: start) auto

lemma payload_fields:
  assumes "same_payload h h'"
  shows "linux_bio_get_bid d (h a) = linux_bio_get_bid d (h' a)" "linux_bio_get_blen d (h a) = linux_bio_get_blen d (h' a)"
    "kfio_bio_is_discard c (h a) = kfio_bio_is_discard c (h' a)" "bio_is_write c (h a) = bio_is_write c (h' a)"
    "bi_vecs (h a) = bi_vecs (h' a)"
  using assms by (simp_all add: same_payload_def linux_bio_get_bid_def linux_bio_get_blen_def
      kfio_bio_is_discard_def bio_is_write_def bio_op_def)

lemma payload_frames [simp]:
  "same_payload (bios (set_next a v st)) h = same_payload (bios st) h"
  "same_payload (bios (kfio_bio_complete_raw a e st)) h = same_payload (bios st) h"
  "same_payload (bios (submit f st)) h = same_payload (bios st) h"
  by (auto simp: same_payload_def set_next_def kfio_bio_complete_raw_def submit_def)

text \<open>Adding the segments of a bio to the list of a request.\<close>

lemma map_bio_request:
  assumes "sgl_wf lsg" and "max_entries lsg < 0x80000000" and "bio_ok b"
    and "kfio_sgl_map_bio lsg (bi_vecs b) = (rc, lsg')"
  shows "sgl_wf lsg' \<and> max_entries lsg' < 0x80000000 \<and>
    sgl_bytes lsg' = (if rc = 0 then sgl_bytes lsg @ bio_bytes b else sgl_bytes lsg)"
proof -
  have "unat (max_entries lsg) < 2 ^ 31" "unat (num_entries lsg) \<le> unat (max_entries lsg)"
    using assms(1,2) by (simp_all add: sgl_wf_def word_less_nat_alt word_le_nat_alt)
  then have "unat (num_entries lsg) + length (bi_vecs b) < 2 ^ 32" using assms(3) by (simp add: bio_ok_def)
  from map_bio_result [OF assms(1) this] show ?thesis
    using assms(2-4) by (auto simp: bio_ok_def bio_bytes_def sgl_bytes_def)
qed

lemma add_bio_describes:
  assumes "describes env h f g" and "same_payload h' h" and "bio_ok (h a)"
    and "kfio_kbio_add_bio env f (h' a) = (r, f')"
  shows "describes env h f' (if r = 0 then g @ [a] else g) \<and>
    fbio_parameter f' = fbio_parameter f \<and> fbio_completor f' = fbio_completor f"
proof -
  note p = payload_fields [OF assms(2)]
  obtain err lsg where m: "kfio_sgl_map_bio (fbio_sgl f) (bi_vecs (h a)) = (err, lsg)" by fastforce
  have w: "fbio_cmd f \<noteq> KBIO_CMD_DISCARD \<Longrightarrow> sgl_wf lsg \<and> max_entries lsg < 0x80000000 \<and>
      sgl_bytes lsg = (if err = 0 then sgl_bytes (fbio_sgl f) @ bio_bytes (h a) else sgl_bytes (fbio_sgl f))"
    using map_bio_request [OF _ _ assms(3) m] assms(1) by (auto simp: describes_def)
  consider "f' = f" "r \<noteq> 0" | "f' = f\<lparr>fbio_sgl := lsg\<rparr>" "r \<noteq> 0" "err \<noteq> 0" "fbio_cmd f \<noteq> KBIO_CMD_DISCARD"
    | "f' = f\<lparr>fbio_sgl := lsg, fbio_range := (fbio_range f)\<lparr>length64 := length64 (fbio_range f) + linux_bio_get_blen (bdev env) (h a)\<rparr>\<rparr>"
      "r = 0" "err = 0" "bio_cmd (blk_c env) (h a) = fbio_cmd f" "fbio_cmd f \<noteq> KBIO_CMD_DISCARD"
      "fio_range_upper_bound (fbio_range f) = linux_bio_get_bid (bdev env) (h a)"
    using assms(4) m by (auto simp: kfio_kbio_add_bio_def Let_def p bio_cmd_def split: if_splits)
  then show ?thesis
  proof cases
    case 3
    then show ?thesis using assms(1) w
      by (auto simp: describes_def contiguous_snoc fio_range_upper_bound_def)
  qed (use assms(1) w in \<open>auto simp: describes_def\<close>)
qed

lemma map_to_fbio_describes:
  assumes "fresh_alloc env" and "same_payload (bios st) h" and "bio_ok (h a)"
    and "kfio_map_to_fbio env a st = (r, st')"
  shows "bios st' = bios st \<and>
    (case r of None \<Rightarrow> events st' = events st \<or> events st' = events st @ [Free_bio]
     | Some f \<Rightarrow> events st' = events st \<and> describes env h f [a] \<and> fbio_parameter f = a \<and> fbio_completor f = Bio_completor)"
proof -
  note p = payload_fields [OF assms(2)]
  show ?thesis
  proof (cases "kfio_bio_alloc env (n_alloc st)")
    case None
    then show ?thesis using assms(4) by (auto simp: kfio_map_to_fbio_def Let_def split: if_splits)
  next
    case (Some f0)
    then have f0: "sgl_wf (fbio_sgl f0)" "sgl_bytes (fbio_sgl f0) = []" "max_entries (fbio_sgl f0) < 0x80000000"
      using assms(1) by (auto simp: fresh_alloc_def sgl_bytes_def entries_def)
    obtain err lsg where m: "kfio_sgl_map_bio (fbio_sgl f0) (bi_vecs (h a)) = (err, lsg)" by fastforce
    note w = map_bio_request [OF f0(1,3) assms(3) m]
    show ?thesis using assms(4) Some m w f0
      by (auto simp: kfio_map_to_fbio_def Let_def p describes_def bio_cmd_def fio_range_upper_bound_def split: if_splits)
  qed
qed

text \<open>Which bios an event accounts for.\<close>

fun accounts :: "blk_env \<Rightarrow> (addr \<Rightarrow> bio) \<Rightarrow> blk_event \<Rightarrow> addr list \<Rightarrow> bool" where
  "accounts env h0 (Endio a e) g \<longleftrightarrow> g = [a] \<and> e = - EIO"
| "accounts env h0 (Submit f h) g \<longleftrightarrow> g \<noteq> [] \<and> chained h (fbio_parameter f) g \<and>
     fbio_completor f = Bio_completor \<and> describes env h0 f g"
| "accounts env h0 Free_bio g \<longleftrightarrow> g = []"

text \<open>The bios of a submitted request are left alone afterwards.\<close>

fun left_alone :: "(addr \<Rightarrow> bio) \<Rightarrow> blk_event \<Rightarrow> addr list \<Rightarrow> bool" where
  "left_alone h' (Submit f h) g \<longleftrightarrow> (\<forall>a\<in>set g. h' a = h a)"
| "left_alone h' _ g \<longleftrightarrow> True"

text \<open>The request under construction.\<close>

definition open_request :: "blk_env \<Rightarrow> (addr \<Rightarrow> bio) \<Rightarrow> (addr \<Rightarrow> bio) \<Rightarrow> kfio_bio option \<Rightarrow> addr \<Rightarrow> addr list \<Rightarrow> bool" where
  "open_request env h0 h fbio tail g \<longleftrightarrow>
     (case fbio of
        None \<Rightarrow> g = [] \<and> tail = NULL
      | Some f \<Rightarrow> g \<noteq> [] \<and> tail = last g \<and> chained h (fbio_parameter f) g \<and>
          fbio_completor f = Bio_completor \<and> describes env h0 f g)"

subsection \<open>Every bio exactly once\<close>

lemma chained_cong: "(\<And>x. x \<in> set xs \<Longrightarrow> h' x = h x) \<Longrightarrow> chained h' a xs = chained h a xs"
  by (induction xs arbitrary: a) auto

lemma chained_nonnull: "chained h a xs \<Longrightarrow> x \<in> set xs \<Longrightarrow> x \<noteq> NULL"
  by (induction xs arbitrary: a) auto

lemma chained_link:
  "chained h p g \<Longrightarrow> g \<noteq> [] \<Longrightarrow> distinct (g @ [a]) \<Longrightarrow> a \<noteq> NULL \<Longrightarrow> bi_next (h a) = NULL \<Longrightarrow>
   chained (h(last g := (h (last g))\<lparr>bi_next := a\<rparr>)) p (g @ [a])"
proof (induction g arbitrary: p)
  case (Cons x g)
  show ?case
  proof (cases "g = []")
    case False
    then have "last g \<noteq> x" using Cons.prems(3) last_in_set by fastforce
    then show ?thesis using Cons False by simp
  qed (use Cons.prems in auto)
qed simp

lemma start_bio_accounts:
  assumes "fresh_alloc env" and "same_payload (bios st) h0" and "bio_ok (h0 a)" and "a \<noteq> NULL"
    and "bi_next (bios st a) = NULL"
  shows "case start_bio env a NULL st of (fbio, tail, st') \<Rightarrow>
    \<exists>evs gs g. events st' = events st @ evs \<and> list_all2 (accounts env h0) evs gs \<and> concat gs @ g = [a] \<and>
      open_request env h0 (bios st') fbio tail g \<and> same_payload (bios st') h0 \<and>
      (\<forall>y. y \<noteq> a \<longrightarrow> bios st' y = bios st y) \<and> list_all2 (left_alone h') evs gs"
proof -
  obtain r st1 where m: "kfio_map_to_fbio env a st = (r, st1)" by fastforce
  note d = map_to_fbio_describes [OF assms(1-3) m]
  show ?thesis
  proof (cases r)
    case None
    then obtain pre where pre: "events st1 = events st @ pre" "pre = [] \<or> pre = [Free_bio]" using d by auto
    let ?gs = "map (\<lambda>_. []) pre @ [[a]]"
    have "list_all2 (accounts env h0) (pre @ [Endio a (- EIO)]) ?gs" "list_all2 (left_alone h') (pre @ [Endio a (- EIO)]) ?gs"
      using pre(2) by auto
    moreover have "concat ?gs = [a]" by (simp add: comp_def)
    ultimately show ?thesis using None m pre d assms(2)
      by (simp add: start_bio_def open_request_def)
        (intro exI [of _ "pre @ [Endio a (- EIO)]"] exI [of _ ?gs] conjI, auto simp: kfio_bio_complete_raw_def)
  next
    case (Some f)
    then have "open_request env h0 (bios st1) (Some f) a [a]"
      using d assms(4,5) by (simp add: open_request_def)
    then show ?thesis using Some m d assms(2)
      by (simp add: start_bio_def)
  qed
qed

lemma kickoff_step_accounts:
  assumes env: "fresh_alloc env" and pay: "same_payload (bios st) h0" and ok: "bio_ok (h0 a)" and a: "a \<noteq> NULL"
    and o: "open_request env h0 (bios st) fbio tail g" and dist: "distinct (g @ [a])"
    and n: "bi_next (bios st a) = NULL"
  shows "case kickoff_step env a fbio tail st of (fbio', tail', st') \<Rightarrow>
    \<exists>evs gs g'. events st' = events st @ evs \<and> list_all2 (accounts env h0) evs gs \<and> concat gs @ g' = g @ [a] \<and>
      open_request env h0 (bios st') fbio' tail' g' \<and> same_payload (bios st') h0 \<and>
      (\<forall>y. y \<notin> set (g @ [a]) \<longrightarrow> bios st' y = bios st y) \<and> list_all2 (left_alone (bios st')) evs gs"
proof (cases fbio)
  case None
  then have "g = []" "tail = NULL" using o by (simp_all add: open_request_def)
  then show ?thesis using start_bio_accounts [OF env pay ok a n] None
    by (fastforce simp: kickoff_step_def split: prod.splits)
next
  case (Some f)
  then have f: "g \<noteq> []" "tail = last g" "chained (bios st) (fbio_parameter f) g" "fbio_completor f = Bio_completor" "describes env h0 f g"
    using o by (simp_all add: open_request_def)
  obtain r f' where r: "kfio_kbio_add_bio env f (bios st a) = (r, f')" by fastforce
  note d = add_bio_describes [OF f(5) pay ok r]
  show ?thesis
  proof (cases "r = 0")
    case True
    have "tail \<noteq> NULL" using f chained_nonnull [OF f(3)] by simp
    moreover have "chained (bios (set_next tail a st)) (fbio_parameter f') (g @ [a])"
      using chained_link [OF f(3,1) dist a n] d f(2) by (simp add: set_next_def)
    moreover have "bios (set_next tail a st) y = bios st y" if "y \<notin> set g" for y
      using that f(1,2) by (auto simp: set_next_def)
    ultimately show ?thesis using True Some r d f pay
      by (simp add: kickoff_step_def)
        (intro exI [of _ "[]"], simp add: open_request_def, simp add: set_next_def)
  next
    case False
    let ?s = "submit f' st"
    have b: "bios ?s = bios st" "events ?s = events st @ [Submit f' (bios st)]" by (simp_all add: submit_def)
    obtain fb t st' where s: "start_bio env a NULL ?s = (fb, t, st')" by (cases "start_bio env a NULL ?s") auto
    have n': "bi_next (bios ?s a) = NULL" and pay': "same_payload (bios ?s) h0" using n pay b by simp_all
    obtain evs gs g' where e: "events st' = events ?s @ evs" "list_all2 (accounts env h0) evs gs" "concat gs @ g' = [a]"
      "open_request env h0 (bios st') fb t g'" "same_payload (bios st') h0" "\<forall>y. y \<noteq> a \<longrightarrow> bios st' y = bios ?s y"
      "list_all2 (left_alone (bios st')) evs gs"
      using start_bio_accounts [OF env pay' ok a n', of "bios st'"] s by auto
    have "accounts env h0 (Submit f' (bios st)) g" using f d False by simp
    moreover have "left_alone (bios st') (Submit f' (bios st)) g" using e(6) b dist by auto
    ultimately show ?thesis using e b s r Some False
      by (simp add: kickoff_step_def)
        (intro exI [of _ "Submit f' (bios st) # evs"] exI [of _ "g # gs"], auto)
  qed
qed

lemma left_alone_later:
  assumes "list_all2 (left_alone h) evs gs" and "\<And>y. y \<in> set (concat gs) \<Longrightarrow> h' y = h y"
  shows "list_all2 (left_alone h') evs gs"
  using assms
proof (induction rule: list_all2_induct)
  case (Cons e evs g gs)
  then show ?case by (cases e) auto
qed simp

lemma kickoff_loop_accounts:
  assumes env: "fresh_alloc env"
  shows "same_payload (bios st) h0 \<Longrightarrow> \<forall>x\<in>set xs. bio_ok (h0 x) \<Longrightarrow> chained (bios st) a xs \<Longrightarrow> xs \<noteq> [] \<Longrightarrow>
    open_request env h0 (bios st) fbio tail g \<Longrightarrow> distinct (g @ xs) \<Longrightarrow> length xs \<le> fuel \<Longrightarrow>
    \<exists>st' evs gs. kickoff_loop fuel env a fbio tail st = Some st' \<and> events st' = events st @ evs \<and>
      list_all2 (accounts env h0) evs gs \<and> concat gs = g @ xs \<and> list_all2 (left_alone (bios st')) evs gs \<and>
      (\<forall>y. y \<notin> set (g @ xs) \<longrightarrow> bios st' y = bios st y)"
proof (induction xs arbitrary: a fbio tail st g fuel)
  case (Cons x xs)
  obtain f where f: "fuel = Suc f" "length xs \<le> f" using Cons.prems(7) by (cases fuel) auto
  have x: "a = x" "x \<noteq> NULL" "chained (bios st) (bi_next (bios st x)) xs" using Cons.prems(3) by simp_all
  let ?s = "set_next x NULL st"
  have sb: "bios ?s y = bios st y" if "y \<noteq> x" for y using that by (simp add: set_next_def)
  have xg: "x \<notin> set g" and xxs: "x \<notin> set xs" and dg: "distinct (g @ [x])" using Cons.prems(6) by auto
  have "chained (bios ?s) p g = chained (bios st) p g" for p
    by (rule chained_cong, rule sb) (use xg in blast)
  then have o: "open_request env h0 (bios ?s) fbio tail g"
    using Cons.prems(5) by (auto simp: open_request_def split: option.splits)
  have n: "bi_next (bios ?s x) = NULL" by (simp add: set_next_def)
  have pay: "same_payload (bios ?s) h0" using Cons.prems(1) by simp
  have ok: "bio_ok (h0 x)" using Cons.prems(2) by simp
  obtain fb t s1 where s1: "kickoff_step env x fbio tail ?s = (fb, t, s1)" by (cases "kickoff_step env x fbio tail ?s") auto
  obtain evs gs g' where e: "events s1 = events ?s @ evs" "list_all2 (accounts env h0) evs gs" "concat gs @ g' = g @ [x]"
    "open_request env h0 (bios s1) fb t g'" "same_payload (bios s1) h0" "\<forall>y. y \<notin> set (g @ [x]) \<longrightarrow> bios s1 y = bios ?s y"
    "list_all2 (left_alone (bios s1)) evs gs"
    using kickoff_step_accounts [OF env pay ok x(2) o dg n] s1 by auto
  have ev: "events ?s = events st" by (simp add: set_next_def)
  have all: "concat gs @ g' @ xs = g @ x # xs" using e(3) by (metis append.assoc append_Cons append_Nil)
  have dall: "distinct (concat gs @ g' @ xs)" unfolding all by (rule Cons.prems(6))
  show ?case
  proof (cases "xs = []")
    case True
    then have run: "kickoff_loop fuel env a fbio tail st = Some (case fb of None \<Rightarrow> s1 | Some q \<Rightarrow> submit q s1)"
      using x s1 f by simp
    show ?thesis
    proof (cases fb)
      case None
      then have "g' = []" using e(4) by (simp add: open_request_def)
      then show ?thesis using None run e all ev sb True by (intro exI [of _ s1] exI [of _ evs] exI [of _ gs]) simp
    next
      case (Some q)
      then have q: "accounts env h0 (Submit q (bios s1)) g'" using e(4) by (simp add: open_request_def)
      have sub: "bios (submit q s1) = bios s1" "events (submit q s1) = events s1 @ [Submit q (bios s1)]"
        by (simp_all add: submit_def)
      show ?thesis using Some run q e all ev sb True sub
        by (intro exI [of _ "submit q s1"] exI [of _ "evs @ [Submit q (bios s1)]"] exI [of _ "gs @ [g']"])
          (simp add: list_all2_appendI)
    qed
  next
    case False
    have outside: "bios s1 y = bios st y" if "y \<noteq> x" "y \<notin> set g" for y using that e(6) sb [OF that(1)] by simp
    have "bios s1 y = bios st y" if "y \<in> set xs" for y
      by (rule outside) (use that xxs Cons.prems(6) in auto)
    then have ch: "chained (bios s1) (bi_next (bios st x)) xs" using chained_cong [of xs "bios s1" "bios st"] x(3) by simp
    then have "bi_next (bios st x) \<noteq> NULL" using False by (cases xs) auto
    then have run: "kickoff_loop fuel env a fbio tail st = kickoff_loop f env (bi_next (bios st x)) fb t s1"
      using x s1 f by simp
    have "distinct (g' @ xs)" using dall by simp
    from Cons.IH [OF e(5) _ ch False e(4) this f(2)] Cons.prems(2)
    obtain st' evs2 gs2 where i: "kickoff_loop f env (bi_next (bios st x)) fb t s1 = Some st'" "events st' = events s1 @ evs2"
      "list_all2 (accounts env h0) evs2 gs2" "concat gs2 = g' @ xs" "list_all2 (left_alone (bios st')) evs2 gs2"
      "\<forall>y. y \<notin> set (g' @ xs) \<longrightarrow> bios st' y = bios s1 y" by auto
    have "list_all2 (left_alone (bios st')) evs gs"
      by (rule left_alone_later [OF e(7)]) (use i(6) dall in auto)
    moreover have "bios st' y = bios st y" if "y \<notin> set (g @ x # xs)" for y
    proof -
      have "y \<notin> set (g' @ xs)" using that unfolding all [symmetric] by simp
      then show ?thesis using i(6) outside that by simp
    qed
    ultimately show ?thesis using run i e all ev
      by (intro exI [of _ st'] exI [of _ "evs @ evs2"] exI [of _ "gs @ gs2"]) (simp add: list_all2_appendI)
  qed
qed simp

definition plugged :: "(addr \<Rightarrow> bio) \<Rightarrow> kfio_plug \<Rightarrow> addr list \<Rightarrow> bool" where
  "plugged h plug xs \<longleftrightarrow> chained h (bio_head plug) xs \<and> bio_tail plug = (if xs = [] then NULL else last xs)"

text \<open>The bios that wait in the current task's plug for a disk.\<close>

definition waiting :: "blk_state \<Rightarrow> addr \<Rightarrow> addr list \<Rightarrow> bool" where
  "waiting st disk xs \<longleftrightarrow>
     (case cur_plug st of None \<Rightarrow> xs = []
      | Some cbs \<Rightarrow> (case find_plug disk cbs of None \<Rightarrow> xs = [] | Some i \<Rightarrow> plugged (bios st) (cbs ! i) xs))"

subsection \<open>The plugged list\<close>

lemma plugged_empty: "bio_head p = NULL \<Longrightarrow> bio_tail p = NULL \<Longrightarrow> plugged h p []"
  by (simp add: plugged_def)

lemma add_plugged:
  assumes p: "plugged (bios st) plug xs" and a: "a \<noteq> NULL" "a \<notin> set xs" "bi_next (bios st a) = NULL" and d: "distinct xs"
    and r: "kfio_add_bio_to_plugged_list c uw plug a st = (ret, plug', st')"
  shows "events st' = events st \<and> cur_plug st' = cur_plug st \<and> same_payload (bios st') (bios st) \<and>
    cb_is_kfio plug' = cb_is_kfio plug \<and> plug_disk plug' = plug_disk plug \<and>
    (if kfio_bio_should_submit_now c (bios st a) \<and> uw = USE_QUEUE_NONE
     then chained (bios st') ret (xs @ [a]) \<and> plugged (bios st') plug' []
     else ret = NULL \<and> plugged (bios st') plug' (xs @ [a]))"
proof -
  define st1 where "st1 = (if bio_tail plug \<noteq> NULL then set_next (bio_tail plug) a st else st)"
  define hd1 where "hd1 = (if bio_tail plug \<noteq> NULL then bio_head plug else a)"
  have t: "bio_tail plug = NULL \<longleftrightarrow> xs = []"
    using p chained_nonnull [of "bios st" "bio_head plug" xs] by (auto simp: plugged_def)
  have ch: "chained (bios st1) hd1 (xs @ [a])"
  proof (cases "xs = []")
    case False
    have "chained ((bios st)(last xs := (bios st (last xs))\<lparr>bi_next := a\<rparr>)) (bio_head plug) (xs @ [a])"
      by (rule chained_link) (use p a d False in \<open>auto simp: plugged_def\<close>)
    then show ?thesis using p t False by (simp add: plugged_def st1_def hd1_def set_next_def)
  qed (use t a in \<open>simp add: st1_def hd1_def\<close>)
  have "bi_size (bios st1 a) = bi_size (bios st a)" "bi_opf (bios st1 a) = bi_opf (bios st a)"
    by (simp_all add: st1_def set_next_def)
  then have now: "kfio_bio_should_submit_now c (bios st1 a) = kfio_bio_should_submit_now c (bios st a)"
    by (simp add: kfio_bio_should_submit_now_def kfio_bio_is_discard_def bio_op_def)
  have "same_payload (bios st) (bios st)" by (simp add: same_payload_def)
  then have fr: "same_payload (bios st1) (bios st)" "events st1 = events st" "cur_plug st1 = cur_plug st"
    by (simp_all add: st1_def set_next_def same_payload_def)
  have "kfio_add_bio_to_plugged_list c uw plug a st =
      (if kfio_bio_should_submit_now c (bios st1 a) \<and> uw = USE_QUEUE_NONE
       then (hd1, plug\<lparr>bio_head := NULL, bio_tail := NULL\<rparr>, st1) else (NULL, plug\<lparr>bio_head := hd1, bio_tail := a\<rparr>, st1))"
    by (simp add: kfio_add_bio_to_plugged_list_def st1_def hd1_def Let_def)
  then show ?thesis using r ch fr now by (auto simp: plugged_def split: if_splits)
qed

lemma find_plug_Some: "find_plug disk ps = Some i \<Longrightarrow> i < length ps \<and> cb_is_kfio (ps ! i) \<and> plug_disk (ps ! i) = disk"
  by (induction ps arbitrary: i) (auto split: if_splits)

lemma find_plug_update:
  "find_plug disk ps = Some i \<Longrightarrow> cb_is_kfio p \<Longrightarrow> plug_disk p = disk \<Longrightarrow> find_plug disk (ps[i := p]) = Some i"
  by (induction ps arbitrary: i) (auto split: if_splits)

lemma find_plug_new:
  "find_plug disk ps = None \<Longrightarrow> cb_is_kfio p \<Longrightarrow> plug_disk p = disk \<Longrightarrow> find_plug disk (ps @ [p]) = Some (length ps)"
  by (induction ps) (auto split: if_splits)

lemma should_plug_waiting:
  assumes "waiting st disk xs" and "dangerous \<noteq> 1"
    and "kfio_should_plug USE_QUEUE_NONE dangerous mem disk st = (r, st')"
  shows "bios st' = bios st \<and> events st' = events st \<and>
    (case r of None \<Rightarrow> xs = [] \<and> cur_plug st' = cur_plug st
     | Some i \<Rightarrow> \<exists>cbs. cur_plug st' = Some cbs \<and> find_plug disk cbs = Some i \<and> plugged (bios st') (cbs ! i) xs)"
  using assms
  by (auto simp: kfio_should_plug_def waiting_def plugged_empty find_plug_new nth_append split: option.splits if_splits)

lemma kickoff_payload:
  "fresh_alloc env \<Longrightarrow> same_payload (bios st) h0 \<Longrightarrow> \<forall>x\<in>set xs. bio_ok (h0 x) \<Longrightarrow> chained (bios st) a xs \<Longrightarrow> xs \<noteq> [] \<Longrightarrow>
   distinct xs \<Longrightarrow> length xs \<le> fuel \<Longrightarrow>
   \<exists>st' evs gs. kfio_kickoff_plugged_io fuel env a st = Some st' \<and> events st' = events st @ evs \<and>
     list_all2 (accounts env h0) evs gs \<and> concat gs = xs \<and> list_all2 (left_alone (bios st')) evs gs"
  using kickoff_loop_accounts [of env st h0 xs a None NULL "[]" fuel]
  by (auto simp: kfio_kickoff_plugged_io_def open_request_def)

text \<open>
  C13: when a plug is flushed, kfio_unplug_do_cb accounts for every bio of the plugged list exactly
  once and in the order of the list: it is ended with -EIO or belongs to one submitted request.  A
  submitted request is linked from its first bio, covers contiguous blocks from the base of its range
  to its upper bound, has the direction of its bios, and its scatter-gather list describes the
  bytes of exactly these bios; and its bios are not touched any more after the submission.
\<close>

theorem kfio_unplug_exactly_once:
  assumes "fresh_alloc env" and "plugged (bios st) plug xs" and "distinct xs"
    and "\<forall>x\<in>set xs. bio_ok (bios st x)" and "length xs \<le> fuel"
  shows "\<exists>st' evs gs. kfio_unplug_do_cb fuel env plug st = Some st' \<and> events st' = events st @ evs \<and>
    list_all2 (accounts env (bios st)) evs gs \<and> concat gs = xs \<and> list_all2 (left_alone (bios st')) evs gs"
proof (cases "xs = []")
  case True
  then show ?thesis using assms(2) by (simp add: plugged_def kfio_unplug_do_cb_def)
next
  case False
  have ch: "chained (bios st) (bio_head plug) xs" using assms(2) by (simp add: plugged_def)
  then have "bio_head plug \<noteq> NULL" using False by (cases xs) auto
  moreover have "same_payload (bios st) (bios st)" by (simp add: same_payload_def)
  ultimately show ?thesis using kickoff_payload [OF assms(1) _ assms(4) ch False assms(3,5)]
    by (simp add: kfio_unplug_do_cb_def)
qed

lemma map_to_fbio_plug: "cur_plug (snd (kfio_map_to_fbio env a st)) = cur_plug st"
  by (auto simp: kfio_map_to_fbio_def Let_def split: option.splits prod.splits)

lemma kickoff_step_plug: "cur_plug (snd (snd (kickoff_step env a fbio tail st))) = cur_plug st"
proof -
  have "cur_plug (snd (snd (start_bio env a t s))) = cur_plug s" for t s
    using map_to_fbio_plug [of env a s] by (auto simp: start_bio_def kfio_bio_complete_raw_def split: option.splits prod.splits)
  then show ?thesis by (auto simp: kickoff_step_def submit_def set_next_def Let_def split: option.splits prod.splits)
qed

lemma kickoff_loop_plug: "kickoff_loop fuel env a fbio tail st = Some st' \<Longrightarrow> cur_plug st' = cur_plug st"
proof (induction fuel arbitrary: a fbio tail st)
  case (Suc fuel)
  obtain f t s where k: "kickoff_step env a fbio tail (set_next a NULL st) = (f, t, s)"
    by (cases "kickoff_step env a fbio tail (set_next a NULL st)") auto
  then have "cur_plug s = cur_plug st"
    using kickoff_step_plug [of env a fbio tail "set_next a NULL st"] by (simp add: set_next_def)
  then show ?case using Suc k by (auto simp: submit_def Let_def split: if_splits option.splits)
qed simp

lemma submit_now_accounts:
  assumes env: "fresh_alloc env"
    and a: "a \<noteq> NULL" "bi_next (bios st a) = NULL" and ok: "\<forall>x\<in>set [a]. bio_ok (bios st x)"
    and sp: "bios s1 = bios st" "events s1 = events st"
    and s1: "kfio_should_plug USE_QUEUE_NONE dangerous mem disk st = (None, s1)"
    and c1: "cur_plug s1 = cur_plug st" and w: "waiting st disk []"
  shows "\<exists>st' evs gs xs'. kfio_submit_bio fuel env USE_QUEUE_NONE dangerous mem disk True (\<lambda>x. x) a st = Some st' \<and>
    events st' = events st @ evs \<and> list_all2 (accounts env (bios st)) evs gs \<and>
    waiting st' disk xs' \<and> concat gs @ xs' = [a]"
proof -
  have pay: "same_payload (bios s1) (bios st)" using sp by (simp add: same_payload_def)
  let ?r = "start_bio env a NULL s1"
  obtain f t s2 where s2: "?r = (f, t, s2)" by (cases ?r) auto
  obtain evs gs g where e: "events s2 = events s1 @ evs" "list_all2 (accounts env (bios st)) evs gs"
    "concat gs @ g = [a]" "open_request env (bios st) (bios s2) f t g"
    using start_bio_accounts [OF env pay _ a(1), of "bios s1"] ok a(2) sp s2 by auto
  have c2: "cur_plug s2 = cur_plug st"
    using kickoff_step_plug [of env a None NULL s1] s2 c1 by (simp add: kickoff_step_def)
  have sub: "kfio_submit_bio fuel env USE_QUEUE_NONE dangerous mem disk True (\<lambda>x. x) a st =
      Some (case f of None \<Rightarrow> s2 | Some q \<Rightarrow> submit q s2)"
    using s1 s2 a(1) by (auto simp: kfio_submit_bio_def kfio_bio_atomic_raw_def start_bio_def split: prod.splits option.splits)
  have wt: "waiting s disk []" if "cur_plug s = cur_plug st" for s
    using w that by (auto simp: waiting_def plugged_def split: option.splits)
  show ?thesis
  proof (cases f)
    case N: None
    then have "g = []" using e(4) by (simp add: open_request_def)
    then show ?thesis using N sub e sp c2 wt [of s2] by (intro exI [of _ s2]) auto
  next
    case (Some q)
    then have q: "accounts env (bios st) (Submit q (bios s2)) g" using e(4) by (simp add: open_request_def)
    show ?thesis using Some sub e sp c2 q wt [of "submit q s2"]
      by (intro exI [of _ "submit q s2"] exI [of _ "evs @ [Submit q (bios s2)]"] exI [of _ "gs @ [g]"] exI [of _ "[]"])
        (simp add: submit_def list_all2_appendI)
  qed
qed

lemma submit_queue_accounts:
  assumes env: "fresh_alloc env" and d: "distinct (xs @ [a])"
    and a: "a \<noteq> NULL" "bi_next (bios st a) = NULL" and ok: "\<forall>x\<in>set (xs @ [a]). bio_ok (bios st x)"
    and sp: "bios s1 = bios st" "events s1 = events st"
    and s1: "kfio_should_plug USE_QUEUE_NONE dangerous mem disk st = (Some i, s1)"
    and c: "cur_plug s1 = Some cbs" "find_plug disk cbs = Some i" "plugged (bios s1) (cbs ! i) xs"
    and fuel: "length xs < fuel"
  shows "\<exists>st' evs gs xs'. kfio_submit_bio fuel env USE_QUEUE_NONE dangerous mem disk True (\<lambda>x. x) a st = Some st' \<and>
    events st' = events st @ evs \<and> list_all2 (accounts env (bios st)) evs gs \<and>
    waiting st' disk xs' \<and> concat gs @ xs' = xs @ [a]"
proof -
  have pay: "same_payload (bios s1) (bios st)" using sp by (simp add: same_payload_def)
  obtain ret p' s2 where s2: "kfio_add_bio_to_plugged_list (blk_c env) USE_QUEUE_NONE (cbs ! i) a s1 = (ret, p', s2)"
    by (cases "kfio_add_bio_to_plugged_list (blk_c env) USE_QUEUE_NONE (cbs ! i) a s1") auto
  have ap: "events s2 = events s1" "same_payload (bios s2) (bios st)" "cb_is_kfio p'" "plug_disk p' = disk"
    "if kfio_bio_should_submit_now (blk_c env) (bios s1 a)
     then chained (bios s2) ret (xs @ [a]) \<and> plugged (bios s2) p' [] else ret = NULL \<and> plugged (bios s2) p' (xs @ [a])"
    using add_plugged [OF c(3) a(1) _ _ _ s2] d a(2) sp find_plug_Some [OF c(2)] pay by (auto simp: same_payload_def)
  let ?s = "s2\<lparr>cur_plug := Some (cbs[i := p'])\<rparr>"
  have fp: "find_plug disk (cbs[i := p']) = Some i" using find_plug_update [OF c(2) ap(3,4)] .
  have nth: "cbs[i := p'] ! i = p'" using find_plug_Some [OF c(2)] by simp
  have sub: "kfio_submit_bio fuel env USE_QUEUE_NONE dangerous mem disk True (\<lambda>x. x) a st =
      (if ret \<noteq> NULL then kfio_kickoff_plugged_io fuel env ret ?s else Some ?s)"
    using s1 s2 a(1) c(1) by (simp add: kfio_submit_bio_def kfio_bio_atomic_raw_def Let_def)
  show ?thesis
  proof (cases "kfio_bio_should_submit_now (blk_c env) (bios s1 a)")
    case False
    then have "waiting ?s disk (xs @ [a])" using ap(5) fp nth by (simp add: waiting_def)
    then show ?thesis using False sub ap sp by (intro exI [of _ ?s] exI [of _ "[]"] exI [of _ "xs @ [a]"]) auto
  next
    case True
    then have ch: "chained (bios ?s) ret (xs @ [a])" and pe: "plugged (bios s2) p' []" using ap(5) by simp_all
    then have "ret \<noteq> NULL" by (cases xs) auto
    moreover obtain st' evs gs where k: "kfio_kickoff_plugged_io fuel env ret ?s = Some st'" "events st' = events ?s @ evs"
      "list_all2 (accounts env (bios st)) evs gs" "concat gs = xs @ [a]"
      using kickoff_payload [OF env _ ok ch _ d, of fuel] ap(2) fuel by auto
    moreover have "cur_plug st' = Some (cbs[i := p'])"
      using kickoff_loop_plug k(1) unfolding kfio_kickoff_plugged_io_def by fastforce
    then have "waiting st' disk []" using pe fp nth by (simp add: waiting_def plugged_def)
    ultimately show ?thesis using sub ap sp by (intro exI [of _ st'] exI [of _ evs] exI [of _ gs] exI [of _ "[]"]) simp
  qed
qed


definition ex_consts :: blk_consts where
  "ex_consts = \<lparr>req_op_mask = 0xFF, req_op_discard = 3, req_sync = 0x800\<rparr>"

definition ex_fbio :: kfio_bio where
  "ex_fbio = \<lparr>fbio_sgl = empty_sgl, fbio_flags = 0, fbio_cmd = KBIO_CMD_INVALID, fbio_cpu = 0,
     fbio_completor = No_completor, fbio_parameter = 0, fbio_range = \<lparr>base = 0, length64 = 0\<rparr>\<rparr>"

definition ex_env :: blk_env where
  "ex_env = \<lparr>blk_c = ex_consts, bdev = \<lparr>bdev_block_size = 512\<rparr>, kfio_bio_alloc = (\<lambda>n. Some ex_fbio),
     kfio_bio_alloc_chain = (\<lambda>n k. None), max_atomic_iovs = 1, max_atomic_total_write_size = 4096, current_cpu = 0\<rparr>"

text \<open>Two adjacent writes of a page each at addresses 16 and 32, and a lone one at 48.\<close>

definition ex_bios :: "addr \<Rightarrow> bio" where
  "ex_bios a = \<lparr>bi_sector = (if a = 16 then 8 else if a = 32 then 16 else 100), bi_size = 4096, bi_opf = 0x801,
     bi_vecs = [\<lparr>bv_page = 0x1000 + a * 64, bv_offset = 0, bv_len = 4096\<rparr>],
     bi_next = (if a = 16 then 32 else 0), bi_status = 0\<rparr>"

definition ex_plug :: kfio_plug where
  "ex_plug = \<lparr>cb_is_kfio = True, plug_disk = 7, bio_head = 16, bio_tail = 32\<rparr>"

definition ex_state :: blk_state where
  "ex_state = \<lparr>bios = ex_bios, events = [], n_alloc = 0, cur_plug = Some [ex_plug]\<rparr>"

subsection \<open>Completion\<close>

lemma complete_chain_ends:
  "chained (bios st) a g \<Longrightarrow> g \<noteq> [] \<Longrightarrow> distinct g \<Longrightarrow> length g \<le> fuel \<Longrightarrow>
   \<exists>st'. complete_chain fuel a err bytes st = Some (bytes + (\<Sum>x\<leftarrow>g. ucast (bi_size (bios st x))), st') \<and>
     events st' = events st @ map (\<lambda>x. Endio x err) g \<and> bios st' =
     (\<lambda>x. if x \<in> set g \<and> err \<noteq> 0 then (bios st x)\<lparr>bi_status := err\<rparr> else bios st x)"
proof (induction g arbitrary: a fuel bytes st)
  case (Cons x g)
  obtain f where f: "fuel = Suc f" "length g \<le> f" using Cons.prems(4) by (cases fuel) auto
  have x: "a = x" "x \<noteq> NULL" "chained (bios st) (bi_next (bios st x)) g" "x \<notin> set g" using Cons.prems by simp_all
  let ?s = "kfio_bio_complete_raw x err st"
  have s: "events ?s = events st @ [Endio x err]" "bios ?s = (\<lambda>y. if y = x \<and> err \<noteq> 0 then (bios st x)\<lparr>bi_status := err\<rparr> else bios st y)"
    by (auto simp: kfio_bio_complete_raw_def)
  show ?case
  proof (cases "g = []")
    case True
    then show ?thesis using x f s by (auto simp: Let_def fun_eq_iff)
  next
    case False
    have "chained (bios ?s) (bi_next (bios st x)) g"
      using x(3) by (subst chained_cong [of g "bios ?s" "bios st"]) (use x(4) s in auto)
    from Cons.IH [OF this False _ f(2), of "bytes + ucast (bi_size (bios st x))"] Cons.prems(3)
    obtain st' where i: "complete_chain f (bi_next (bios st x)) err (bytes + ucast (bi_size (bios st x))) ?s =
        Some (bytes + ucast (bi_size (bios st x)) + (\<Sum>y\<leftarrow>g. ucast (bi_size (bios ?s y))), st')"
      "events st' = events ?s @ map (\<lambda>x. Endio x err) g"
      "bios st' = (\<lambda>y. if y \<in> set g \<and> err \<noteq> 0 then (bios ?s y)\<lparr>bi_status := err\<rparr> else bios ?s y)" by auto
    have "bi_next (bios st x) \<noteq> NULL" using x(3) False by (cases g) auto
    moreover have "bi_size (bios ?s y) = bi_size (bios st y)" for y by (simp add: s(2))
    ultimately show ?thesis using i x f s by (auto simp: Let_def add.assoc fun_eq_iff)
  qed
qed simp


text \<open>
  A write that Linux marks synchronous is not marked synchronous in the request: the operation
  bits of a bio are compared with REQ_SYNC, which lies outside of them, so no request that
  kfio_map_to_fbio builds has KBIO_FLG_SYNC.
\<close>

lemma kfio_map_to_fbio_never_sync:
  assumes "req_op_mask (blk_c env) AND req_sync (blk_c env) = 0" and "req_sync (blk_c env) \<noteq> 0"
  shows "case kfio_map_to_fbio env a st of (None, _) \<Rightarrow> True | (Some fbio, _) \<Rightarrow> fbio_flags fbio = 0"
proof -
  have "\<not> kfio_bio_sync_raw (blk_c env) b" for b
  proof
    assume "kfio_bio_sync_raw (blk_c env) b"
    then have "bi_opf b AND req_op_mask (blk_c env) = req_sync (blk_c env)"
      by (simp add: kfio_bio_sync_raw_def bio_flags_def)
    then have "req_sync (blk_c env) = bi_opf b AND (req_op_mask (blk_c env) AND req_sync (blk_c env))"
      by (metis and.assoc and.idem)
    then show False using assms by simp
  qed
  then show ?thesis by (auto simp: kfio_map_to_fbio_def Let_def split: option.splits prod.splits if_splits)
qed

subsection \<open>Witnesses\<close>

lemma ex_fresh: "fresh_alloc ex_env"
  using empty_sgl_wf by (simp add: fresh_alloc_def ex_env_def ex_fbio_def empty_sgl_def [THEN arg_cong, of num_entries]
      empty_sgl_def [THEN arg_cong, of max_entries])

lemma ex_plugged: "plugged (bios ex_state) ex_plug [16, 32]"
  by (simp add: plugged_def ex_state_def ex_plug_def ex_bios_def)

lemma ex_ok: "\<forall>x\<in>set [16, 32, 48]. bio_ok (bios ex_state x)"
  by (simp add: bio_ok_def vec_ok_def ex_state_def ex_bios_def)

theorem kfio_unplug_exactly_once_witness:
  "fresh_alloc ex_env \<and> plugged (bios ex_state) ex_plug [16, 32] \<and>
   (\<exists>st' evs gs. kfio_unplug_do_cb 2 ex_env ex_plug ex_state = Some st' \<and> events st' = evs \<and>
      list_all2 (accounts ex_env ex_bios) evs gs \<and> concat gs = [16, 32])"
proof -
  have "events ex_state = []" "bios ex_state = ex_bios" by (simp_all add: ex_state_def)
  then show ?thesis using kfio_unplug_exactly_once [OF ex_fresh ex_plugged, of 2] ex_ok ex_fresh ex_plugged by auto
qed



lemma kfio_map_to_fbio_never_sync_example:
  "bi_opf (ex_bios 16) AND req_sync ex_consts \<noteq> 0 \<and>
   (\<exists>fbio st. kfio_map_to_fbio ex_env 16 ex_state = (Some fbio, st) \<and> fbio_flags fbio = 0)"
proof -
  have "\<forall>v\<in>set (bi_vecs (ex_bios 16)). vec_ok v" using ex_ok by (simp add: bio_ok_def ex_state_def)
  moreover have "unat (num_entries empty_sgl) = 0" "unat (max_entries empty_sgl) = 4" "length (bi_vecs (ex_bios 16)) = 1"
    by (simp_all add: empty_sgl_def ex_bios_def)
  ultimately have "fst (kfio_sgl_map_bio empty_sgl (bi_vecs (ex_bios 16))) = 0"
    using map_bio_result [OF empty_sgl_wf, of "bi_vecs (ex_bios 16)"] by (simp add: case_prod_unfold)
  then have "(case kfio_map_to_fbio ex_env 16 ex_state of (None, _) \<Rightarrow> False | (Some fbio, _) \<Rightarrow> True)"
    by (simp add: kfio_map_to_fbio_def ex_env_def ex_state_def ex_fbio_def ex_consts_def Let_def case_prod_unfold
        KERNEL_SECTOR_SIZE_def kfio_bio_is_discard_def bio_op_def bio_is_write_def, simp add: ex_bios_def)
  moreover have "case kfio_map_to_fbio ex_env 16 ex_state of (None, _) \<Rightarrow> True | (Some fbio, _) \<Rightarrow> fbio_flags fbio = 0"
    by (rule kfio_map_to_fbio_never_sync) (simp_all add: ex_env_def ex_consts_def)
  ultimately show ?thesis by (auto simp: ex_bios_def ex_consts_def split: prod.splits option.splits)
qed

end
