(* ===== verification/Kblock_Mq.thy ===== *)
theory Kblock_Mq
  imports Kblock_Bio Atomic_List
begin

text \<open>
  The multi-queue path of the block device: the functions of \<open>kblock.c\<close> from
  \<open>complete_list_entries\<close> to \<open>fio_init_hctx\<close>.

  The pointer \<open>disk->fbio\<close> and the head \<open>disk->comp_list\<close> are words of one memory, because
  \<open>kfio_req_completor\<close> uses the address of the former as a list entry.  The allocators of the core, the
  result of \<open>kfio_bio_submit_handle_retryable\<close> and the outcome of the spin on the queue lock
  are arguments.  Calls into the kernel and the core are recorded in a log.
\<close>

subsection \<open>Requests\<close>

record request =
  rq_addr :: addr
  rq_pos :: u64
  rq_bytes :: u32
  rq_op :: u32
  rq_sync :: bool
  rq_fua :: bool
  rq_bios :: "bio_vec list list"

record mq_consts =
  op_discard :: u32
  op_flush :: u32
  enable_discard :: bool

datatype mq_event =
    Start_request addr
  | Submit_fbio addr kfio_bio
  | Free_fbio addr
  | Complete_entry addr
  | Delay_run
  | Run_queues

text \<open>The addresses of the disk's fields, and of the local list of \<open>complete_list_entries\<close>.\<close>

record mq_disk =
  a_fbio :: addr
  a_comp_list :: addr
  a_local :: addr

record mq_state =
  mem :: al_heap
  fbios :: "addr \<Rightarrow> kfio_bio"
  disk_completion :: bool
  last_dispatch :: u64
  last_dispatch_rw :: int
  mq_pending :: u32
  mq_log :: "mq_event list"

definition rq_is_empty_flush :: "mq_consts \<Rightarrow> request \<Rightarrow> bool" where
  "rq_is_empty_flush c req \<longleftrightarrow> rq_bytes req = 0 \<and> rq_op req = op_flush c"

definition rq_is_write :: "request \<Rightarrow> bool" where
  "rq_is_write req \<longleftrightarrow> rq_op req AND 1 \<noteq> 0"

fun map_bios :: "linux_sgl \<Rightarrow> bio_vec list list \<Rightarrow> int \<times> linux_sgl" where
  "map_bios lsg [] = (0, lsg)"
| "map_bios lsg (b # bs) =
     (let (err, lsg) = kfio_sgl_map_bio lsg b in if err \<noteq> 0 then (err, lsg) else map_bios lsg bs)"

text \<open>
  \<open>kfio_request_to_bio\<close>: \<open>alloc\<close> is what \<open>kfio_bio_alloc\<close> (or \<open>kfio_bio_try_alloc\<close> when the caller cannot
  block) returned.  The mismatch of sizes at the end only prints.
\<close>

definition kfio_request_to_bio ::
  "mq_consts \<Rightarrow> fio_bdev \<Rightarrow> u32 \<Rightarrow> (addr \<times> kfio_bio) option \<Rightarrow> request \<Rightarrow> mq_state \<Rightarrow> addr \<times> mq_state" where
  "kfio_request_to_bio c d cpu alloc req st =
     (case alloc of
        None \<Rightarrow> (NULL, st)
      | Some (p, fbio) \<Rightarrow>
          let bs = bdev_block_size d;
              fbio = fbio\<lparr>fbio_range := \<lparr>base = push_bit 9 (rq_pos req) div ucast bs,
                                           length64 = ucast (rq_bytes req div bs)\<rparr>,
                          fbio_completor := Req_completor, fbio_parameter := rq_addr req\<rparr>
          in if rq_is_empty_flush c req
             then (p, st\<lparr>fbios := (fbios st)(p := fbio\<lparr>fbio_cmd := KBIO_CMD_FLUSH,
                    fbio_range := (fbio_range fbio)\<lparr>base := 0\<rparr>,
                    fbio_flags := fbio_flags fbio OR KBIO_FLG_SYNC\<rparr>)\<rparr>)
             else if enable_discard c \<and> rq_op req = op_discard c
             then (p, st\<lparr>fbios := (fbios st)(p := fbio\<lparr>fbio_cmd := KBIO_CMD_DISCARD\<rparr>)\<rparr>)
             else
               let fbio = fbio\<lparr>fbio_cpu := cpu\<rparr>;
                   fbio = (if rq_is_write req
                           then fbio\<lparr>fbio_cmd := KBIO_CMD_WRITE,
                                  fbio_flags := (if rq_sync req \<or> rq_fua req then fbio_flags fbio OR KBIO_FLG_SYNC
                                                 else fbio_flags fbio)\<rparr>
                           else fbio\<lparr>fbio_cmd := KBIO_CMD_READ\<rparr>);
                   (err, lsg) = map_bios (fbio_sgl fbio) (rq_bios req)
               in if err \<noteq> 0 then (NULL, st\<lparr>mq_log := mq_log st @ [Free_fbio p]\<rparr>)
                  else (p, st\<lparr>fbios := (fbios st)(p := fbio\<lparr>fbio_sgl := lsg\<rparr>)\<rparr>))"

definition kfio_bio_failure_is_retryable :: "int \<Rightarrow> bool" where
  "kfio_bio_failure_is_retryable status \<longleftrightarrow> status = - ENOSPC \<or> status = - EBUSY"

datatype blk_status = BLK_STS_OK | BLK_STS_RESOURCE

text \<open>\<open>rc\<close> is the result of the submission.\<close>

definition fio_queue_rq ::
  "mq_consts \<Rightarrow> fio_bdev \<Rightarrow> u32 \<Rightarrow> mq_disk \<Rightarrow> (addr \<times> kfio_bio) option \<Rightarrow> int \<Rightarrow> request \<Rightarrow> mq_state
     \<Rightarrow> blk_status \<times> mq_state" where
  "fio_queue_rq c d cpu disk alloc rc req st =
     (let p = mem st (a_fbio disk);
          (p, st) = (if p = NULL then kfio_request_to_bio c d cpu alloc req st else (p, st))
      in if p = NULL then (BLK_STS_RESOURCE, st\<lparr>mq_log := mq_log st @ [Delay_run]\<rparr>)
         else
           let fbio = (fbios st p)\<lparr>fbio_flags := fbio_flags (fbios st p) OR KBIO_FLG_NONBLOCK\<rparr>;
               st = st\<lparr>fbios := (fbios st)(p := fbio),
                       mq_log := mq_log st @ [Start_request (rq_addr req), Submit_fbio p fbio]\<rparr>
           in if rc \<noteq> 0 \<and> kfio_bio_failure_is_retryable rc
              then (BLK_STS_RESOURCE,
                    st\<lparr>mem := (mem st)(a_fbio disk := p), mq_log := mq_log st @ [Run_queues]\<rparr>)
              else (BLK_STS_OK, st))"

subsection \<open>Completion\<close>

text \<open>The entries are recorded by address; the code casts each to a request of the core.\<close>

definition complete_list_entries :: "nat \<Rightarrow> mq_disk \<Rightarrow> mq_state \<Rightarrow> (nat \<times> mq_state) option" where
  "complete_list_entries fuel disk st =
     (let m = fusion_atomic_list_init (a_local disk) (mem st);
          m = fusion_atomic_list_splice (a_comp_list disk) (a_local disk) m
      in if fusion_atomic_list_empty (a_local disk) m then Some (0, st\<lparr>mem := m\<rparr>)
         else case fusion_atomic_list_for_each fuel (a_local disk) m of
                None \<Rightarrow> None
              | Some es \<Rightarrow> Some (length es, st\<lparr>mem := m, mq_pending := mq_pending st - of_nat (length es),
                                  mq_log := mq_log st @ map Complete_entry es\<rparr>))"

text \<open>
  \<open>got_lock\<close>: the spin ends with the queue lock held; otherwise another processor has been seen
  with the completion bit set.  The bit and the lock are released again at the end.
\<close>

definition kfio_req_completor :: "nat \<Rightarrow> mq_disk \<Rightarrow> bool \<Rightarrow> request \<Rightarrow> mq_state \<Rightarrow> mq_state option" where
  "kfio_req_completor fuel disk got_lock req st =
     (let last_sector = rq_pos req + drop_bit 9 (ucast (rq_bytes req));
          last_rw = (if rq_is_write req then 1 else 0 :: int);
          entry = a_fbio disk;
          m = fusion_atomic_list_add entry (a_comp_list disk) (fusion_atomic_list_init entry (mem st));
          st = st\<lparr>mem := m\<rparr>
      in if \<not> got_lock then Some st
         else
           let st = (if last_dispatch st = last_sector \<and> last_dispatch_rw st = last_rw
                     then st\<lparr>last_dispatch := 0, last_dispatch_rw := - 1\<rparr> else st)
           in map_option (\<lambda>(_, st). st\<lparr>disk_completion := False\<rparr>)
                (complete_list_entries fuel disk (st\<lparr>disk_completion := True\<rparr>)))"

text \<open>\<open>fio_init_hctx\<close> stores the disk in the hardware context.\<close>

definition fio_init_hctx :: "addr \<Rightarrow> int \<times> addr" where
  "fio_init_hctx disk = (0, disk)"

text \<open>A sequence of calls of \<open>fio_queue_rq\<close>, each with the allocator's answer and the submission's result.\<close>

type_synonym queue_call = "(addr \<times> kfio_bio) option \<times> int \<times> request"

fun queue_all :: "mq_consts \<Rightarrow> fio_bdev \<Rightarrow> u32 \<Rightarrow> mq_disk \<Rightarrow> queue_call list \<Rightarrow> mq_state \<Rightarrow> mq_state" where
  "queue_all c d cpu disk [] st = st"
| "queue_all c d cpu disk ((alloc, rc, req) # rs) st =
     queue_all c d cpu disk rs (snd (fio_queue_rq c d cpu disk alloc rc req st))"

definition submits_for :: "addr \<Rightarrow> mq_event \<Rightarrow> bool" where
  "submits_for owner e \<longleftrightarrow> (case e of Submit_fbio q f \<Rightarrow> fbio_parameter f = owner | _ \<Rightarrow> True)"

definition apart :: "mq_disk \<Rightarrow> bool" where
  "apart disk \<longleftrightarrow> distinct [NULL, a_fbio disk, a_comp_list disk, a_local disk]"

definition ex_request :: "addr \<Rightarrow> request" where
  "ex_request a = \<lparr>rq_addr = a, rq_pos = 8, rq_bytes = 4096, rq_op = 1, rq_sync = False, rq_fua = False, rq_bios = []\<rparr>"

definition ex_mq_disk :: mq_disk where
  "ex_mq_disk = \<lparr>a_fbio = 0x100, a_comp_list = 0x108, a_local = 0x200\<rparr>"

definition ex_mq_state :: mq_state where
  "ex_mq_state = \<lparr>mem = (\<lambda>_. NULL), fbios = (\<lambda>_. ex_fbio), disk_completion = False, last_dispatch = 0,
     last_dispatch_rw = 0, mq_pending = 2, mq_log = []\<rparr>"

definition ex_mq_consts :: mq_consts where
  "ex_mq_consts = \<lparr>op_discard = 3, op_flush = 2, enable_discard = True\<rparr>"

subsection \<open>Dispatch\<close>

lemma queue_rq_kept:
  assumes "mem st (a_fbio disk) = p" and "p \<noteq> NULL"
  shows "\<exists>evs. mq_log (snd (fio_queue_rq c d cpu disk alloc rc req st)) = mq_log st @ evs \<and>
      Start_request (rq_addr req) \<in> set evs \<and> (\<forall>e\<in>set evs. submits_for (fbio_parameter (fbios st p)) e) \<and>
      mem (snd (fio_queue_rq c d cpu disk alloc rc req st)) (a_fbio disk) = p \<and>
      fbio_parameter (fbios (snd (fio_queue_rq c d cpu disk alloc rc req st)) p) = fbio_parameter (fbios st p)"
  using assms by (simp add: fio_queue_rq_def Let_def submits_for_def)


subsection \<open>What a request describes\<close>

lemma map_bios_bytes:
  "sgl_wf lsg \<Longrightarrow> max_entries lsg < 0x80000000 \<Longrightarrow> \<forall>b\<in>set bs. (\<forall>v\<in>set b. vec_ok v) \<and> length b < 2 ^ 31 \<Longrightarrow>
   map_bios lsg bs = (0, lsg') \<Longrightarrow> sgl_wf lsg' \<and> sgl_bytes lsg' = sgl_bytes lsg @ concat (map vec_bytes (concat bs))"
proof (induction bs arbitrary: lsg)
  case (Cons b bs)
  obtain err l where m: "kfio_sgl_map_bio lsg b = (err, l)" by fastforce
  then have err: "err = 0" "map_bios l bs = (0, lsg')" using Cons.prems(4) by (auto split: if_splits)
  let ?b = "undefined\<lparr>bi_vecs := b\<rparr> :: bio"
  have "sgl_wf l \<and> max_entries l < 0x80000000 \<and> sgl_bytes l = sgl_bytes lsg @ concat (map vec_bytes b)"
    using map_bio_request [OF Cons.prems(1,2), of ?b err l] m err(1) Cons.prems(3) by (simp add: bio_ok_def bio_bytes_def)
  then show ?case using Cons.IH [of l] Cons.prems(3) err(2) by simp
qed simp

text \<open>A read or write request that is mapped covers its sectors and the bytes of its bios.\<close>

lemma request_to_bio_describes:
  assumes "sgl_wf (fbio_sgl f0)" and "num_entries (fbio_sgl f0) = 0" and "max_entries (fbio_sgl f0) < 0x80000000"
    and "\<forall>b\<in>set (rq_bios req). (\<forall>v\<in>set b. vec_ok v) \<and> length b < 2 ^ 31"
    and "\<not> rq_is_empty_flush c req" and "rq_op req \<noteq> op_discard c"
    and "kfio_request_to_bio c d cpu (Some (p, f0)) req st = (q, st')" and "q \<noteq> NULL"
  shows "q = p \<and> fbio_parameter (fbios st' p) = rq_addr req \<and>
    base (fbio_range (fbios st' p)) = push_bit 9 (rq_pos req) div ucast (bdev_block_size d) \<and>
    length64 (fbio_range (fbios st' p)) = ucast (rq_bytes req div bdev_block_size d) \<and>
    sgl_bytes (fbio_sgl (fbios st' p)) = concat (map vec_bytes (concat (rq_bios req)))"
proof -
  obtain err lsg where m: "map_bios (fbio_sgl f0) (rq_bios req) = (err, lsg)" by fastforce
  have "sgl_bytes (fbio_sgl f0) = []" using assms(2) by (simp add: sgl_bytes_def entries_def)
  then show ?thesis using assms(5-8) m map_bios_bytes [OF assms(1,3,4), of lsg]
    by (auto simp: kfio_request_to_bio_def Let_def split: if_splits)
qed

subsection \<open>Completion\<close>

lemma completor_alone:
  assumes "apart disk" and "mem st (a_comp_list disk) = NULL"
  shows "\<exists>st'. kfio_req_completor (Suc fuel) disk True req st = Some st' \<and>
    mq_log st' = mq_log st @ [Complete_entry (a_fbio disk)] \<and> mem st' (a_fbio disk) = NULL"
  using assms
  by (simp add: kfio_req_completor_def complete_list_entries_def apart_def fusion_atomic_list_init_def
      fusion_atomic_list_add_def fusion_atomic_list_splice_def fusion_atomic_list_empty_def
      fusion_atomic_list_for_each_def Let_def, auto)

lemma complete_entries_cycle:
  assumes "mem s (a_comp_list disk) = e" and "mem s e = e" and "e \<noteq> NULL" and "e \<noteq> a_comp_list disk" and "e \<noteq> a_local disk"
    and "a_comp_list disk \<noteq> a_local disk"
  shows "complete_list_entries fuel disk s = None"
proof -
  define m where "m = fusion_atomic_list_splice (a_comp_list disk) (a_local disk) (fusion_atomic_list_init (a_local disk) (mem s))"
  have "m (a_local disk) = e" "m e = e"
    using assms by (simp_all add: m_def fusion_atomic_list_splice_def fusion_atomic_list_init_def Let_def)
  then show ?thesis
    using al_visit_cycle [of m e fuel] assms(3)
    by (simp add: complete_list_entries_def m_def [symmetric] fusion_atomic_list_empty_def
        fusion_atomic_list_for_each_def del: al_visit.simps)
qed

text \<open>
  C18: kfio_req_completor does not put the completed request on the completion list but the address
  of disk->fbio, the same entry every time.  When one completion has queued the entry without getting
  the queue lock and a second one gets the lock, the list is a cycle and the second completion
  never returns.
\<close>

theorem kfio_req_completor_cycle:
  assumes "apart disk" and "mem st (a_comp_list disk) = NULL"
  shows "\<exists>st1. kfio_req_completor fuel disk False req1 st = Some st1 \<and>
    (\<forall>fuel. kfio_req_completor fuel disk True req2 st1 = None)"
proof -
  let ?e = "a_fbio disk" and ?c = "a_comp_list disk" and ?l = "a_local disk"
  define st1 where "st1 = the (kfio_req_completor fuel disk False req1 st)"
  have run1: "kfio_req_completor fuel disk False req1 st = Some st1"
    by (simp add: st1_def kfio_req_completor_def Let_def)
  have d: "?e \<noteq> NULL" "?e \<noteq> ?c" "?e \<noteq> ?l" "?c \<noteq> ?l" using assms(1) by (auto simp: apart_def)
  have m1: "mem st1 ?c = ?e"
    by (simp add: st1_def kfio_req_completor_def Let_def fusion_atomic_list_add_def)
  have "kfio_req_completor f disk True req2 st1 = None" for f
  proof -
    let ?m = "fusion_atomic_list_add ?e ?c (fusion_atomic_list_init ?e (mem st1))"
    have "?m ?c = ?e" "?m ?e = ?e"
      using d m1 by (simp_all add: fusion_atomic_list_init_def fusion_atomic_list_add_def Let_def)
    then have "mem s = ?m \<Longrightarrow> complete_list_entries f disk s = None" for s
      using d by (intro complete_entries_cycle [of s disk ?e]) simp_all
    then show ?thesis by (simp add: kfio_req_completor_def Let_def)
  qed
  then show ?thesis using run1 by blast
qed

subsection \<open>Witnesses\<close>


theorem kfio_req_completor_cycle_witness:
  "apart ex_mq_disk \<and> mem ex_mq_state (a_comp_list ex_mq_disk) = NULL \<and>
   (\<exists>st1. kfio_req_completor 5 ex_mq_disk False (ex_request 1) ex_mq_state = Some st1 \<and>
      (\<forall>fuel. kfio_req_completor fuel ex_mq_disk True (ex_request 2) st1 = None))"
proof -
  have a: "apart ex_mq_disk" "mem ex_mq_state (a_comp_list ex_mq_disk) = NULL"
    by (simp_all add: apart_def ex_mq_disk_def ex_mq_state_def)
  then show ?thesis using kfio_req_completor_cycle [OF a] by blast
qed

end
