(* ===== verification/Kblock_Disk.thy ===== *)
theory Kblock_Disk
  imports Kblock_Bio
begin

text \<open>
  The life of a block device: creation, exposure, open and close, backpressure and removal in
  \<open>kblock.c\<close>, with the inline functions of \<open>include/fio/port/kblock.h\<close> they use.

  What the kernel or the core answers (allocations, \<open>bdev_do_open\<close>, the number of openers)
  are arguments; calls that only inform them are recorded in \<open>disk_log\<close>.  A function ends in
  \<open>Returns\<close>, in \<open>Oops\<close> when it follows a NULL or error pointer, or in \<open>Blocks\<close> with the
  state in which it waits.  The lemmas give the reference count its meaning, say what removal leaves
  behind, and bound the time a write is held off.
\<close>

datatype 'a outcome = Returns 'a | Oops | Blocks 'a

datatype rq_ptr = Rq_null | Rq_err | Rq_ok

datatype disk_event =
    Bdev_open | Bdev_release | Broadcast | Drain_wait | Add_disk | Del_gendisk | Put_disk
  | Free_tag_set | Fail_bio addr int

record queue_limits =
  io_min :: u32
  max_hw_sectors :: u32
  max_segments :: u32
  max_segment_size :: u32
  logical_block_size :: u32
  physical_block_size :: u32
  max_sectors :: u32
  max_hw_discard_sectors :: u32
  discard_granularity :: u32

record gendisk =
  first_minor :: int
  minors :: int
  disk_name :: string
  capacity :: u64

text \<open>The fields of \<open>struct kfio_disk\<close>; \<open>bio_list\<close> is the chain from \<open>bio_head\<close>.\<close>

record kfio_disk =
  gd :: "gendisk option"
  rq :: rq_ptr
  limits :: queue_limits
  rq_dying :: bool
  rq_stopped :: bool
  bio_list :: "addr list"
  holdoff :: bool
  lock_pending :: u32
  sector_mask :: u32
  ref_count :: u32
  disk_use_workqueue :: use_queue
  disk_log :: "disk_event list"

record fio_bdev_geom =
  g_block_size :: u32
  g_num_blocks :: u64
  g_index :: int
  g_max_sg_entries :: u32
  g_name :: string

definition disk_emit :: "disk_event \<Rightarrow> kfio_disk \<Rightarrow> kfio_disk" where
  "disk_emit e d = d\<lparr>disk_log := disk_log d @ [e]\<rparr>"

definition kfio_platform_init_block_interface :: "int \<Rightarrow> int" where
  "kfio_platform_init_block_interface fio_major = (if fio_major \<le> 0 then - EBUSY else 0)"

subsection \<open>Calls into the core\<close>

text \<open>A missing \<open>bdev_do_open\<close> or \<open>bdev_do_ioctl\<close> is None.\<close>

definition fio_bdev_open :: "int option \<Rightarrow> int" where
  "fio_bdev_open do_open = (case do_open of None \<Rightarrow> 0 | Some r \<Rightarrow> r)"

definition fio_bdev_ioctl :: "int option \<Rightarrow> int" where
  "fio_bdev_ioctl do_ioctl = (case do_ioctl of None \<Rightarrow> - ENOTTY | Some r \<Rightarrow> r)"

definition kfio_compat_ioctl :: "int option \<Rightarrow> int" where
  "kfio_compat_ioctl do_ioctl = (let rc = fio_bdev_ioctl do_ioctl in if rc = - ENOTTY then - 515 else rc)"

definition fio_bdev_range_to_global :: "u64 \<Rightarrow> fio_range_t \<Rightarrow> fio_range_t" where
  "fio_bdev_range_to_global bdev_offset r = r\<lparr>base := base r + bdev_offset\<rparr>"

definition fio_bdev_range_from_global :: "u64 \<Rightarrow> fio_range_t \<Rightarrow> fio_range_t" where
  "fio_bdev_range_from_global bdev_offset r = r\<lparr>base := base r - bdev_offset\<rparr>"

subsection \<open>Open and close\<close>

definition kfio_open_disk :: "int option \<Rightarrow> kfio_disk \<Rightarrow> (int \<times> kfio_disk) outcome" where
  "kfio_open_disk do_open d =
     (if rq d \<noteq> Rq_ok then Oops
      else if rq_dying d then Returns (- ENXIO, d)
      else
        let d = d\<lparr>ref_count := ref_count d + 1\<rparr>
        in if ref_count d = 1
           then
             let retval = fio_bdev_open do_open; d = disk_emit Bdev_open d
             in if retval \<noteq> 0 then Returns (retval, d\<lparr>ref_count := ref_count d - 1\<rparr>) else Returns (retval, d)
           else Returns (0, d))"

definition kfio_close_disk :: "kfio_disk \<Rightarrow> kfio_disk outcome" where
  "kfio_close_disk d =
     (let d = d\<lparr>ref_count := ref_count d - 1\<rparr>
      in if ref_count d = 0
         then
           let d = disk_emit Bdev_release d
           in if rq d \<noteq> Rq_ok then Oops
              else Returns (if rq_dying d then disk_emit Broadcast d else d)
         else Returns d)"

subsection \<open>Creation and exposure\<close>

definition linux_bdev_create_disk :: "bool \<Rightarrow> use_queue \<Rightarrow> fio_bdev_geom \<Rightarrow> queue_limits \<Rightarrow> int + kfio_disk" where
  "linux_bdev_create_disk mem use_workqueue g lim =
     (if g_block_size g < 512 \<or> g_block_size g AND (g_block_size g - 1) \<noteq> 0 then Inl (- EINVAL)
      else if \<not> mem then Inl (- ENOMEM)
      else Inr \<lparr>gd = None, rq = Rq_null, limits = lim, rq_dying = False, rq_stopped = False, bio_list = [],
             holdoff = False, lock_pending = 0, sector_mask = g_block_size g - 1, ref_count = 0,
             disk_use_workqueue = use_workqueue, disk_log = []\<rparr>)"

definition KFIO_DISK_OP_SHUTDOWN :: u32 where "KFIO_DISK_OP_SHUTDOWN = 2"
definition KFIO_DISK_OP_FORCE :: u32 where "KFIO_DISK_OP_FORCE = 4"

text \<open>
  \<open>linux_bdev_hide_disk\<close>: the part behind the wait for openers, the wait, and the part before.
  \<open>has_bdev\<close>: the kernel has a block device for the whole disk; \<open>openers\<close> is its count.
\<close>

definition hide_rest :: "use_queue \<Rightarrow> kfio_disk \<Rightarrow> kfio_disk" where
  "hide_rest use_workqueue d =
     (if rq d \<noteq> Rq_null
      then (if use_workqueue = USE_QUEUE_MQ then disk_emit Free_tag_set d else d)\<lparr>rq := Rq_null\<rparr>
      else d)"

definition hide_finish :: "use_queue \<Rightarrow> kfio_disk \<Rightarrow> kfio_disk" where
  "hide_finish use_workqueue d = hide_rest use_workqueue ((disk_emit Put_disk d)\<lparr>gd := None\<rparr>)"

definition hide_wait :: "use_queue \<Rightarrow> nat \<Rightarrow> kfio_disk \<Rightarrow> (int \<times> kfio_disk) outcome" where
  "hide_wait use_workqueue openers d =
     (if openers > 0 then Blocks (0, d) else Returns (0, hide_finish use_workqueue d))"

definition fail_bios :: "kfio_disk \<Rightarrow> kfio_disk" where
  "fail_bios d = d\<lparr>disk_log := disk_log d @ map (\<lambda>a. Fail_bio a (- EIO)) (bio_list d), bio_list := []\<rparr>"

definition linux_bdev_hide_disk ::
  "use_queue \<Rightarrow> bool \<Rightarrow> nat \<Rightarrow> u32 \<Rightarrow> kfio_disk \<Rightarrow> (int \<times> kfio_disk) outcome" where
  "linux_bdev_hide_disk use_workqueue has_bdev openers opflags d =
     (case gd d of
        None \<Rightarrow> Returns (0, hide_rest use_workqueue d)
      | Some g \<Rightarrow>
          if rq d \<noteq> Rq_ok then Oops
          else
            let d = d\<lparr>gd := Some (g\<lparr>capacity := 0\<rparr>), rq_dying := True\<rparr>;
                d = (if disk_use_workqueue d = USE_QUEUE_MQ then d\<lparr>rq_stopped := True\<rparr> else d);
                d = (if disk_use_workqueue d \<noteq> USE_QUEUE_RQ \<and> disk_use_workqueue d \<noteq> USE_QUEUE_MQ
                     then fail_bios d else d);
                d = disk_emit Del_gendisk (disk_emit Drain_wait d)
            in if \<not> has_bdev then Returns (0, hide_finish use_workqueue d)
               else if opflags AND KFIO_DISK_OP_SHUTDOWN = 0 then hide_wait use_workqueue openers d
               else
                 let d = d\<lparr>ref_count := ref_count d - 1\<rparr>;
                     d = (if sint (ref_count d) > 0 then disk_emit Bdev_release d else d)
                 in Returns (0, hide_finish use_workqueue d))"

text \<open>
  \<open>linux_bdev_expose_disk\<close>.  \<open>alloc_gd\<close>: \<open>blk_alloc_disk\<close> gave a disk, with the queue
  \<open>gd_queue\<close> in it; \<open>alloc_rq\<close> is the queue of the switch; \<open>param\<close>: memory for the work item.
  The failure exits call \<open>linux_bdev_hide_disk\<close>.  The name is copied with \<open>strscpy_pad\<close> into all but the last
  of 32 bytes.
\<close>

definition round_down :: "u32 \<Rightarrow> u32 \<Rightarrow> u32" where
  "round_down x y = x AND NOT (y - 1)"

definition expose_limits :: "bool \<Rightarrow> fio_bdev_geom \<Rightarrow> queue_limits \<Rightarrow> queue_limits" where
  "expose_limits discard g l =
     (let bs = g_block_size g;
          l = l\<lparr>io_min := bs, max_hw_sectors := 2048, max_segments := g_max_sg_entries g,
                max_segment_size := 4096, logical_block_size := bs, physical_block_size := bs,
                max_sectors := round_down (max_sectors l) (drop_bit 9 bs)\<rparr>
      in if discard
         then l\<lparr>max_hw_discard_sectors := drop_bit 9 (0xFFFFFFFF AND NOT (bs - 1)), discard_granularity := bs\<rparr>
         else l)"

definition linux_bdev_expose_disk ::
  "use_queue \<Rightarrow> bool \<Rightarrow> fio_bdev_geom \<Rightarrow> bool \<Rightarrow> rq_ptr \<Rightarrow> rq_ptr \<Rightarrow> bool \<Rightarrow> bool \<Rightarrow> kfio_disk option
     \<Rightarrow> (int \<times> kfio_disk option) outcome" where
  "linux_bdev_expose_disk use_workqueue discard g alloc_gd gd_queue alloc_rq has_bdev param disk =
     (case disk of
        None \<Rightarrow> Returns (- ENODEV, None)
      | Some d \<Rightarrow>
          let fail = (\<lambda>d. case linux_bdev_hide_disk use_workqueue has_bdev 0 (KFIO_DISK_OP_SHUTDOWN OR KFIO_DISK_OP_FORCE) d of
                        Returns (_, d) \<Rightarrow> Returns (- ENOMEM, Some d)
                      | Oops \<Rightarrow> Oops
                      | Blocks (_, d) \<Rightarrow> Blocks (- ENOMEM, Some d));
              d = d\<lparr>gd := (if alloc_gd then Some \<lparr>first_minor = 0, minors = 0, disk_name = [], capacity = 0\<rparr> else None)\<rparr>
          in if use_workqueue = USE_QUEUE_RQ then fail d
             else if use_workqueue = USE_QUEUE_NONE \<and> \<not> alloc_gd then Oops
             else
               let d = d\<lparr>rq := (if use_workqueue = USE_QUEUE_NONE then gd_queue else alloc_rq)\<rparr>
               in if rq d = Rq_err then fail d
                  else if \<not> alloc_gd then Oops
                  else
                    let q = (if gd_queue \<noteq> Rq_null then gd_queue else rq d)
                    in if q \<noteq> Rq_ok then Oops
                       else
                         let d = d\<lparr>limits := expose_limits discard g (limits d),
                                  gd := Some \<lparr>first_minor = 16 * g_index g, minors = 16,
                                    disk_name = take 30 (g_name g),
                                    capacity = g_num_blocks g * ucast (g_block_size g) div 512\<rparr>\<rparr>
                         in if param then Returns (0, Some (disk_emit Add_disk d))
                            else fail ((disk_emit Put_disk d)\<lparr>gd := None\<rparr>))"

subsection \<open>Backpressure\<close>

definition should_holdoff_writes :: "kfio_disk \<Rightarrow> bool" where
  "should_holdoff_writes d = holdoff d"

definition linux_bdev_backpressure :: "bool \<Rightarrow> kfio_disk option \<Rightarrow> kfio_disk option" where
  "linux_bdev_backpressure on disk =
     (case disk of
        None \<Rightarrow> None
      | Some d \<Rightarrow> Some (if on then d\<lparr>holdoff := True\<rparr> else disk_emit Broadcast (d\<lparr>holdoff := False\<rparr>)))"

definition linux_bdev_lock_pending :: "bool \<Rightarrow> kfio_disk option \<Rightarrow> kfio_disk option" where
  "linux_bdev_lock_pending on disk =
     (case disk of
        None \<Rightarrow> None
      | Some d \<Rightarrow>
          if gd d = None then Some d
          else if on then Some (d\<lparr>lock_pending := lock_pending d + 1\<rparr>)
          else
            let n = lock_pending d - 1
            in Some (d\<lparr>lock_pending := if sint n > 0 then 0 else n\<rparr>))"

text \<open>
  \<open>holdoff_writes_under_pressure\<close> on what it observes: the successive results of
  \<open>should_holdoff_writes\<close> and the reasons for which its waits of five seconds end.  The message after a
  timeout reads the bit as well.  None: the observations end before the function returns.
\<close>

datatype wait_reason = FUSION_WAIT_TRIGGERED | FUSION_WAIT_TIMEDOUT

fun holdoff_wait :: "bool list \<Rightarrow> wait_reason list \<Rightarrow> wait_reason \<Rightarrow> (wait_reason \<times> bool list \<times> wait_reason list) option" where
  "holdoff_wait [] rs reason = None"
| "holdoff_wait (b # bs) rs reason =
     (if \<not> b then Some (reason, bs, rs)
      else case rs of
             [] \<Rightarrow> None
           | r # rs \<Rightarrow> if r = FUSION_WAIT_TIMEDOUT then Some (r, bs, rs) else holdoff_wait bs rs r)"

lemma holdoff_wait_shorter: "holdoff_wait bs rs r = Some (r', bs', rs') \<Longrightarrow> length bs' < length bs"
  by (induction bs rs r rule: holdoff_wait.induct) (auto split: if_splits list.splits)

function holdoff_loop :: "nat \<Rightarrow> bool list \<Rightarrow> wait_reason list \<Rightarrow> bool option" where
  "holdoff_loop count bs rs =
     (case bs of
        [] \<Rightarrow> None
      | b # bs \<Rightarrow>
          if \<not> b then Some True
          else case holdoff_wait bs rs FUSION_WAIT_TRIGGERED of
                 None \<Rightarrow> None
               | Some (reason, bs, rs) \<Rightarrow>
                   if reason = FUSION_WAIT_TIMEDOUT
                   then (case bs of
                           [] \<Rightarrow> None
                         | _ # bs \<Rightarrow>
                             if count + 1 \<ge> 12 then (case bs of [] \<Rightarrow> None | b # _ \<Rightarrow> Some (\<not> b))
                             else holdoff_loop (count + 1) bs rs)
                   else holdoff_loop count bs rs)"
  by pat_completeness auto
termination
  by (relation "measure (\<lambda>(_, bs, _). length bs)") (auto dest: holdoff_wait_shorter)

declare holdoff_loop.simps [simp del]

definition holdoff_writes_under_pressure :: "bool list \<Rightarrow> wait_reason list \<Rightarrow> bool option" where
  "holdoff_writes_under_pressure bs rs = holdoff_loop 0 bs rs"

subsection \<open>Statistics\<close>

datatype bio_dir = BIO_DIR_READ | BIO_DIR_WRITE | BIO_DIR_OTHER

record part_stat =
  ios :: u64
  sectors :: u64
  nsecs :: u64

text \<open>Read and write counters; \<open>hz\<close> is the kernel's HZ.\<close>

definition stat_add :: "u64 \<Rightarrow> u64 \<Rightarrow> u64 \<Rightarrow> part_stat \<Rightarrow> part_stat" where
  "stat_add hz totalsize duration s =
     \<lparr>ios = ios s + 1, sectors = sectors s + drop_bit 9 totalsize, nsecs = nsecs s + duration * hz div 1000000\<rparr>"

definition linux_bdev_update_stats ::
  "u64 \<Rightarrow> kfio_disk option \<Rightarrow> bio_dir \<Rightarrow> u64 \<Rightarrow> u64 \<Rightarrow> part_stat \<times> part_stat \<Rightarrow> part_stat \<times> part_stat" where
  "linux_bdev_update_stats hz disk dir totalsize duration rw =
     (case disk of
        None \<Rightarrow> rw
      | Some d \<Rightarrow>
          if disk_use_workqueue d \<noteq> USE_QUEUE_NONE then rw
          else case dir of
                 BIO_DIR_WRITE \<Rightarrow> (fst rw, stat_add hz totalsize duration (snd rw))
               | BIO_DIR_READ \<Rightarrow> (stat_add hz totalsize duration (fst rw), snd rw)
               | BIO_DIR_OTHER \<Rightarrow> rw)"

definition get_per_cpu_stat_sum :: "u64 list \<Rightarrow> u64" where
  "get_per_cpu_stat_sum array = sum_list array"

text \<open>
  The disk with its openers and the number of opens of the core that have not been released.  While
  the disk is exposed it may be opened, closed and hidden; \<open>hiding\<close> means that
  \<open>linux_bdev_hide_disk\<close> waits for the openers.  The kernel has fewer than \<open>2 ^ 31\<close> openers.
\<close>

record disk_sys =
  disk :: kfio_disk
  openers :: nat
  core_opens :: int
  hiding :: bool

inductive disk_step :: "use_queue \<Rightarrow> disk_sys \<Rightarrow> disk_sys \<Rightarrow> bool" for uw where
  opened: "gd (disk s) \<noteq> None \<Longrightarrow> openers s < 2 ^ 31 \<Longrightarrow> kfio_open_disk do_open (disk s) = Returns (0, d) \<Longrightarrow>
    disk_step uw s (s\<lparr>disk := d, openers := openers s + 1, core_opens := core_opens s + (if openers s = 0 then 1 else 0)\<rparr>)"
| refused: "gd (disk s) \<noteq> None \<Longrightarrow> openers s < 2 ^ 31 \<Longrightarrow> kfio_open_disk do_open (disk s) = Returns (rc, d) \<Longrightarrow> rc \<noteq> 0 \<Longrightarrow>
    disk_step uw s (s\<lparr>disk := d\<rparr>)"
| closed: "openers s > 0 \<Longrightarrow> kfio_close_disk (disk s) = Returns d \<Longrightarrow>
    disk_step uw s (s\<lparr>disk := d, openers := openers s - 1,
      core_opens := core_opens s - (if ref_count d = 0 then 1 else 0)\<rparr>)"
| hide_blocks: "\<not> hiding s \<Longrightarrow> gd (disk s) \<noteq> None \<Longrightarrow> opflags AND KFIO_DISK_OP_SHUTDOWN = 0 \<Longrightarrow>
    linux_bdev_hide_disk uw True (openers s) opflags (disk s) = Blocks (rc, d) \<Longrightarrow>
    disk_step uw s (s\<lparr>disk := d, hiding := True\<rparr>)"
| hide_returns: "\<not> hiding s \<Longrightarrow> gd (disk s) \<noteq> None \<Longrightarrow> opflags AND KFIO_DISK_OP_SHUTDOWN = 0 \<Longrightarrow>
    linux_bdev_hide_disk uw True (openers s) opflags (disk s) = Returns (rc, d) \<Longrightarrow> disk_step uw s (s\<lparr>disk := d\<rparr>)"
| hide_resumes: "hiding s \<Longrightarrow> hide_wait uw (openers s) (disk s) = Returns (rc, d) \<Longrightarrow>
    disk_step uw s (s\<lparr>disk := d, hiding := False\<rparr>)"

definition exposed :: "kfio_disk \<Rightarrow> disk_sys" where
  "exposed d = \<lparr>disk = d, openers = 0, core_opens = 0, hiding = False\<rparr>"

definition fresh_disk :: "kfio_disk \<Rightarrow> bool" where
  "fresh_disk d \<longleftrightarrow> gd d \<noteq> None \<and> rq d = Rq_ok \<and> \<not> rq_dying d \<and> ref_count d = 0"

definition disk_reachable :: "use_queue \<Rightarrow> kfio_disk \<Rightarrow> disk_sys \<Rightarrow> bool" where
  "disk_reachable uw d = reach (disk_step uw) (exposed d)"

definition disk_inv :: "disk_sys \<Rightarrow> bool" where
  "disk_inv s \<longleftrightarrow> ref_count (disk s) = of_nat (openers s) \<and> openers s \<le> 2 ^ 31 \<and>
     core_opens s = (if openers s = 0 then 0 else 1) \<and>
     (gd (disk s) \<noteq> None \<longrightarrow> rq (disk s) = Rq_ok) \<and> (gd (disk s) = None \<longrightarrow> openers s = 0) \<and>
     (hiding s \<longrightarrow> gd (disk s) \<noteq> None \<and> rq_dying (disk s))"

subsection \<open>Openers and the reference count\<close>

lemma disk_emit_fields [simp]:
  "gd (disk_emit e d) = gd d" "rq (disk_emit e d) = rq d" "ref_count (disk_emit e d) = ref_count d"
  "rq_dying (disk_emit e d) = rq_dying d" "disk_log (disk_emit e d) = disk_log d @ [e]"
  "disk_use_workqueue (disk_emit e d) = disk_use_workqueue d" "bio_list (disk_emit e d) = bio_list d"
  by (simp_all add: disk_emit_def)

lemma hide_finish_fields [simp]:
  "gd (hide_finish uw d) = None" "ref_count (hide_finish uw d) = ref_count d"
  by (simp_all add: hide_finish_def hide_rest_def)

lemma fail_bios_fields [simp]:
  "gd (fail_bios d) = gd d" "rq (fail_bios d) = rq d" "ref_count (fail_bios d) = ref_count d" "rq_dying (fail_bios d) = rq_dying d"
  by (simp_all add: fail_bios_def)

lemma of_nat_zero_u32: "n \<le> 2 ^ 31 \<Longrightarrow> (of_nat n = (0 :: u32)) = (n = 0)"
  by (auto simp: word_of_nat_eq_0_iff nat_dvd_not_less dest: dvd_imp_le)

lemma open_ref:
  assumes "rq d = Rq_ok" and "ref_count d = of_nat n" and "n < 2 ^ 31" and "kfio_open_disk do_open d = Returns (rc, d')"
  shows "gd d' = gd d \<and> rq d' = Rq_ok \<and> rq_dying d' = rq_dying d \<and> ref_count d' = of_nat (if rc = 0 then n + 1 else n)"
  using assms of_nat_zero_u32 [of n] by (auto simp: kfio_open_disk_def Let_def split: if_splits)

lemma close_ref:
  assumes "ref_count d = of_nat n" and "0 < n" and "kfio_close_disk d = Returns d'"
  shows "gd d' = gd d \<and> rq d' = rq d \<and> rq_dying d' = rq_dying d \<and> ref_count d' = of_nat (n - 1)"
  using assms by (auto simp: kfio_close_disk_def Let_def of_nat_diff split: if_splits)

lemma hide_ref:
  assumes "gd d \<noteq> None" and "rq d = Rq_ok" and "opflags AND KFIO_DISK_OP_SHUTDOWN = 0"
  shows "linux_bdev_hide_disk uw True n opflags d = Blocks (rc, d') \<Longrightarrow>
      n > 0 \<and> gd d' \<noteq> None \<and> rq d' = Rq_ok \<and> rq_dying d' \<and> ref_count d' = ref_count d"
    and "linux_bdev_hide_disk uw True n opflags d = Returns (rc, d') \<Longrightarrow> n = 0 \<and> gd d' = None \<and> ref_count d' = ref_count d"
  using assms by (auto simp: linux_bdev_hide_disk_def hide_wait_def Let_def split: if_splits)

lemma disk_step_inv: "disk_step uw s s' \<Longrightarrow> disk_inv s \<Longrightarrow> disk_inv s'"
proof (induction rule: disk_step.induct)
  case (opened s do_open d)
  then show ?case using open_ref [of "disk s" "openers s" do_open 0 d] by (simp add: disk_inv_def)
next
  case (refused s do_open rc d)
  then show ?case using open_ref [of "disk s" "openers s" do_open rc d] by (simp add: disk_inv_def)
next
  case (closed s d)
  then have "openers s \<le> 2 ^ 31" by (simp add: disk_inv_def)
  then have "openers s - 1 \<le> 2 ^ 31" by linarith
  then show ?case using closed close_ref [of "disk s" "openers s" d] of_nat_zero_u32 [of "openers s - 1"]
    by (auto simp: disk_inv_def)
next
  case (hide_blocks s opflags rc d)
  then show ?case using hide_ref(1) [of "disk s" opflags uw "openers s" rc d] by (simp add: disk_inv_def)
next
  case (hide_returns s opflags rc d)
  then show ?case using hide_ref(2) [of "disk s" opflags uw "openers s" rc d] by (simp add: disk_inv_def)
next
  case (hide_resumes s rc d)
  then show ?case by (auto simp: disk_inv_def hide_wait_def split: if_splits)
qed

interpretation disk_sys: transition_invariant "disk_step uw" disk_inv for uw
  by unfold_locales (auto simp: disk_step_inv)

lemma disk_reachable_inv: "disk_reachable uw d s \<Longrightarrow> fresh_disk d \<Longrightarrow> disk_inv s"
  unfolding disk_reachable_def by (erule disk_sys.reach_inv) (simp add: disk_inv_def exposed_def fresh_disk_def)


text \<open>
  At shutdown linux_bdev_hide_disk drops one reference and releases the core only if further ones
  remain: with a single opener the core is never released, and with two or more it is released
  while the reference count still stands for openers, whose last close will release it again.
\<close>

lemma kblock_shutdown_release:
  assumes "fresh_disk d0" and "disk_reachable uw d0 s" and "gd (disk s) \<noteq> None" and "openers s < 2 ^ 31"
  shows "\<exists>d. linux_bdev_hide_disk uw True (openers s) KFIO_DISK_OP_SHUTDOWN (disk s) = Returns (0, d) \<and>
    (Bdev_release \<in> set (drop (length (disk_log (disk s))) (disk_log d)) \<longleftrightarrow> openers s \<ge> 2) \<and>
    ref_count d = of_nat (openers s) - 1"
proof -
  have i: "ref_count (disk s) = of_nat (openers s)" "rq (disk s) = Rq_ok"
    using disk_reachable_inv [OF assms(2,1)] assms(3) by (auto simp: disk_inv_def)
  have sint: "sint (of_nat (openers s) - 1 :: u32) > 0 \<longleftrightarrow> openers s \<ge> 2"
  proof (cases "openers s")
    case (Suc n)
    then have "int n < 2 ^ 31" using assms(4) by simp
    then have "sint (of_nat n :: u32) = int n"
      by (simp add: signed_of_nat signed_take_bit_int_eq_self)
    then show ?thesis using Suc by (simp add: Suc_le_eq)
  qed simp
  obtain g where g: "gd (disk s) = Some g" using assms(3) by auto
  show ?thesis using i g sint
    by (auto simp: linux_bdev_hide_disk_def KFIO_DISK_OP_SHUTDOWN_def Let_def hide_finish_def hide_rest_def fail_bios_def)
qed

subsection \<open>Holding off writes\<close>

lemma holdoff_wait_facts:
  "holdoff_wait bs rs r = Some (r', bs', rs') \<Longrightarrow>
     count_list rs FUSION_WAIT_TIMEDOUT = count_list rs' FUSION_WAIT_TIMEDOUT + (if r' = FUSION_WAIT_TIMEDOUT \<and> r \<noteq> FUSION_WAIT_TIMEDOUT then 1 else 0) \<and>
     set bs' \<subseteq> set bs \<or> r = FUSION_WAIT_TIMEDOUT"
  by (induction bs rs r rule: holdoff_wait.induct) (auto split: if_splits list.splits)

lemma holdoff_loop_Cons:
  "holdoff_loop count (b # bs) rs =
     (if \<not> b then Some True
      else case holdoff_wait bs rs FUSION_WAIT_TRIGGERED of
             None \<Rightarrow> None
           | Some (reason, bs, rs) \<Rightarrow>
               if reason = FUSION_WAIT_TIMEDOUT
               then (case bs of
                       [] \<Rightarrow> None
                     | _ # bs \<Rightarrow>
                         if count + 1 \<ge> 12 then (case bs of [] \<Rightarrow> None | b # _ \<Rightarrow> Some (\<not> b))
                         else holdoff_loop (count + 1) bs rs)
               else holdoff_loop count bs rs)"
  by (subst holdoff_loop.simps) simp

lemma holdoff_loop_facts:
  "holdoff_loop count bs rs = Some r \<Longrightarrow>
     (r \<longrightarrow> False \<in> set bs) \<and> (\<not> r \<longrightarrow> 12 \<le> count + count_list rs FUSION_WAIT_TIMEDOUT \<and> True \<in> set bs)"
proof (induction count bs rs rule: holdoff_loop.induct)
  case (1 count bs rs)
  obtain b bs1 where bs: "bs = b # bs1" using 1(3) by (cases bs) (auto simp: holdoff_loop.simps)
  show ?case
  proof (cases b)
    case True
    then obtain reason bs2 rs2 where w: "holdoff_wait bs1 rs FUSION_WAIT_TRIGGERED = Some (reason, bs2, rs2)"
      using 1(3) bs by (auto simp: holdoff_loop_Cons split: option.splits)
    note f = holdoff_wait_facts [OF w]
    show ?thesis
    proof (cases "reason = FUSION_WAIT_TIMEDOUT")
      case False
      then have "holdoff_loop count bs2 rs2 = Some r" using 1(3) bs True w by (simp add: holdoff_loop_Cons)
      then show ?thesis using 1(2) [OF bs _ w] True False bs f by auto
    next
      case to: True
      obtain b3 bs3 where b3: "bs2 = b3 # bs3" using 1(3) bs True w to by (cases bs2) (auto simp: holdoff_loop_Cons)
      show ?thesis
      proof (cases "count + 1 \<ge> 12")
        case ge: True
        then obtain b4 bs4 where "bs3 = b4 # bs4" "r = (\<not> b4)" using 1(3) bs True w to b3
          by (cases bs3) (auto simp: holdoff_loop_Cons)
        then show ?thesis using ge bs b3 f to True by auto
      next
        case False
        then have "holdoff_loop (count + 1) bs3 rs2 = Some r" using 1(3) bs True w to b3 by (simp add: holdoff_loop_Cons)
        then show ?thesis using 1(1) [OF bs _ w _ _ to b3] True False bs f b3 to by auto
      qed
    qed
  next
    case False
    then show ?thesis using 1(3) bs by (simp add: holdoff_loop.simps)
  qed
qed

text \<open>
  A write is let through only after the holdoff bit has been seen clear, and it is failed only
  after at least twelve waits of five seconds have timed out with the bit still set.
\<close>

lemma holdoff_bounds:
  assumes "holdoff_writes_under_pressure bs rs = Some r"
  shows "(r \<longrightarrow> False \<in> set bs) \<and> (\<not> r \<longrightarrow> 12 \<le> count_list rs FUSION_WAIT_TIMEDOUT \<and> True \<in> set bs)"
  using holdoff_loop_facts [of 0 bs rs r] assms by (simp add: holdoff_writes_under_pressure_def)

definition ex_limits :: queue_limits where
  "ex_limits = \<lparr>io_min = 0, max_hw_sectors = 0, max_segments = 0, max_segment_size = 0, logical_block_size = 0,
     physical_block_size = 0, max_sectors = 2560, max_hw_discard_sectors = 0, discard_granularity = 0\<rparr>"

definition ex_disk :: kfio_disk where
  "ex_disk = \<lparr>gd = Some \<lparr>first_minor = 16, minors = 16, disk_name = ''fioa'', capacity = 1000\<rparr>, rq = Rq_ok,
     limits = ex_limits, rq_dying = False, rq_stopped = False, bio_list = [], holdoff = False, lock_pending = 0,
     sector_mask = 511, ref_count = 0, disk_use_workqueue = USE_QUEUE_NONE, disk_log = []\<rparr>"

definition ex_disk1 :: kfio_disk where
  "ex_disk1 = ex_disk\<lparr>ref_count := 1, disk_log := [Bdev_open]\<rparr>"

definition ex_opened :: disk_sys where
  "ex_opened = \<lparr>disk = ex_disk1, openers = 1, core_opens = 1, hiding = False\<rparr>"

definition ex_geom :: fio_bdev_geom where
  "ex_geom = \<lparr>g_block_size = 4096, g_num_blocks = 1000, g_index = 1, g_max_sg_entries = 128, g_name = ''fioa''\<rparr>"

subsection \<open>Exposure\<close>

text \<open>
  Linux_bdev_expose_disk returns 0 with the disk added, its capacity in sectors and its minor
  numbers set, if every allocation succeeds; it backs out with -ENOMEM and no disk left when only
  the work item cannot be allocated.  When the multi-queue cannot be allocated the error exit
  itself follows the error pointer, and when there is no gendisk its NULL pointer is followed
  before the test.
\<close>

lemma linux_bdev_expose_outcomes:
  assumes "uw = USE_QUEUE_NONE \<or> uw = USE_QUEUE_MQ" and "gdq = Rq_ok"
  shows "let r = linux_bdev_expose_disk uw discard g alloc_gd gdq alloc_rq has_bdev param (Some d) in
    (r = Oops \<longleftrightarrow> (alloc_gd \<longleftrightarrow> uw = USE_QUEUE_MQ \<and> alloc_rq = Rq_err)) \<and>
    (alloc_gd \<and> \<not> (uw = USE_QUEUE_MQ \<and> alloc_rq = Rq_err) \<longrightarrow>
      (if param then \<exists>e x. r = Returns (0, Some e) \<and> gd e = Some x \<and> Add_disk \<in> set (disk_log e) \<and>
           capacity x = g_num_blocks g * ucast (g_block_size g) div 512 \<and> first_minor x = 16 * g_index g
       else \<exists>e. r = Returns (- ENOMEM, Some e) \<and> gd e = None \<and> rq e = Rq_null))"
  using assms
  by (cases uw; cases alloc_rq)
    (auto simp: linux_bdev_expose_disk_def linux_bdev_hide_disk_def hide_rest_def Let_def split: option.splits)

subsection \<open>Witnesses\<close>

lemma ex_disk_fresh: "fresh_disk ex_disk"
  by (simp add: fresh_disk_def ex_disk_def)

lemma ex_opened_reachable: "disk_reachable USE_QUEUE_NONE ex_disk ex_opened"
proof -
  have "kfio_open_disk None ex_disk = Returns (0, ex_disk1)"
    by (simp add: kfio_open_disk_def ex_disk1_def ex_disk_def disk_emit_def fio_bdev_open_def)
  then have "disk_step USE_QUEUE_NONE (exposed ex_disk) ex_opened"
    using disk_step.opened [of "exposed ex_disk" None ex_disk1 USE_QUEUE_NONE]
    by (simp add: exposed_def ex_opened_def) (simp add: ex_disk_def)
  then show ?thesis unfolding disk_reachable_def by (rule reach.step [OF reach.start])
qed


lemma kblock_shutdown_release_example:
  "openers ex_opened = 1 \<and> (\<exists>d. linux_bdev_hide_disk USE_QUEUE_NONE True 1 KFIO_DISK_OP_SHUTDOWN ex_disk1 = Returns (0, d) \<and>
     Bdev_release \<notin> set (drop 1 (disk_log d)))"
proof -
  have "gd (disk ex_opened) \<noteq> None" "openers ex_opened < 2 ^ 31" "disk ex_opened = ex_disk1" "openers ex_opened = 1"
    "length (disk_log ex_disk1) = 1"
    by (simp_all add: ex_opened_def ex_disk1_def ex_disk_def)
  then show ?thesis using kblock_shutdown_release [OF ex_disk_fresh ex_opened_reachable] by auto
qed

lemma holdoff_bounds_example:
  "holdoff_writes_under_pressure (replicate 40 True) (replicate 12 FUSION_WAIT_TIMEDOUT) = Some False \<and>
   12 \<le> count_list (replicate 12 FUSION_WAIT_TIMEDOUT) FUSION_WAIT_TIMEDOUT"
proof -
  have "holdoff_writes_under_pressure (replicate 40 True) (replicate 12 FUSION_WAIT_TIMEDOUT) = Some False" by code_simp
  then show ?thesis using holdoff_bounds [of "replicate 40 True" "replicate 12 FUSION_WAIT_TIMEDOUT" False] by blast
qed

lemma linux_bdev_expose_outcomes_example:
  "(\<exists>e. linux_bdev_expose_disk USE_QUEUE_NONE True ex_geom True Rq_ok Rq_null True False (Some ex_disk) = Returns (- ENOMEM, Some e) \<and> gd e = None) \<and>
   linux_bdev_expose_disk USE_QUEUE_MQ True ex_geom True Rq_ok Rq_err True True (Some ex_disk) = Oops"
  using linux_bdev_expose_outcomes [of USE_QUEUE_NONE Rq_ok True ex_geom True Rq_null True False ex_disk]
    linux_bdev_expose_outcomes [of USE_QUEUE_MQ Rq_ok True ex_geom True Rq_err True True ex_disk] by (auto simp: Let_def)

end
