(* ===== verification/Kinfo_Data.thy ===== *)
theory Kinfo_Data
  imports Prelude
begin

text \<open>
  The data handles of the information nodes: the second part of \<open>common_kinfo.c\<close>.

  A handle writes into a buffer of \<open>max_size\<close> bytes that its caller owns; the record holds
  the contents of that buffer.  \<open>cur_size\<close> counts the bytes that are valid, \<open>tot_size\<close> the bytes that were
  offered.  Sizes are 64-bit words.  A formatted print takes the text that the format produces; what
  \<open>vsnprintf\<close> stores of it is the C standard's: at most \<open>avail - 1\<close> characters and a NUL character.

  The lemmas show what a sequence of writes and prints leaves in the buffer and when the overflow
  test reports a loss.
\<close>

record kfio_info_data =
  data_node :: addr
  buffer :: string
  max_size :: u64
  cur_size :: u64
  tot_size :: u64
  eof :: bool

definition NUL :: char where "NUL = CHR 0x00"

definition overwrite :: "'a list \<Rightarrow> nat \<Rightarrow> 'a list \<Rightarrow> 'a list" where
  "overwrite buf off xs = take off buf @ xs @ drop (off + length xs) buf"

definition kfio_info_reset_data_handle :: "addr \<Rightarrow> string \<Rightarrow> u64 \<Rightarrow> kfio_info_data" where
  "kfio_info_reset_data_handle nd buf sz =
     \<lparr>data_node = nd, buffer = buf, max_size = sz, cur_size = 0, tot_size = 0, eof = True\<rparr>"

text \<open>\<open>p\<close> is what \<open>kfio_malloc\<close> returns for the handle.\<close>

definition kfio_info_alloc_data_handle :: "addr \<Rightarrow> addr \<Rightarrow> string \<Rightarrow> u64 \<Rightarrow> int + kfio_info_data" where
  "kfio_info_alloc_data_handle p nd buf sz =
     (if p = NULL then Inl (- ENOMEM) else Inr (kfio_info_reset_data_handle nd buf sz))"

text \<open>What \<open>kfio_vsnprintf\<close> stores at \<open>off\<close> when it may use \<open>avail\<close> bytes.\<close>

definition vsnprintf_store :: "string \<Rightarrow> nat \<Rightarrow> nat \<Rightarrow> string \<Rightarrow> string" where
  "vsnprintf_store buf off avail s =
     (if avail = 0 then buf else overwrite buf off (take (avail - 1) s @ [NUL]))"

text \<open>\<open>None\<close> is a negative result of \<open>kfio_vsnprintf\<close>.\<close>

definition kfio_info_printf :: "string option \<Rightarrow> kfio_info_data \<Rightarrow> u64 \<times> kfio_info_data" where
  "kfio_info_printf fmt h =
     (let avail = max_size h - cur_size h
      in case fmt of
           None \<Rightarrow> (0, h)
         | Some s \<Rightarrow>
             let len = of_nat (length s);
                 h = h\<lparr>buffer := vsnprintf_store (buffer h) (unat (cur_size h)) (unat avail) s\<rparr>;
                 h = h\<lparr>cur_size := if sint len > sint avail then max_size h else cur_size h + len\<rparr>
             in (len, h\<lparr>tot_size := tot_size h + len\<rparr>))"

definition kfio_info_write :: "string \<Rightarrow> kfio_info_data \<Rightarrow> u64 \<times> kfio_info_data" where
  "kfio_info_write d h =
     (let sz = of_nat (length d);
          avail = max_size h - cur_size h;
          avail = (if sz < avail then sz else avail);
          h = h\<lparr>buffer := overwrite (buffer h) (unat (cur_size h)) (take (unat avail) d)\<rparr>
      in (avail, h\<lparr>tot_size := tot_size h + sz, cur_size := cur_size h + avail\<rparr>))"

definition kfio_info_data_overflow :: "kfio_info_data \<Rightarrow> bool" where
  "kfio_info_data_overflow h \<longleftrightarrow> tot_size h > max_size h"

definition kfio_info_need_buffer_size :: "u64 \<Rightarrow> kfio_info_data \<Rightarrow> kfio_info_data" where
  "kfio_info_need_buffer_size sz h = h\<lparr>tot_size := sz\<rparr>"

definition kfio_info_data_size_free :: "kfio_info_data \<Rightarrow> u64" where
  "kfio_info_data_size_free h = max_size h - cur_size h"

definition kfio_info_data_set_eof :: "int \<Rightarrow> kfio_info_data \<Rightarrow> kfio_info_data" where
  "kfio_info_data_set_eof flag h = h\<lparr>eof := (flag \<noteq> 0)\<rparr>"

datatype data_op = Printf string | Write string

fun op_text :: "data_op \<Rightarrow> string" where
  "op_text (Printf s) = s"
| "op_text (Write s) = s"

fun data_step :: "data_op \<Rightarrow> kfio_info_data \<Rightarrow> kfio_info_data" where
  "data_step (Printf s) h = snd (kfio_info_printf (Some s) h)"
| "data_step (Write s) h = snd (kfio_info_write s h)"

text \<open>A handle is well formed.  Buffers stay below half the address space.\<close>

definition data_ok :: "kfio_info_data \<Rightarrow> bool" where
  "data_ok h \<longleftrightarrow> length (buffer h) = unat (max_size h) \<and> cur_size h \<le> max_size h \<and> unat (max_size h) < 2 ^ 63"

subsection \<open>Single operations\<close>

lemma length_overwrite [simp]: "off + length xs \<le> length buf \<Longrightarrow> length (overwrite buf off xs) = length buf"
  by (simp add: overwrite_def)

lemma take_overwrite [simp]: "off \<le> length buf \<Longrightarrow> take (off + length xs) (overwrite buf off xs) = take off buf @ xs"
  by (simp add: overwrite_def)

lemma nth_overwrite: "off \<le> length buf \<Longrightarrow> i < length xs \<Longrightarrow> overwrite buf off xs ! (off + i) = xs ! i"
  by (simp add: overwrite_def nth_append)

lemma unat_of_length: "length s < 2 ^ 63 \<Longrightarrow> unat (of_nat (length s) :: u64) = length s"
  by (simp add: unat_of_nat take_bit_nat_eq_self)

text \<open>
  What one write or print does to a well-formed handle: sizes, text and frame.  A print keeps all of its
  text only when a byte is left over for the NUL character.
\<close>

lemma write_effect:
  assumes "data_ok h" and "length s < 2 ^ 63"
  defines "h' \<equiv> snd (kfio_info_write s h)"
  shows "data_ok h'" and "max_size h' = max_size h"
    and "unat (cur_size h') = min (unat (max_size h)) (unat (cur_size h) + length s)"
    and "tot_size h' = tot_size h + of_nat (length s)"
    and "take (unat (cur_size h')) (buffer h') = take (unat (max_size h)) (take (unat (cur_size h)) (buffer h) @ s)"
    and "data_node h' = data_node h \<and> eof h' = eof h"
proof -
  let ?c = "unat (cur_size h)" and ?m = "unat (max_size h)"
  define av where "av = (if of_nat (length s) < max_size h - cur_size h then of_nat (length s) else max_size h - cur_size h)"
  have c: "?c \<le> ?m" "length (buffer h) = ?m" "?m < 2 ^ 63" using assms(1) by (auto simp: data_ok_def word_le_nat_alt)
  have fr: "unat (max_size h - cur_size h) = ?m - ?c" using assms(1) by (simp add: data_ok_def unat_sub_le)
  have av: "unat av = min (length s) (?m - ?c)"
    using assms(2) by (auto simp: av_def word_less_nat_alt fr unat_of_length)
  have h': "h' = h\<lparr>buffer := overwrite (buffer h) ?c (take (unat av) s), tot_size := tot_size h + of_nat (length s),
      cur_size := cur_size h + av\<rparr>" by (simp add: h'_def kfio_info_write_def av_def Let_def)
  have cur: "unat (cur_size h + av) = ?c + min (length s) (?m - ?c)"
    using c av by (subst unat_add_no_wrap) auto
  then show cu: "unat (cur_size h') = min ?m (?c + length s)" using c by (simp add: h')
  have len: "length (overwrite (buffer h) ?c (take (unat av) s)) = ?m" using c av by simp
  then show "data_ok h'" using c cu by (auto simp: data_ok_def h' word_le_nat_alt)
  have "?c + length (take (unat av) s) = unat (cur_size h + av)" using cur av by simp
  then have "take (unat (cur_size h + av)) (overwrite (buffer h) ?c (take (unat av) s)) = take ?c (buffer h) @ take (unat av) s"
    using c take_overwrite [of ?c "buffer h" "take (unat av) s"] by simp
  then show "take (unat (cur_size h')) (buffer h') = take ?m (take ?c (buffer h) @ s)"
    using c by (simp add: h' av min_def take_append)
qed (simp_all add: h'_def kfio_info_write_def Let_def)

lemma printf_effect:
  assumes "data_ok h" and "length s < 2 ^ 63"
  defines "h' \<equiv> snd (kfio_info_printf (Some s) h)"
  shows "data_ok h'" and "max_size h' = max_size h"
    and "unat (cur_size h') = min (unat (max_size h)) (unat (cur_size h) + length s)"
    and "tot_size h' = tot_size h + of_nat (length s)"
    and "cur_size h < max_size h \<Longrightarrow>
      take (unat (cur_size h)) (buffer h') = take (unat (cur_size h)) (buffer h) \<and>
      take (Suc (unat (cur_size h) + min (length s) (unat (max_size h) - unat (cur_size h) - 1))) (buffer h') =
        take (unat (cur_size h)) (buffer h) @ take (unat (max_size h) - unat (cur_size h) - 1) s @ [NUL]"
    and "data_node h' = data_node h \<and> eof h' = eof h"
proof -
  let ?c = "unat (cur_size h)" and ?m = "unat (max_size h)"
  let ?b = "vsnprintf_store (buffer h) ?c (unat (max_size h - cur_size h)) s"
  have c: "?c \<le> ?m" "length (buffer h) = ?m" "?m < 2 ^ 63" using assms(1) by (auto simp: data_ok_def word_le_nat_alt)
  have fr: "unat (max_size h - cur_size h) = ?m - ?c" using assms(1) by (simp add: data_ok_def unat_sub_le)
  have "unat (max_size h - cur_size h) < 2 ^ 63" using c(3) fr by linarith
  note av = sint_small [OF this]
  have gt: "sint (of_nat (length s) :: u64) > sint (max_size h - cur_size h) \<longleftrightarrow> length s > ?m - ?c"
    unfolding sint_of_nat_small [OF assms(2)] av fr by (simp only: of_nat_less_iff)
  have h': "h' = h\<lparr>buffer := ?b, cur_size := if length s > ?m - ?c then max_size h else cur_size h + of_nat (length s),
      tot_size := tot_size h + of_nat (length s)\<rparr>"
    by (simp add: h'_def kfio_info_printf_def Let_def gt)
  show cu: "unat (cur_size h') = min ?m (?c + length s)"
  proof (cases "length s > ?m - ?c")
    case False
    then have "unat (cur_size h + of_nat (length s)) = ?c + length s"
      using c assms(2) unat_add_no_wrap [of "cur_size h" "of_nat (length s)"] by (simp add: unat_of_length)
    then show ?thesis using False c(1) by (simp add: h')
  qed (use c(1) in \<open>simp add: h'\<close>)
  have "length ?b = ?m" using c by (simp add: vsnprintf_store_def fr)
  then show "data_ok h'" using c cu by (auto simp: data_ok_def h' word_le_nat_alt)
  assume "cur_size h < max_size h"
  then have b: "?b = overwrite (buffer h) ?c (take (?m - ?c - 1) s @ [NUL])"
    using c by (simp add: vsnprintf_store_def fr word_less_nat_alt)
  have n: "Suc (?c + min (length s) (?m - ?c - 1)) = ?c + length (take (?m - ?c - 1) s @ [NUL])" by simp
  show "take ?c (buffer h') = take ?c (buffer h) \<and> take (Suc (?c + min (length s) (?m - ?c - 1))) (buffer h') =
        take ?c (buffer h) @ take (?m - ?c - 1) s @ [NUL]"
    unfolding n using c by (simp add: h' b del: length_append) (simp add: overwrite_def)
qed (simp_all add: h'_def kfio_info_printf_def Let_def)

subsection \<open>Sequences of operations\<close>

lemma step_sizes:
  assumes "data_ok h" and "length (op_text x) < 2 ^ 63"
  shows "data_ok (data_step x h)" and "max_size (data_step x h) = max_size h"
    and "unat (cur_size (data_step x h)) = min (unat (max_size h)) (unat (cur_size h) + length (op_text x))"
    and "tot_size (data_step x h) = tot_size h + of_nat (length (op_text x))"
  using assms(2) by (cases x; simp add: write_effect(1-4) [OF assms(1)] printf_effect(1-4) [OF assms(1)])+

lemma step_text:
  assumes "data_ok h" and "length (op_text x) < 2 ^ 63"
    and "(\<exists>s. x = Write s) \<or> unat (cur_size h) + length (op_text x) < unat (max_size h)"
  shows "take (unat (cur_size (data_step x h))) (buffer (data_step x h)) =
    take (unat (max_size h)) (take (unat (cur_size h)) (buffer h) @ op_text x)"
proof (cases x)
  case (Printf s)
  let ?c = "unat (cur_size h)" and ?m = "unat (max_size h)" and ?h = "data_step x h"
  have fits: "?c + length s < ?m" using assms(3) Printf by auto
  have l: "length s < 2 ^ 63" "cur_size h < max_size h" using assms(2) Printf fits by (auto simp: word_less_nat_alt)
  have n: "Suc (?c + min (length s) (?m - ?c - 1)) = Suc (?c + length s)" "take (?m - ?c - 1) s = s" using fits by auto
  have "take (Suc (?c + length s)) (buffer ?h) = take ?c (buffer h) @ s @ [NUL]"
    using conjunct2 [OF printf_effect(5) [OF assms(1) l]] Printf unfolding n by simp
  then have "take (?c + length s) (take (Suc (?c + length s)) (buffer ?h)) = take (?c + length s) ((take ?c (buffer h) @ s) @ [NUL])"
    by simp
  moreover have "?c \<le> length (buffer h)" using assms(1) by (simp add: data_ok_def word_le_nat_alt)
  ultimately have "take (?c + length s) (buffer ?h) = take ?c (buffer h) @ s" by simp
  moreover have "unat (cur_size ?h) = ?c + length s" using printf_effect(3) [OF assms(1) l(1)] Printf fits by simp
  ultimately show ?thesis using Printf fits by simp
next
  case (Write s)
  then show ?thesis using write_effect(5) [OF assms(1)] assms(2) by simp
qed

lemma steps_sizes:
  "data_ok h \<Longrightarrow> unat (tot_size h) + length (concat (map op_text xs)) < 2 ^ 63 \<Longrightarrow>
    unat (cur_size h) = min (unat (max_size h)) (unat (tot_size h)) \<Longrightarrow>
    data_ok (fold data_step xs h) \<and> max_size (fold data_step xs h) = max_size h \<and>
    unat (tot_size (fold data_step xs h)) = unat (tot_size h) + length (concat (map op_text xs)) \<and>
    unat (cur_size (fold data_step xs h)) = min (unat (max_size h)) (unat (tot_size h) + length (concat (map op_text xs)))"
proof (induction xs arbitrary: h)
  case (Cons x xs)
  have l: "length (op_text x) < 2 ^ 63" using Cons.prems(2) by simp
  have t: "unat (tot_size (data_step x h)) = unat (tot_size h) + length (op_text x)"
    using Cons.prems(2) l unat_add_no_wrap [of "tot_size h" "of_nat (length (op_text x))"]
    by (simp add: step_sizes(4) [OF Cons.prems(1) l] unat_of_length)
  have c: "unat (cur_size (data_step x h)) = min (unat (max_size h)) (unat (tot_size h) + length (op_text x))"
    using Cons.prems(3) by (simp add: step_sizes(3) [OF Cons.prems(1) l])
  show ?case using Cons.IH [of "data_step x h"] step_sizes(1,2) [OF Cons.prems(1) l] t c Cons.prems(2)
    by (simp add: add.assoc)
qed simp

lemma steps_text:
  "data_ok h \<Longrightarrow> length (concat (map op_text xs)) < 2 ^ 63 \<Longrightarrow>
    (\<forall>x\<in>set xs. \<exists>s. x = Write s) \<or> unat (cur_size h) + length (concat (map op_text xs)) < unat (max_size h) \<Longrightarrow>
    take (unat (cur_size (fold data_step xs h))) (buffer (fold data_step xs h)) =
      take (unat (max_size h)) (take (unat (cur_size h)) (buffer h) @ concat (map op_text xs))"
proof (induction xs arbitrary: h)
  case Nil
  then show ?case by (simp add: data_ok_def word_le_nat_alt)
next
  case (Cons x xs)
  have l: "length (op_text x) < 2 ^ 63" using Cons.prems(2) by simp
  let ?h = "data_step x h"
  have "take (unat (cur_size ?h)) (buffer ?h) = take (unat (max_size h)) (take (unat (cur_size h)) (buffer h) @ op_text x)"
    using Cons.prems(3) by (intro step_text [OF Cons.prems(1) l]) auto
  moreover have "take (unat (cur_size (fold data_step xs ?h))) (buffer (fold data_step xs ?h)) =
      take (unat (max_size ?h)) (take (unat (cur_size ?h)) (buffer ?h) @ concat (map op_text xs))"
    using Cons.prems(2,3) by (intro Cons.IH step_sizes(1) [OF Cons.prems(1) l]) (auto simp: step_sizes(2,3) [OF Cons.prems(1) l])
  moreover have "take m (take m ys @ zs) = take m (ys @ zs)" for m and ys zs :: string
    by (simp add: take_append min_def)
  ultimately show ?case by (simp add: step_sizes(2) [OF Cons.prems(1) l] min_def)
qed



text \<open>
  A print whose text is exactly as long as the free space loses its last character to the NUL
  that ends it, and neither the sizes nor the overflow test tell: the handle claims that all of the
  text is valid.
\<close>

lemma kfio_info_printf_loses_last:
  assumes "data_ok h" and "tot_size h = cur_size h" and "length s = unat (kfio_info_data_size_free h)" and "s \<noteq> []"
  shows "let h' = snd (kfio_info_printf (Some s) h)
    in cur_size h' = max_size h \<and> tot_size h' = max_size h \<and> \<not> kfio_info_data_overflow h' \<and>
       take (unat (cur_size h')) (buffer h') = take (unat (cur_size h)) (buffer h) @ butlast s @ [NUL]"
proof -
  let ?c = "unat (cur_size h)" and ?m = "unat (max_size h)"
  have c: "?c \<le> ?m" "?m < 2 ^ 63" using assms(1) by (auto simp: data_ok_def word_le_nat_alt)
  have "length s = ?m - ?c" using assms(1,3) by (simp add: data_ok_def unat_sub_le kfio_info_data_size_free_def)
  moreover have "s \<noteq> []" by (rule assms(4))
  ultimately have s: "length s < 2 ^ 63" "?c + length s = ?m" "cur_size h < max_size h" "length s > 0"
    using c length_greater_0_conv [of s] by (auto simp: word_less_nat_alt simp del: length_greater_0_conv)
  have n: "Suc (?c + min (length s) (?m - ?c - 1)) = ?m" "take (?m - ?c - 1) s = butlast s"
    using s(2,4) by (simp_all add: butlast_conv_take s(2) [symmetric] del: length_greater_0_conv)
  note e = printf_effect [OF assms(1) s(1)]
  have w: "of_nat (length s) = max_size h - cur_size h"
    unfolding assms(3) kfio_info_data_size_free_def by simp
  have "cur_size (snd (kfio_info_printf (Some s) h)) = max_size h" using e(3) s(2) by (simp add: word_unat_eq_iff)
  moreover have "tot_size (snd (kfio_info_printf (Some s) h)) = max_size h" using e(4) assms(2) w by simp
  moreover have "take ?m (buffer (snd (kfio_info_printf (Some s) h))) = take ?c (buffer h) @ butlast s @ [NUL]"
    using conjunct2 [OF e(5) [OF s(3)]] unfolding n .
  ultimately show ?thesis using e(2) by (simp add: Let_def kfio_info_data_overflow_def)
qed

end
