(* ===== verification/Kinfo_Tree.thy ===== *)
theory Kinfo_Tree
  imports Kinfo_Data
begin

text \<open>
  The tree of information nodes: \<open>common_kinfo.c\<close> except for the data handles.

  Nodes live in a map from addresses; a freed node is no longer in it.  A directory's
  \<open>subnode_list\<close> is the list of the addresses on it: \<open>fusion_list_add_tail\<close> appends and
  \<open>fusion_list_del\<close> removes, as the list theory shows.  The answers of \<open>kfio_malloc\<close> and of the OS
  hooks are arguments.  The mutex \<open>kinfo_lock\<close> serialises the functions and does not appear.  A loop that
  follows pointers takes fuel; None also stands for a NULL pointer that is followed.

  The lemmas relate the nodes to a tree: creation adds a leaf, removal frees exactly a subtree, and the
  full name of a node leads back to it.
\<close>

datatype info_type =
    KFIO_INFO_DIR | KFIO_INFO_INT32 | KFIO_INFO_UINT32 | KFIO_INFO_UINT64 | KFIO_INFO_STRING
  | KFIO_INFO_TEXT | KFIO_INFO_SEQFILE | KFIO_INFO_OTHER

record kfio_info_node =
  parent :: addr
  data :: addr
  node_type :: info_type
  node_size :: u64
  mode :: u32
  os_priv :: addr
  handler :: addr
  subnodes :: "addr list"
  name :: string

datatype info_event = Os_remove addr addr | Freed addr

record info_state =
  nodes :: "addr \<Rightarrow> kfio_info_node option"
  kinfo_root_node :: addr
  kinfo_os_init :: bool
  info_log :: "info_event list"

definition KFIO_INFO_MAX_NAMELEN :: nat where "KFIO_INFO_MAX_NAMELEN = 64"
definition KFIO_INFO_MAX_FULLPATHLEN :: nat where "KFIO_INFO_MAX_FULLPATHLEN = 256"
definition S_IRUGO :: u32 where "S_IRUGO = 0x124"

definition node :: "info_state \<Rightarrow> addr \<Rightarrow> kfio_info_node" where
  "node st a = the (nodes st a)"

definition set_node :: "addr \<Rightarrow> kfio_info_node \<Rightarrow> info_state \<Rightarrow> info_state" where
  "set_node a n st = st\<lparr>nodes := (nodes st)(a := Some n)\<rparr>"

subsection \<open>Nodes\<close>

text \<open>\<open>p\<close> is what \<open>kfio_malloc\<close> returns.\<close>

definition kfio_info_alloc_node :: "addr \<Rightarrow> info_type \<Rightarrow> string \<Rightarrow> info_state \<Rightarrow> addr \<times> info_state" where
  "kfio_info_alloc_node p ty nm st =
     (if length nm > KFIO_INFO_MAX_NAMELEN then (NULL, st)
      else if p = NULL then (NULL, st)
      else (p, set_node p \<lparr>parent = NULL, data = NULL, node_type = ty, node_size = 0, mode = 0, os_priv = NULL,
                 handler = NULL, subnodes = [], name = nm\<rparr> st))"

definition kfio_info_free_node :: "addr \<Rightarrow> info_state \<Rightarrow> info_state" where
  "kfio_info_free_node a st = st\<lparr>nodes := (nodes st)(a := None), info_log := info_log st @ [Freed a]\<rparr>"

fun lookup_list :: "info_state \<Rightarrow> addr list \<Rightarrow> string \<Rightarrow> addr" where
  "lookup_list st [] nm = NULL"
| "lookup_list st (c # cs) nm = (if name (node st c) = nm then c else lookup_list st cs nm)"

definition kfio_info_lookup_node :: "info_state \<Rightarrow> addr \<Rightarrow> string \<Rightarrow> addr" where
  "kfio_info_lookup_node st dir nm = lookup_list st (subnodes (node st dir)) nm"

text \<open>\<open>os_rc\<close> is the result of \<open>kfio_info_os_create_node\<close>.\<close>

definition kfio_info_insert_node :: "int \<Rightarrow> addr \<Rightarrow> addr \<Rightarrow> info_state \<Rightarrow> int \<times> info_state" where
  "kfio_info_insert_node os_rc dir a st =
     (if dir \<noteq> NULL \<and> kfio_info_lookup_node st dir (name (node st a)) \<noteq> NULL then (- EEXIST, st)
      else if os_rc \<noteq> 0 then (os_rc, st)
      else
        let dir = (if dir = NULL then kinfo_root_node st else dir);
            st = set_node a ((node st a)\<lparr>parent := dir\<rparr>) st
        in (0, set_node dir ((node st dir)\<lparr>subnodes := subnodes (node st dir) @ [a]\<rparr>) st))"

definition kfio_info_unlink_node :: "addr \<Rightarrow> info_state \<Rightarrow> info_state" where
  "kfio_info_unlink_node a st =
     (let dir = parent (node st a);
          st = st\<lparr>info_log := info_log st @ [Os_remove (if dir = kinfo_root_node st then NULL else dir) a]\<rparr>
      in if dir \<noteq> NULL
         then
           let st = set_node dir ((node st dir)\<lparr>subnodes := remove1 a (subnodes (node st dir))\<rparr>) st
           in set_node a ((node st a)\<lparr>parent := NULL\<rparr>) st
         else st)"

subsection \<open>Creation\<close>

text \<open>The common end of the creating functions: insert the node, or free it.\<close>

definition insert_or_free :: "int \<Rightarrow> addr \<Rightarrow> addr \<Rightarrow> info_state \<Rightarrow> int \<times> info_state" where
  "insert_or_free os_rc dir a st =
     (let (rc, st) = kfio_info_insert_node os_rc dir a st
      in (rc, if rc \<noteq> 0 then kfio_info_free_node a st else st))"

text \<open>The new directory is \<open>p\<close>.\<close>

definition kfio_info_create_dir :: "addr \<Rightarrow> int \<Rightarrow> addr \<Rightarrow> string \<Rightarrow> info_state \<Rightarrow> int \<times> info_state" where
  "kfio_info_create_dir p os_rc dir nm st =
     (let (a, st) = kfio_info_alloc_node p KFIO_INFO_DIR nm st
      in if a = NULL then (- ENOMEM, st)
         else insert_or_free os_rc dir a (set_node a ((node st a)\<lparr>mode := S_IRUGO\<rparr>) st))"

definition type_size :: "info_type \<Rightarrow> u64 \<Rightarrow> u64 option" where
  "type_size ty sz =
     (case ty of
        KFIO_INFO_INT32 \<Rightarrow> Some 4
      | KFIO_INFO_UINT32 \<Rightarrow> Some 4
      | KFIO_INFO_UINT64 \<Rightarrow> Some 8
      | KFIO_INFO_STRING \<Rightarrow> Some sz
      | _ \<Rightarrow> None)"

definition kfio_info_create_proc ::
  "addr \<Rightarrow> int \<Rightarrow> addr \<Rightarrow> string \<Rightarrow> info_type \<Rightarrow> u32 \<Rightarrow> addr \<Rightarrow> addr \<Rightarrow> u64 \<Rightarrow> info_state \<Rightarrow> int \<times> info_state" where
  "kfio_info_create_proc p os_rc dir nm ty md hdl param sz st =
     (if dir = NULL then (- EINVAL, st)
      else
        let (a, st) = kfio_info_alloc_node p ty nm st
        in if a = NULL then (- ENOMEM, st)
           else
             let n = (node st a)\<lparr>data := param, mode := md, handler := hdl\<rparr>
             in case type_size ty sz of
                  None \<Rightarrow> (- EINVAL, kfio_info_free_node a st)
                | Some s \<Rightarrow> insert_or_free os_rc dir a (set_node a (n\<lparr>node_size := s\<rparr>) st))"

definition kfio_info_create_type ::
  "addr \<Rightarrow> int \<Rightarrow> addr \<Rightarrow> string \<Rightarrow> info_type \<Rightarrow> u32 \<Rightarrow> addr \<Rightarrow> u64 \<Rightarrow> info_state \<Rightarrow> int \<times> info_state" where
  "kfio_info_create_type p os_rc dir nm ty md param sz st =
     kfio_info_create_proc p os_rc dir nm ty md NULL param sz st"

text \<open>\<open>kfio_info_create_seqf\<close> and \<open>kfio_info_create_text\<close> differ in the type and the handler's union member.\<close>

definition create_handled ::
  "info_type \<Rightarrow> addr \<Rightarrow> int \<Rightarrow> addr \<Rightarrow> string \<Rightarrow> u32 \<Rightarrow> addr \<Rightarrow> addr \<Rightarrow> info_state \<Rightarrow> int \<times> info_state" where
  "create_handled ty p os_rc dir nm md hdl param st =
     (if dir = NULL then (- EINVAL, st)
      else
        let (a, st) = kfio_info_alloc_node p ty nm st
        in if a = NULL then (- ENOMEM, st)
           else insert_or_free os_rc dir a (set_node a ((node st a)\<lparr>data := param, mode := md, handler := hdl\<rparr>) st))"

definition kfio_info_create_seqf ::
  "addr \<Rightarrow> int \<Rightarrow> addr \<Rightarrow> string \<Rightarrow> u32 \<Rightarrow> addr \<Rightarrow> addr \<Rightarrow> info_state \<Rightarrow> int \<times> info_state" where
  "kfio_info_create_seqf = create_handled KFIO_INFO_SEQFILE"

definition kfio_info_create_text ::
  "addr \<Rightarrow> int \<Rightarrow> addr \<Rightarrow> string \<Rightarrow> u32 \<Rightarrow> addr \<Rightarrow> addr \<Rightarrow> info_state \<Rightarrow> int \<times> info_state" where
  "kfio_info_create_text = create_handled KFIO_INFO_TEXT"

subsection \<open>Removal\<close>

definition remove_one :: "addr \<Rightarrow> info_state \<Rightarrow> info_state" where
  "remove_one a st = kfio_info_free_node a (kfio_info_unlink_node a st)"

text \<open>
  The two loops of \<open>kfio_info_remove_node\<close> as one: an iteration handles the first entry of the current
  directory, or leaves the directory when it is empty.  The caller's pointer, which ends as NULL, is not part
  of the state.
\<close>

fun remove_loop :: "nat \<Rightarrow> addr \<Rightarrow> addr \<Rightarrow> info_state \<Rightarrow> info_state option" where
  "remove_loop 0 stop dir st = (if dir = stop then Some st else None)"
| "remove_loop (Suc fuel) stop dir st =
     (if dir = stop then Some st
      else case nodes st dir of
             None \<Rightarrow> None
           | Some d \<Rightarrow>
               (case subnodes d of
                  [] \<Rightarrow> remove_loop fuel stop (parent d) (remove_one dir st)
                | c # _ \<Rightarrow>
                    if node_type (node st c) = KFIO_INFO_DIR then remove_loop fuel stop c st
                    else remove_loop fuel stop dir (remove_one c st)))"

definition kfio_info_remove_node :: "nat \<Rightarrow> addr \<Rightarrow> info_state \<Rightarrow> info_state option" where
  "kfio_info_remove_node fuel a st =
     (if a = NULL then Some st
      else if node_type (node st a) = KFIO_INFO_DIR then remove_loop fuel (parent (node st a)) a st
      else Some (remove_one a st))"

subsection \<open>Names\<close>

text \<open>\<open>kfio_info_find_node\<close>: NULL when there is no such node.\<close>

function kfio_info_find_node :: "info_state \<Rightarrow> addr \<Rightarrow> string \<Rightarrow> addr" where
  "kfio_info_find_node st a s =
     (if a = NULL then NULL
      else
        let p = dropWhile (\<lambda>c. c = CHR ''.'') s;
            comp = takeWhile (\<lambda>c. c \<noteq> CHR ''.'') p;
            rest = dropWhile (\<lambda>c. c \<noteq> CHR ''.'') p
        in if comp = [] then a
           else kfio_info_find_node st
                  (if node_type (node st a) = KFIO_INFO_DIR then kfio_info_lookup_node st a comp else NULL) rest)"
  by pat_completeness auto
termination
proof (relation "measure (\<lambda>(_, _, s). length s)", simp, clarsimp)
  fix s :: string
  let ?p = "dropWhile (\<lambda>c. c = CHR ''.'') s"
  assume "takeWhile (\<lambda>c. c \<noteq> CHR ''.'') ?p \<noteq> []"
  then have "0 < length (takeWhile (\<lambda>c. c \<noteq> CHR ''.'') ?p)" by (rule length_greater_0_conv [THEN iffD2])
  moreover have "length (takeWhile (\<lambda>c. c \<noteq> CHR ''.'') ?p) + length (dropWhile (\<lambda>c. c \<noteq> CHR ''.'') ?p) = length ?p"
    by (metis length_append takeWhile_dropWhile_id)
  moreover have "length ?p \<le> length s" by (rule length_dropWhile_le)
  ultimately show "length (dropWhile (\<lambda>c. c \<noteq> CHR ''.'') ?p) < length s" by linarith
qed

declare kfio_info_find_node.simps [simp del]

text \<open>
  \<open>kfio_info_node_pathname\<close>: the components are written from the end of a buffer of \<open>len\<close> characters
  backwards, each with a separator; \<open>acc\<close> is what has been written.  Inr is the name and
  its length is returned.
\<close>

fun pathname_loop :: "nat \<Rightarrow> info_state \<Rightarrow> addr \<Rightarrow> addr \<Rightarrow> nat \<Rightarrow> string \<Rightarrow> (int + string) option" where
  "pathname_loop fuel st topnode a len acc =
     (if a = topnode then Some (Inr (butlast acc))
      else case fuel of
             0 \<Rightarrow> None
           | Suc fuel \<Rightarrow>
               (case nodes st a of
                  None \<Rightarrow> None
                | Some n \<Rightarrow>
                    if length acc + length (name n) + 1 > len then Some (Inl (- EINVAL))
                    else pathname_loop fuel st topnode (parent n) len (name n @ CHR ''.'' # acc)))"

definition kfio_info_node_pathname :: "nat \<Rightarrow> info_state \<Rightarrow> addr \<Rightarrow> addr \<Rightarrow> nat \<Rightarrow> (int + string) option" where
  "kfio_info_node_pathname fuel st topnode a len = pathname_loop fuel st topnode a len []"

text \<open>
  \<open>kfio_info_node_walk_tree\<close>: the loop is at entry \<open>i\<close> of directory \<open>dir\<close>, \<open>path\<close> is \<open>parent_path\<close> up to
  \<open>parent_pathlen\<close>, and \<open>h\<close> the data handle that takes the names.  Going up resumes the parent's list
  behind the directory's own entry.
\<close>

fun index_of :: "addr \<Rightarrow> addr list \<Rightarrow> nat" where
  "index_of a [] = 0"
| "index_of a (x # xs) = (if x = a then 0 else Suc (index_of a xs))"

fun walk_loop :: "nat \<Rightarrow> info_state \<Rightarrow> addr \<Rightarrow> addr \<Rightarrow> nat \<Rightarrow> string \<Rightarrow> kfio_info_data \<Rightarrow> kfio_info_data option" where
  "walk_loop 0 st start dir i path h = None"
| "walk_loop (Suc fuel) st start dir i path h =
     (let d = node st dir
      in if i \<ge> length (subnodes d)
         then (if dir = start then Some h
               else
                 let up = parent d
                 in walk_loop fuel st start up (Suc (index_of dir (subnodes (node st up))))
                      (take (length path - (length (name d) + 1)) path) h)
         else
           let c = subnodes d ! i; n = node st c
           in if node_type n = KFIO_INFO_DIR
              then (if length path + (length (name n) + 1) \<ge> KFIO_INFO_MAX_FULLPATHLEN
                    then walk_loop fuel st start dir (Suc i) path h
                    else walk_loop fuel st start c 0 (path @ name n @ ''.'') h)
              else walk_loop fuel st start dir (Suc i) path
                     (snd (kfio_info_write (name n @ [NUL]) (snd (kfio_info_write path h)))))"

definition kfio_info_node_walk_tree ::
  "nat \<Rightarrow> info_state \<Rightarrow> addr \<Rightarrow> addr \<Rightarrow> kfio_info_data \<Rightarrow> (int \<times> kfio_info_data) option" where
  "kfio_info_node_walk_tree fuel st topnode start h =
     (if start = NULL \<or> node_type (node st start) \<noteq> KFIO_INFO_DIR then Some (- EINVAL, h)
      else case kfio_info_node_pathname fuel st topnode start (KFIO_INFO_MAX_FULLPATHLEN - 1) of
             None \<Rightarrow> None
           | Some (Inl e) \<Rightarrow> Some (e, h)
           | Some (Inr path) \<Rightarrow>
               map_option (\<lambda>h. (0, h)) (walk_loop fuel st start start 0 (if path = [] then [] else path @ ''.'') h))"

subsection \<open>Initialization\<close>

definition kfio_info_driver_fini :: "info_state \<Rightarrow> info_state" where
  "kfio_info_driver_fini st =
     (let st = st\<lparr>kinfo_os_init := False\<rparr>
      in if kinfo_root_node st \<noteq> NULL
         then (kfio_info_free_node (kinfo_root_node st) st)\<lparr>kinfo_root_node := NULL\<rparr>
         else st)"

definition kfio_info_driver_init :: "addr \<Rightarrow> int \<Rightarrow> info_state \<Rightarrow> int \<times> info_state" where
  "kfio_info_driver_init p os_rc st =
     (let (a, st) = kfio_info_alloc_node p KFIO_INFO_DIR ''fusion'' st;
          st = st\<lparr>kinfo_root_node := a\<rparr>
      in if a = NULL then (- ENOMEM, st)
         else
           let st = set_node a ((node st a)\<lparr>mode := S_IRUGO\<rparr>) st
           in if os_rc \<noteq> 0 then (os_rc, kfio_info_driver_fini st) else (0, st\<lparr>kinfo_os_init := True\<rparr>))"

datatype itree = INode (iaddr: addr) (iname: string) (itype: info_type) (isubs: "itree list")

fun is_tree :: "info_state \<Rightarrow> addr \<Rightarrow> itree \<Rightarrow> bool" where
  "is_tree st p (INode a nm ty ts) \<longleftrightarrow> a \<noteq> NULL \<and> (ty \<noteq> KFIO_INFO_DIR \<longrightarrow> ts = []) \<and>
     (\<exists>n. nodes st a = Some n \<and> parent n = p \<and> name n = nm \<and> node_type n = ty \<and> subnodes n = map iaddr ts) \<and>
     (\<forall>t\<in>set ts. is_tree st a t)"

fun addrs :: "itree \<Rightarrow> addr list" where
  "addrs (INode a nm ty ts) = a # concat (map addrs ts)"

fun postorder :: "itree \<Rightarrow> addr list" where
  "postorder (INode a nm ty ts) = concat (map postorder ts) @ [a]"

text \<open>Iterations of the removal loop for a subtree, from its directory.\<close>

fun rcost :: "itree \<Rightarrow> nat" where
  "rcost (INode a nm ty ts) = (if ty = KFIO_INFO_DIR then 2 + sum_list (map rcost ts) else 1)"

fun freed :: "info_event list \<Rightarrow> addr list" where
  "freed [] = []"
| "freed (Freed a # es) = a # freed es"
| "freed (_ # es) = freed es"

definition prune :: "addr list \<Rightarrow> addr \<Rightarrow> kfio_info_node \<Rightarrow> (addr \<Rightarrow> kfio_info_node option) \<Rightarrow> addr \<Rightarrow> kfio_info_node option" where
  "prune xs p np m x = (if x \<in> set xs then None else if x = p then Some np else m x)"

text \<open>The loop removes the first child of a directory, and in turn all of a list of children.\<close>

definition removes_child :: "itree \<Rightarrow> bool" where
  "removes_child t \<longleftrightarrow> (\<forall>st p np cs stop. is_tree st p t \<longrightarrow> p \<noteq> NULL \<longrightarrow> nodes st p = Some np \<longrightarrow>
     subnodes np = iaddr t # cs \<longrightarrow> p \<notin> set (addrs t) \<longrightarrow> distinct (addrs t) \<longrightarrow> stop \<notin> insert p (set (addrs t)) \<longrightarrow>
     (\<exists>st'. (\<forall>k. remove_loop (k + rcost t) stop p st = remove_loop k stop p st') \<and>
        nodes st' = prune (addrs t) p (np\<lparr>subnodes := cs\<rparr>) (nodes st) \<and>
        freed (info_log st') = freed (info_log st) @ postorder t \<and> kinfo_root_node st' = kinfo_root_node st))"

subsection \<open>The nodes as a tree\<close>

lemma freed_append [simp]: "freed (xs @ ys) = freed xs @ freed ys"
  by (induction xs rule: freed.induct) auto

lemma iaddr_in_addrs [simp]: "iaddr t \<in> set (addrs t)"
  by (cases t) simp

lemma is_tree_cong: "(\<And>x. x \<in> set (addrs t) \<Longrightarrow> nodes st' x = nodes st x) \<Longrightarrow> is_tree st' p t = is_tree st p t"
proof (induction t arbitrary: p)
  case (INode a nm ty ts)
  have "is_tree st' a t = is_tree st a t" if "t \<in> set ts" for t
    using INode.IH [OF that] INode.prems that by auto
  moreover have "nodes st' a = nodes st a" using INode.prems by simp
  ultimately show ?case by simp
qed

lemma is_tree_node: "is_tree st p t \<Longrightarrow> \<exists>n. nodes st (iaddr t) = Some n \<and> parent n = p \<and> name n = iname t \<and>
    node_type n = itype t \<and> subnodes n = map iaddr (isubs t) \<and> iaddr t \<noteq> NULL"
  by (cases t) auto

lemma remove_one_eq:
  assumes "nodes st a = Some n" and "parent n = p" and "p \<noteq> NULL" and "nodes st p = Some np" and "a \<noteq> p"
  shows "nodes (remove_one a st) = prune [a] p (np\<lparr>subnodes := remove1 a (subnodes np)\<rparr>) (nodes st)"
    and "freed (info_log (remove_one a st)) = freed (info_log st) @ [a]"
    and "kinfo_root_node (remove_one a st) = kinfo_root_node st"
  using assms
  by (auto simp: remove_one_def kfio_info_unlink_node_def kfio_info_free_node_def set_node_def node_def prune_def Let_def fun_eq_iff)

subsection \<open>Removal\<close>

lemma removes_children:
  assumes "\<forall>t\<in>set ts. removes_child t"
  shows "\<forall>t\<in>set ts. is_tree st a t \<Longrightarrow> a \<noteq> NULL \<Longrightarrow> nodes st a = Some na \<Longrightarrow> subnodes na = map iaddr ts \<Longrightarrow>
    distinct (a # concat (map addrs ts)) \<Longrightarrow> stop \<notin> set (a # concat (map addrs ts)) \<Longrightarrow>
    \<exists>st'. (\<forall>k. remove_loop (k + sum_list (map rcost ts)) stop a st = remove_loop k stop a st') \<and>
      nodes st' = prune (concat (map addrs ts)) a (na\<lparr>subnodes := []\<rparr>) (nodes st) \<and>
      freed (info_log st') = freed (info_log st) @ concat (map postorder ts) \<and> kinfo_root_node st' = kinfo_root_node st"
  using assms
proof (induction ts arbitrary: st na)
  case Nil
  then show ?case by (intro exI [of _ st]) (auto simp: prune_def fun_eq_iff)
next
  case (Cons t ts)
  have t: "removes_child t" "is_tree st a t" "subnodes na = iaddr t # map iaddr ts" "a \<notin> set (addrs t)"
    "distinct (addrs t)" "stop \<notin> insert a (set (addrs t))" using Cons.prems by auto
  obtain s1 where s1: "\<forall>k. remove_loop (k + rcost t) stop a st = remove_loop k stop a s1"
    "nodes s1 = prune (addrs t) a (na\<lparr>subnodes := map iaddr ts\<rparr>) (nodes st)"
    "freed (info_log s1) = freed (info_log st) @ postorder t" "kinfo_root_node s1 = kinfo_root_node st"
    using t(1) [unfolded removes_child_def, rule_format, OF t(2) Cons.prems(2,3) t(3-6)] by blast
  have same: "is_tree s1 a u" if "u \<in> set ts" for u
  proof -
    have "nodes s1 x = nodes st x" if "x \<in> set (addrs u)" for x
      using that \<open>u \<in> set ts\<close> Cons.prems(5) by (auto simp: s1(2) prune_def)
    then show ?thesis using is_tree_cong [of u s1 st a] Cons.prems(1) that by simp
  qed
  have na: "nodes s1 a = Some (na\<lparr>subnodes := map iaddr ts\<rparr>)" using Cons.prems(5) by (simp add: s1(2) prune_def)
  obtain s2 where s2: "\<forall>k. remove_loop (k + sum_list (map rcost ts)) stop a s1 = remove_loop k stop a s2"
    "nodes s2 = prune (concat (map addrs ts)) a (na\<lparr>subnodes := []\<rparr>) (nodes s1)"
    "freed (info_log s2) = freed (info_log s1) @ concat (map postorder ts)" "kinfo_root_node s2 = kinfo_root_node s1"
    using Cons.IH [of s1 "na\<lparr>subnodes := map iaddr ts\<rparr>"] same na Cons.prems(2,5-7) by auto
  have "remove_loop (k + sum_list (map rcost (t # ts))) stop a st = remove_loop k stop a s2" for k
    using s1(1) [rule_format, of "k + sum_list (map rcost ts)"] s2(1) by (simp add: ac_simps)
  moreover have "nodes s2 = prune (concat (map addrs (t # ts))) a (na\<lparr>subnodes := []\<rparr>) (nodes st)"
    using t(4) by (auto simp: s2(2) s1(2) prune_def fun_eq_iff)
  ultimately show ?case using s1(3,4) s2(3,4) by (intro exI [of _ s2]) simp
qed

text \<open>From inside a directory the loop empties it, frees it and goes on in its parent.\<close>

lemma removes_dir:
  assumes sub: "\<forall>t\<in>set ts. removes_child t" and t: "is_tree st p (INode a nm KFIO_INFO_DIR ts)" and p: "p \<noteq> NULL" "nodes st p = Some np"
    and d: "p \<notin> set (addrs (INode a nm KFIO_INFO_DIR ts))" "distinct (addrs (INode a nm KFIO_INFO_DIR ts))"
    and stop: "stop \<notin> set (addrs (INode a nm KFIO_INFO_DIR ts))"
  shows "\<exists>st'. (\<forall>k. remove_loop (k + (sum_list (map rcost ts) + 1)) stop a st = remove_loop k stop p st') \<and>
    nodes st' = prune (addrs (INode a nm KFIO_INFO_DIR ts)) p (np\<lparr>subnodes := remove1 a (subnodes np)\<rparr>) (nodes st) \<and>
    freed (info_log st') = freed (info_log st) @ postorder (INode a nm KFIO_INFO_DIR ts) \<and> kinfo_root_node st' = kinfo_root_node st"
proof -
  obtain na where na: "nodes st a = Some na" "parent na = p" "subnodes na = map iaddr ts" and a: "a \<noteq> NULL"
    and ts: "\<forall>t\<in>set ts. is_tree st a t" using t by auto
  obtain s1 where s1: "\<forall>k. remove_loop (k + sum_list (map rcost ts)) stop a st = remove_loop k stop a s1"
    "nodes s1 = prune (concat (map addrs ts)) a (na\<lparr>subnodes := []\<rparr>) (nodes st)"
    "freed (info_log s1) = freed (info_log st) @ concat (map postorder ts)" "kinfo_root_node s1 = kinfo_root_node st"
    using removes_children [OF sub ts a na(1,3), of stop] d stop by auto
  have n1: "nodes s1 a = Some (na\<lparr>subnodes := []\<rparr>)" "nodes s1 p = Some np" "a \<noteq> p"
    using d p(2) by (auto simp: s1(2) prune_def)
  note r = remove_one_eq [OF n1(1) _ p(1) n1(2,3), simplified, OF na(2)]
  have "a \<noteq> stop" using stop by auto
  then have "remove_loop (Suc k) stop a s1 = remove_loop k stop p (remove_one a s1)" for k
    using n1(1) na(2) by simp
  then have "remove_loop (k + (sum_list (map rcost ts) + 1)) stop a st = remove_loop k stop p (remove_one a s1)" for k
    using s1(1) [rule_format, of "Suc k"] by (simp del: remove_loop.simps)
  moreover have "nodes (remove_one a s1) =
      prune (addrs (INode a nm KFIO_INFO_DIR ts)) p (np\<lparr>subnodes := remove1 a (subnodes np)\<rparr>) (nodes st)"
    using d unfolding r(1) by (auto simp: s1(2) prune_def fun_eq_iff)
  ultimately show ?thesis using r(2,3) s1(3,4) by (intro exI [of _ "remove_one a s1"]) simp
qed

lemma removes_child_all: "removes_child t"
proof (induction t)
  case (INode a nm ty ts)
  then have sub: "\<forall>t\<in>set ts. removes_child t" by simp
  show ?case unfolding removes_child_def
  proof (intro allI impI)
    fix st p np cs stop
    assume t: "is_tree st p (INode a nm ty ts)" and p: "p \<noteq> NULL" "nodes st p = Some np"
      and c: "subnodes np = iaddr (INode a nm ty ts) # cs" and d: "p \<notin> set (addrs (INode a nm ty ts))" "distinct (addrs (INode a nm ty ts))"
      and stop: "stop \<notin> insert p (set (addrs (INode a nm ty ts)))"
    obtain n where n: "nodes st a = Some n" "parent n = p" "node_type n = ty" using t by auto
    have ap: "a \<noteq> p" "p \<noteq> stop" using d stop by auto
    show "\<exists>st'. (\<forall>k. remove_loop (k + rcost (INode a nm ty ts)) stop p st = remove_loop k stop p st') \<and>
        nodes st' = prune (addrs (INode a nm ty ts)) p (np\<lparr>subnodes := cs\<rparr>) (nodes st) \<and>
        freed (info_log st') = freed (info_log st) @ postorder (INode a nm ty ts) \<and> kinfo_root_node st' = kinfo_root_node st"
    proof (cases "ty = KFIO_INFO_DIR")
      case True
      have "remove_loop (Suc m) stop p st = remove_loop m stop a st" for m
        using p c n True ap(2) by (simp add: node_def)
      moreover have "np\<lparr>subnodes := remove1 a (subnodes np)\<rparr> = np\<lparr>subnodes := cs\<rparr>" using c by simp
      ultimately show ?thesis
        using removes_dir [OF sub t [unfolded True] p d [unfolded True], of stop] stop True by simp
    next
      case False
      then have "ts = []" using t by simp
      moreover have "remove_loop (Suc m) stop p st = remove_loop m stop p (remove_one a st)" for m
        using p c n False ap(2) by (simp add: node_def)
      ultimately show ?thesis
        using remove_one_eq [OF n(1,2) p(1,2) ap(1)] c False by (intro exI [of _ "remove_one a st"]) simp
    qed
  qed
qed

text \<open>
  C20: kfio_info_remove_node ends and removes exactly the subtree of the node: every node of it is
  unlinked and freed once, children before their directory, the entry disappears from the parent's
  list, and every other node stays as it is.
\<close>

theorem kfio_info_remove_subtree:
  assumes "is_tree st p t" and "p \<noteq> NULL" and "nodes st p = Some np" and "p \<notin> set (addrs t)" and "distinct (addrs t)"
    and "rcost t \<le> fuel"
  shows "\<exists>st'. kfio_info_remove_node fuel (iaddr t) st = Some st' \<and>
    freed (info_log st') = freed (info_log st) @ postorder t \<and> kinfo_root_node st' = kinfo_root_node st \<and>
    nodes st' = (\<lambda>x. if x \<in> set (addrs t) then None
                     else if x = p then Some (np\<lparr>subnodes := remove1 (iaddr t) (subnodes np)\<rparr>) else nodes st x)"
proof (cases t)
  case (INode a nm ty ts)
  obtain n where n: "nodes st a = Some n" "parent n = p" "node_type n = ty" "a \<noteq> NULL" using assms(1) INode by auto
  have pr: "prune xs p np' m = (\<lambda>x. if x \<in> set xs then None else if x = p then Some np' else m x)" for xs np' m
    by (simp add: prune_def fun_eq_iff)
  show ?thesis
  proof (cases "ty = KFIO_INFO_DIR")
    case True
    define r where "r = sum_list (map rcost ts) + 1"
    have "r \<le> fuel" using assms(6) INode True by (simp add: r_def)
    then have fuel: "fuel = (fuel - r) + r" by simp
    obtain st' where s: "\<forall>k. remove_loop (k + r) p a st = remove_loop k p p st'"
      "nodes st' = prune (addrs t) p (np\<lparr>subnodes := remove1 a (subnodes np)\<rparr>) (nodes st)"
      "freed (info_log st') = freed (info_log st) @ postorder t" "kinfo_root_node st' = kinfo_root_node st"
      using removes_dir [of ts st p a nm np p] assms INode True removes_child_all unfolding r_def by blast
    have "remove_loop k p p st' = Some st'" for k by (cases k) simp_all
    then have "kfio_info_remove_node fuel a st = Some st'"
      using n True s(1) fuel by (metis kfio_info_remove_node_def node_def option.sel)
    then show ?thesis using s(2-4) unfolding INode by (simp add: pr cong: if_cong)
  next
    case False
    then have "ts = []" "a \<noteq> p" using assms(1,4) INode by auto
    then show ?thesis using False n INode remove_one_eq [OF n(1,2) assms(2,3)]
      by (intro exI [of _ "remove_one a st"]) (simp add: kfio_info_remove_node_def node_def pr cong: if_cong)
  qed
qed

fun add_leaf :: "addr \<Rightarrow> itree \<Rightarrow> itree \<Rightarrow> itree" where
  "add_leaf d x (INode a nm ty ts) = INode a nm ty (map (add_leaf d x) ts @ (if a = d then [x] else []))"

fun entry_names :: "addr \<Rightarrow> itree \<Rightarrow> string list" where
  "entry_names d (INode a nm ty ts) = (if a = d then map iname ts else []) @ concat (map (entry_names d) ts)"

fun unique_names :: "itree \<Rightarrow> bool" where
  "unique_names (INode a nm ty ts) \<longleftrightarrow> distinct (map iname ts) \<and> (\<forall>t\<in>set ts. unique_names t)"

text \<open>The nodes form the tree \<open>t\<close> below the root, and no directory has two entries of one name.\<close>

definition info_inv :: "info_state \<Rightarrow> itree \<Rightarrow> bool" where
  "info_inv st t \<longleftrightarrow> is_tree st NULL t \<and> distinct (addrs t) \<and> unique_names t"

definition create_result :: "addr \<Rightarrow> string \<Rightarrow> bool \<Rightarrow> bool \<Rightarrow> int \<Rightarrow> int" where
  "create_result p nm creatable dup os_rc =
     (if length nm > KFIO_INFO_MAX_NAMELEN \<or> p = NULL then - ENOMEM
      else if \<not> creatable then - EINVAL
      else if dup then - EEXIST
      else os_rc)"

subsection \<open>Creation adds a leaf\<close>

lemma add_leaf_sel [simp]: "iaddr (add_leaf d x t) = iaddr t" "iname (add_leaf d x t) = iname t"
  by (cases t; simp)+

lemma add_leaf_id [simp]: "d \<notin> set (addrs t) \<Longrightarrow> add_leaf d x t = t"
  by (induction t) (auto intro: map_idI)

lemma entry_names_outside [simp]: "d \<notin> set (addrs t) \<Longrightarrow> entry_names d t = []"
  by (induction t) auto

lemma unique_child:
  assumes "distinct (concat (map f ts))" and "u \<in> set ts" and "d \<in> set (f u)"
  shows "\<exists>xs ys. ts = xs @ u # ys \<and> (\<forall>t\<in>set xs \<union> set ys. d \<notin> set (f t))"
proof -
  obtain xs ys where ts: "ts = xs @ u # ys" using split_list [OF assms(2)] by auto
  then show ?thesis using assms(1,3) by (intro exI [of _ xs] exI [of _ ys]) auto
qed

lemma is_tree_leaf_added:
  assumes "nodes st d = Some nd" and "node_type nd = KFIO_INFO_DIR" and "b \<noteq> d"
    and "nodes st' = (nodes st)(b := Some nb, d := Some (nd\<lparr>subnodes := subnodes nd @ [b]\<rparr>))"
    and "b \<noteq> NULL" "parent nb = d" "name nb = nm" "node_type nb = ty" "subnodes nb = []"
  shows "is_tree st p t \<Longrightarrow> distinct (addrs t) \<Longrightarrow> b \<notin> set (addrs t) \<Longrightarrow> is_tree st' p (add_leaf d (INode b nm ty []) t)"
proof (induction t arbitrary: p)
  case (INode a nm' ty' ts)
  let ?x = "INode b nm ty []"
  have sub: "is_tree st' a (add_leaf d ?x t)" if "t \<in> set ts" for t
    using INode.prems that by (intro INode.IH) (auto simp: distinct_concat_iff)
  show ?case
  proof (cases "a = d")
    case True
    then have "map (add_leaf d ?x) ts = ts" using INode.prems(2) by (intro map_idI) auto
    then show ?thesis using True INode.prems sub assms by (auto simp: map_idI)
  next
    case False
    then show ?thesis using INode.prems sub assms(4) by (auto simp: comp_def)
  qed
qed

lemma addrs_add_leaf:
  "b \<notin> set (addrs t) \<Longrightarrow> distinct (addrs t) \<Longrightarrow>
    distinct (addrs (add_leaf d (INode b nm ty []) t)) \<and> set (addrs (add_leaf d (INode b nm ty []) t)) \<subseteq> insert b (set (addrs t))"
proof (induction t)
  case (INode a nm' ty' ts)
  let ?g = "add_leaf d (INode b nm ty [])"
  have IH: "distinct (addrs (?g t)) \<and> set (addrs (?g t)) \<subseteq> insert b (set (addrs t))" if "t \<in> set ts" for t
    using INode that by (auto simp: distinct_concat_iff)
  show ?case
  proof (cases "\<exists>u\<in>set ts. d \<in> set (addrs u)")
    case True
    then obtain u where u: "u \<in> set ts" "d \<in> set (addrs u)" by blast
    obtain xs ys where ts: "ts = xs @ u # ys" and out: "\<forall>t\<in>set xs \<union> set ys. d \<notin> set (addrs t)"
      using unique_child [of addrs ts u d] INode.prems(2) u by auto
    have m: "map ?g ts = xs @ ?g u # ys" using out unfolding ts by (simp add: map_idI)
    have "a \<noteq> d" using INode.prems(2) u by auto
    then show ?thesis using INode.prems IH [OF u(1)] m by (auto simp: ts dest!: subsetD [OF conjunct2 [OF IH [OF u(1)]]])
  next
    case False
    then have "map ?g ts = ts" by (auto intro: map_idI)
    then show ?thesis using INode.prems by auto
  qed
qed

lemma unique_names_add_leaf:
  "unique_names t \<Longrightarrow> nm \<notin> set (entry_names d t) \<Longrightarrow> unique_names (add_leaf d (INode b nm ty []) t)"
proof (induction t)
  case (INode a nm' ty' ts)
  then have "\<forall>t\<in>set ts. unique_names (add_leaf d (INode b nm ty []) t)" by auto
  then show ?case using INode.prems by (auto simp: comp_def)
qed

lemma lookup_entries:
  "\<forall>t\<in>set ts. is_tree st a t \<Longrightarrow> lookup_list st (map iaddr ts) nm \<noteq> NULL \<longleftrightarrow> nm \<in> set (map iname ts)"
  by (induction ts) (auto simp: node_def dest!: is_tree_node)

lemma entries_of:
  "is_tree st p t \<Longrightarrow> distinct (addrs t) \<Longrightarrow> d \<in> set (addrs t) \<Longrightarrow>
    \<exists>q u. is_tree st q u \<and> iaddr u = d \<and> entry_names d t = map iname (isubs u)"
proof (induction t arbitrary: p)
  case (INode a nm' ty' ts)
  show ?case
  proof (cases "a = d")
    case True
    then have "concat (map (entry_names d) ts) = []" using INode.prems(2) by auto
    then show ?thesis using True INode.prems(1) by (intro exI [of _ p] exI [of _ "INode a nm' ty' ts"]) simp
  next
    case False
    then obtain u where u: "u \<in> set ts" "d \<in> set (addrs u)" using INode.prems(3) by auto
    obtain xs ys where ts: "ts = xs @ u # ys" and out: "\<forall>t\<in>set xs \<union> set ys. d \<notin> set (addrs t)"
      using unique_child [of addrs ts u d] INode.prems(2) u by auto
    have "concat (map (entry_names d) xs) = []" "concat (map (entry_names d) ys) = []" using out by auto
    then have "entry_names d (INode a nm' ty' ts) = entry_names d u" using False by (simp add: ts del: concat_eq_Nil_conv)
    then show ?thesis using INode.IH [OF u(1)] u INode.prems by (auto simp: ts)
  qed
qed

lemma lookup_iff:
  assumes "is_tree st p t" and "distinct (addrs t)" and "d \<in> set (addrs t)"
  shows "kfio_info_lookup_node st d nm \<noteq> NULL \<longleftrightarrow> nm \<in> set (entry_names d t)"
proof -
  obtain q u where u: "is_tree st q u" "iaddr u = d" "entry_names d t = map iname (isubs u)"
    using entries_of [OF assms] by blast
  obtain n where n: "nodes st d = Some n" "subnodes n = map iaddr (isubs u)" using is_tree_node [OF u(1)] u(2) by auto
  have "\<forall>v\<in>set (isubs u). is_tree st d v" using u(1,2) by (cases u) auto
  then show ?thesis using lookup_entries [of "isubs u" st d nm] n u(3)
    by (simp add: kfio_info_lookup_node_def node_def)
qed

text \<open>
  A prepared node that is not in the tree yet is inserted as a leaf, or is freed and leaves the tree alone.
\<close>

lemma insert_or_free_tree:
  fixes os_rc :: int
  assumes inv: "info_inv st t" and d: "d \<in> set (addrs t)" "node_type (node st d) = KFIO_INFO_DIR"
    and b: "b \<notin> set (addrs t)" "b \<noteq> NULL"
    and nb: "name nb = nm" "node_type nb = ty" "subnodes nb = []"
  defines "r \<equiv> insert_or_free os_rc d b (set_node b nb st)"
  shows "fst r = (if nm \<in> set (entry_names d t) then - EEXIST else os_rc)"
    and "info_inv (snd r) (if fst r = 0 then add_leaf d (INode b nm ty []) t else t)"
proof -
  have t: "is_tree st NULL t" "distinct (addrs t)" "unique_names t" using inv by (auto simp: info_inv_def)
  let ?s = "set_node b nb st"
  have same: "is_tree s NULL t" if "\<forall>x. x \<noteq> b \<longrightarrow> nodes s x = nodes st x" for s
    using is_tree_cong [of t s st NULL] that b(1) t(1) by metis
  have t': "is_tree ?s NULL t" by (rule same) (simp add: set_node_def)
  have bd: "b \<noteq> d" using b(1) d(1) by auto
  then have nd: "d \<noteq> NULL" "nodes st d \<noteq> None"
    using entries_of [OF t(1,2) d(1)] by (auto dest: is_tree_node)
  then obtain nd where nd': "nodes st d = Some nd" "node_type nd = KFIO_INFO_DIR" using d(2) by (auto simp: node_def)
  have nn: "node ?s b = nb" by (simp add: node_def set_node_def)
  have look: "kfio_info_lookup_node ?s d nm \<noteq> NULL \<longleftrightarrow> nm \<in> set (entry_names d t)"
    by (rule lookup_iff [OF t' t(2) d(1)])
  show fst: "fst r = (if nm \<in> set (entry_names d t) then - EEXIST else os_rc)"
    using look nd(1) nn nb(1) by (auto simp: r_def insert_or_free_def kfio_info_insert_node_def Let_def)
  show "info_inv (snd r) (if fst r = 0 then add_leaf d (INode b nm ty []) t else t)"
  proof (cases "fst r = 0")
    case True
    then have new: "nm \<notin> set (entry_names d t)" "os_rc = 0" using fst by (auto split: if_splits)
    then have "nodes (snd r) = (nodes st)(b := Some (nb\<lparr>parent := d\<rparr>), d := Some (nd\<lparr>subnodes := subnodes nd @ [b]\<rparr>))"
      using look nd(1) nn nb(1) bd nd'(1)
      by (auto simp: r_def insert_or_free_def kfio_info_insert_node_def Let_def set_node_def node_def)
    then have "is_tree (snd r) NULL (add_leaf d (INode b nm ty []) t)"
      by (rule is_tree_leaf_added [OF nd' bd _ b(2) _ _ _ _ t(1,2) b(1)]) (simp_all add: nb)
    then show ?thesis using True addrs_add_leaf [OF b(1) t(2)] unique_names_add_leaf [OF t(3) new(1)] by (simp add: info_inv_def)
  next
    case False
    then have "snd r = kfio_info_free_node b ?s"
      using look nd(1) nn nb(1) unfolding fst
      by (auto simp: r_def insert_or_free_def kfio_info_insert_node_def Let_def split: if_splits)
    then have "is_tree (snd r) NULL t" by (intro same) (simp add: kfio_info_free_node_def set_node_def)
    then show ?thesis using False t by (simp add: info_inv_def)
  qed
qed

text \<open>
  C19: Creating a directory, a typed entry, a sequence file or a text entry in a directory of the tree
  either adds exactly the new leaf to that directory or leaves the tree as it was; the invariant of the tree
  holds again in both cases.  The result tells which: -ENOMEM without a node or with too long a
  name, -EINVAL for a type without a size, -EEXIST for a name the directory has, the error of the OS hook, or 0.
\<close>

theorem kfio_info_create_refines:
  assumes "info_inv st t" and "dir \<in> set (addrs t)" and "node_type (node st dir) = KFIO_INFO_DIR" and "p \<notin> set (addrs t)"
  shows "\<forall>(ty, creatable, rc, st') \<in> set
      [(KFIO_INFO_DIR, True, kfio_info_create_dir p os_rc dir nm st),
       (ty0, type_size ty0 sz \<noteq> None, kfio_info_create_proc p os_rc dir nm ty0 md hdl param sz st),
       (KFIO_INFO_SEQFILE, True, kfio_info_create_seqf p os_rc dir nm md hdl param st),
       (KFIO_INFO_TEXT, True, kfio_info_create_text p os_rc dir nm md hdl param st)].
     rc = create_result p nm creatable (nm \<in> set (entry_names dir t)) os_rc \<and>
     info_inv st' (if rc = 0 then add_leaf dir (INode p nm ty []) t else t)"
proof -
  have dir: "dir \<noteq> NULL"
    using entries_of [of st NULL t dir] assms(1,2) by (auto simp: info_inv_def dest: is_tree_node)
  have free: "info_inv (kfio_info_free_node p (set_node p n st)) t" for n
  proof -
    have "nodes (kfio_info_free_node p (set_node p n st)) x = nodes st x" if "x \<in> set (addrs t)" for x
      using assms(4) that by (auto simp: kfio_info_free_node_def set_node_def)
    then show ?thesis using assms(1) is_tree_cong [of t "kfio_info_free_node p (set_node p n st)" st NULL] by (simp only: info_inv_def)
  qed
  have again: "set_node p n' (set_node p n st) = set_node p n' st" "node (set_node p n st) p = n" for n n'
    by (simp_all add: set_node_def node_def)
  define ok where "ok ty c r \<longleftrightarrow> fst r = create_result p nm c (nm \<in> set (entry_names dir t)) os_rc \<and>
    info_inv (snd r) (if fst r = 0 then add_leaf dir (INode p nm ty []) t else t)" for ty c r
  have ins: "ok ty True (insert_or_free os_rc dir p (set_node p n st))"
    if "name n = nm" "node_type n = ty" "subnodes n = []" "p \<noteq> NULL" "length nm \<le> KFIO_INFO_MAX_NAMELEN" for n ty
    using insert_or_free_tree [OF assms that(4,1-3), of os_rc] that(4,5) by (simp add: ok_def create_result_def)
  have no: "ok ty c (- ENOMEM, st)" if "length nm > KFIO_INFO_MAX_NAMELEN \<or> p = NULL" for ty c
    using that assms(1) by (auto simp: ok_def create_result_def)
  have al: "kfio_info_alloc_node p ty nm st =
      (if length nm > KFIO_INFO_MAX_NAMELEN \<or> p = NULL then (NULL, st)
       else (p, set_node p \<lparr>parent = NULL, data = NULL, node_type = ty, node_size = 0, mode = 0, os_priv = NULL,
                  handler = NULL, subnodes = [], name = nm\<rparr> st))" for ty
    by (simp add: kfio_info_alloc_node_def)
  have dir': "ok KFIO_INFO_DIR True (kfio_info_create_dir p os_rc dir nm st)"
    using no ins by (simp add: kfio_info_create_dir_def al again Let_def)
  have handled: "ok ty True (create_handled ty p os_rc dir nm md hdl param st)" for ty
    using no ins dir by (simp add: create_handled_def al again Let_def)
  have bad: "ok ty False (- EINVAL, kfio_info_free_node p (set_node p n st))"
    if "p \<noteq> NULL" "length nm \<le> KFIO_INFO_MAX_NAMELEN" for n ty
    using that free by (simp add: ok_def create_result_def)
  have proc: "ok ty0 (type_size ty0 sz \<noteq> None) (kfio_info_create_proc p os_rc dir nm ty0 md hdl param sz st)"
    using no ins bad dir by (cases "type_size ty0 sz") (simp_all add: kfio_info_create_proc_def al again Let_def)
  have okD: "case r of (rc, st') \<Rightarrow> rc = create_result p nm c (nm \<in> set (entry_names dir t)) os_rc \<and>
      info_inv st' (if rc = 0 then add_leaf dir (INode p nm ty []) t else t)" if "ok ty c r" for ty c r
    using that unfolding ok_def split_beta .
  show ?thesis
    using okD [OF dir'] okD [OF handled] okD [OF proc]
    unfolding kfio_info_create_seqf_def kfio_info_create_text_def
    by (simp only: list.set ball_simps split simp_thms)
qed

text \<open>The tree after initialization: only the root.\<close>

lemma driver_init_tree:
  "p \<noteq> NULL \<Longrightarrow> info_inv (snd (kfio_info_driver_init p 0 st)) (INode p ''fusion'' KFIO_INFO_DIR [])"
  by (simp add: info_inv_def kfio_info_driver_init_def kfio_info_alloc_node_def KFIO_INFO_MAX_NAMELEN_def set_node_def node_def)

theorem kfio_info_create_refines_witness:
  "let st = snd (kfio_info_driver_init 1 0 \<lparr>nodes = (\<lambda>_. None), kinfo_root_node = 0, kinfo_os_init = False, info_log = []\<rparr>)
   in info_inv (snd (kfio_info_create_dir 2 0 1 ''fct0'' st))
        (INode 1 ''fusion'' KFIO_INFO_DIR [INode 2 ''fct0'' KFIO_INFO_DIR []])"
proof -
  define st where "st = snd (kfio_info_driver_init 1 0
    \<lparr>nodes = (\<lambda>_. None), kinfo_root_node = 0, kinfo_os_init = False, info_log = []\<rparr>)"
  have i: "info_inv st (INode 1 ''fusion'' KFIO_INFO_DIR [])" unfolding st_def by (rule driver_init_tree) simp
  have "node_type (node st 1) = KFIO_INFO_DIR"
    by (simp add: st_def kfio_info_driver_init_def kfio_info_alloc_node_def KFIO_INFO_MAX_NAMELEN_def set_node_def node_def)
  then show ?thesis
    using kfio_info_create_refines [OF i, of 1 2 0 "''fct0''" KFIO_INFO_DIR 0 0 0 0]
    unfolding st_def [symmetric] Let_def by (auto simp: create_result_def KFIO_INFO_MAX_NAMELEN_def)
qed

text \<open>The node below \<open>t\<close> that a list of names leads to.\<close>

fun descend :: "itree \<Rightarrow> string list \<Rightarrow> itree option" where
  "descend t [] = Some t"
| "descend t (nm # nms) =
     (case List.find (\<lambda>u. iname u = nm) (isubs t) of None \<Rightarrow> None | Some u \<Rightarrow> descend u nms)"

text \<open>Names that a full name can hold: not empty and without the separator.\<close>

definition plain :: "string \<Rightarrow> bool" where
  "plain nm \<longleftrightarrow> nm \<noteq> [] \<and> CHR ''.'' \<notin> set nm"

definition full_name :: "string list \<Rightarrow> string" where
  "full_name nms = tl (concat (map (\<lambda>nm. CHR ''.'' # nm) nms))"

subsection \<open>Full names\<close>

lemma find_child: "List.find P ts = Some u \<Longrightarrow> u \<in> set ts \<and> P u"
  by (auto simp: find_Some_iff)

lemma descend_is_tree:
  "is_tree st p t \<Longrightarrow> descend t nms = Some u \<Longrightarrow> \<exists>q. is_tree st q u"
proof (induction nms arbitrary: t p)
  case (Cons nm nms)
  then obtain v where v: "v \<in> set (isubs t)" "descend v nms = Some u" by (auto split: option.splits dest!: find_child)
  then have "is_tree st (iaddr t) v" using Cons.prems(1) by (cases t) auto
  then show ?case using Cons.IH v(2) by blast
qed auto

lemma descend_snoc:
  "descend t (nms @ [nm]) = Some u \<longleftrightarrow> (\<exists>v. descend t nms = Some v \<and> List.find (\<lambda>u. iname u = nm) (isubs v) = Some u)"
  by (induction nms arbitrary: t) (auto split: option.splits)

lemma descend_addrs: "descend t nms = Some u \<Longrightarrow> set (addrs u) \<subseteq> set (addrs t)"
proof (induction nms arbitrary: t)
  case (Cons nm nms)
  then obtain v where "List.find (\<lambda>u. iname u = nm) (isubs t) = Some v" "descend v nms = Some u" by (auto split: option.splits)
  moreover from this(1) have "v \<in> set (isubs t)" by (auto dest: find_child)
  ultimately show ?case using Cons.IH [of v] by (cases t) auto
qed simp

lemma descend_below_root:
  "descend t (nm # nms) = Some u \<Longrightarrow> distinct (addrs t) \<Longrightarrow> iaddr u \<noteq> iaddr t"
proof -
  assume d: "descend t (nm # nms) = Some u" and "distinct (addrs t)"
  obtain v where v: "v \<in> set (isubs t)" "descend v nms = Some u" using d by (auto split: option.splits dest!: find_child)
  have "iaddr u \<in> set (addrs v)" using descend_addrs [OF v(2)] by auto
  then show ?thesis using v(1) \<open>distinct (addrs t)\<close> by (cases t) auto
qed

text \<open>The loop climbs from the node to the top and puts one component after the other in front.\<close>

lemma pathname_loop_climbs:
  assumes "is_tree st p t" and "distinct (addrs t)"
  shows "descend t nms = Some u \<Longrightarrow> length (concat (map (\<lambda>nm. nm @ ''.'') nms)) + length acc \<le> len \<Longrightarrow> length nms \<le> fuel \<Longrightarrow>
    pathname_loop fuel st (iaddr t) (iaddr u) len acc = Some (Inr (butlast (concat (map (\<lambda>nm. nm @ ''.'') nms) @ acc)))"
proof (induction nms arbitrary: u acc fuel rule: rev_induct)
  case Nil
  then show ?case by simp
next
  case (snoc nm nms)
  obtain v where v: "descend t nms = Some v" "u \<in> set (isubs v)" "iname u = nm"
    using snoc.prems(1) by (auto simp: descend_snoc dest: find_child)
  obtain q where "is_tree st q v" using descend_is_tree [OF assms(1) v(1)] by blast
  then obtain n where n: "nodes st (iaddr u) = Some n" "parent n = iaddr v" "name n = nm"
    using v(2,3) is_tree_node [of st "iaddr v" u] by (cases v) auto
  obtain f where f: "fuel = Suc f" using snoc.prems(3) by (cases fuel) auto
  have "iaddr u \<noteq> iaddr t"
    using snoc.prems(1) descend_below_root [OF _ assms(2)] by (cases nms) (auto simp del: descend.simps)
  then have "pathname_loop fuel st (iaddr t) (iaddr u) len acc = pathname_loop f st (iaddr t) (iaddr v) len (nm @ CHR ''.'' # acc)"
    using snoc.prems(2) n f by simp
  also have "\<dots> = Some (Inr (butlast (concat (map (\<lambda>nm. nm @ ''.'') nms) @ nm @ CHR ''.'' # acc)))"
    using snoc.prems(2,3) f by (intro snoc.IH [OF v(1)]) auto
  finally show ?case by simp
qed

lemma butlast_dotted: "butlast (concat (map (\<lambda>nm. nm @ ''.'') nms)) = full_name nms"
proof (cases nms)
  case (Cons nm rest)
  have "concat (map (\<lambda>nm. nm @ ''.'') (nm # rest)) = nm @ concat (map (\<lambda>nm. CHR ''.'' # nm) rest) @ ''.''"
    by (induction rest arbitrary: nm) auto
  then show ?thesis using Cons by (simp add: full_name_def butlast_append)
qed (simp add: full_name_def)

subsection \<open>Lookup by full name\<close>

lemma find_node_dot: "kfio_info_find_node st a (CHR ''.'' # s) = kfio_info_find_node st a s"
  by (simp add: kfio_info_find_node.simps [of st a "CHR ''.'' # s"] kfio_info_find_node.simps [of st a s])

lemma find_node_Nil: "kfio_info_find_node st a [] = a"
  by (simp add: kfio_info_find_node.simps)

lemma find_node_component:
  assumes "plain nm" and "a \<noteq> NULL" and "node_type (node st a) = KFIO_INFO_DIR" and "s = [] \<or> hd s = CHR ''.''"
  shows "kfio_info_find_node st a (nm @ s) = kfio_info_find_node st (kfio_info_lookup_node st a nm) s"
proof -
  have p: "dropWhile (\<lambda>c. c = CHR ''.'') (nm @ s) = nm @ s" using assms(1) by (cases nm) (auto simp: plain_def)
  have nm: "\<forall>c\<in>set nm. c \<noteq> CHR ''.''" using assms(1) by (auto simp: plain_def)
  then have "takeWhile (\<lambda>c. c \<noteq> CHR ''.'') (nm @ s) = nm" using assms(4) by (cases s) (simp_all add: takeWhile_append2)
  moreover have "dropWhile (\<lambda>c. c \<noteq> CHR ''.'') (nm @ s) = s" using nm assms(4) by (cases s) (simp_all add: dropWhile_append2)
  moreover have "nm \<noteq> []" using assms(1) by (simp add: plain_def)
  ultimately show ?thesis using assms(2,3) p by (simp add: kfio_info_find_node.simps [of st a "nm @ s"])
qed

lemma lookup_child:
  "\<forall>t\<in>set ts. is_tree st a t \<Longrightarrow> List.find (\<lambda>u. iname u = nm) ts = Some u \<Longrightarrow> lookup_list st (map iaddr ts) nm = iaddr u"
  by (induction ts) (auto simp: node_def dest!: is_tree_node split: if_splits)

lemma find_node_descends:
  "is_tree st p t \<Longrightarrow> descend t nms = Some u \<Longrightarrow> \<forall>nm\<in>set nms. plain nm \<Longrightarrow>
    kfio_info_find_node st (iaddr t) (concat (map (\<lambda>nm. CHR ''.'' # nm) nms)) = iaddr u"
proof (induction nms arbitrary: p t)
  case Nil
  then show ?case by (simp add: find_node_Nil)
next
  case (Cons nm nms)
  obtain v where v: "List.find (\<lambda>u. iname u = nm) (isubs t) = Some v" "descend v nms = Some u"
    using Cons.prems(2) by (auto split: option.splits)
  obtain a nm' ty ts where t: "t = INode a nm' ty ts" by (cases t)
  have sub: "\<forall>t\<in>set ts. is_tree st a t" "ty = KFIO_INFO_DIR" "v \<in> set ts" using Cons.prems(1) v(1) find_child [OF v(1)] t by auto
  have a: "a \<noteq> NULL" "node_type (node st a) = ty" "subnodes (node st a) = map iaddr ts" using Cons.prems(1) t by (auto simp: node_def)
  let ?s = "concat (map (\<lambda>nm. CHR ''.'' # nm) nms)"
  have "?s = [] \<or> hd ?s = CHR ''.''" by (cases nms) auto
  then have "kfio_info_find_node st a (CHR ''.'' # nm @ ?s) = kfio_info_find_node st (kfio_info_lookup_node st a nm) ?s"
    using find_node_component [of nm a st ?s] Cons.prems(3) a sub(2) by (simp add: find_node_dot)
  moreover have "kfio_info_lookup_node st a nm = iaddr v"
    using lookup_child [OF sub(1), of nm v] v(1) a(3) t by (simp add: kfio_info_lookup_node_def)
  moreover have "kfio_info_find_node st (iaddr v) ?s = iaddr u"
    using Cons.IH [of a v] sub v(2) Cons.prems(3) by auto
  ultimately show ?case using t by simp
qed

text \<open>
  C21: The full name that kfio_info_node_pathname gives for a node leads kfio_info_find_node back to the
  node: when the components on the way are not empty and have no dot in them, and the name with its
  separators fits into the buffer, the name is the components joined by dots, and looking it up from
  the same top node finds that node.
\<close>

theorem kfio_info_pathname_roundtrip:
  assumes "is_tree st p t" and "distinct (addrs t)" and "descend t nms = Some u" and "\<forall>nm\<in>set nms. plain nm"
    and "length (concat (map (\<lambda>nm. nm @ ''.'') nms)) \<le> len" and "length nms \<le> fuel"
  shows "kfio_info_node_pathname fuel st (iaddr t) (iaddr u) len = Some (Inr (full_name nms)) \<and>
    kfio_info_find_node st (iaddr t) (full_name nms) = iaddr u"
proof
  show "kfio_info_node_pathname fuel st (iaddr t) (iaddr u) len = Some (Inr (full_name nms))"
    using pathname_loop_climbs [OF assms(1-3), of "[]" len fuel] assms(5,6)
    by (simp add: kfio_info_node_pathname_def butlast_dotted)
  have "kfio_info_find_node st (iaddr t) (concat (map (\<lambda>nm. CHR ''.'' # nm) nms)) = iaddr u"
    by (rule find_node_descends [OF assms(1,3,4)])
  then show "kfio_info_find_node st (iaddr t) (full_name nms) = iaddr u"
    by (cases nms) (auto simp: full_name_def find_node_dot)
qed

text \<open>The full names of the leaves below a node whose directory has the name \<open>path\<close>, in the order of the lists.\<close>

fun leaf_names :: "string \<Rightarrow> itree \<Rightarrow> string list" where
  "leaf_names path (INode a nm ty ts) =
     (if ty \<noteq> KFIO_INFO_DIR then [path @ nm]
      else if length path + (length nm + 1) \<ge> KFIO_INFO_MAX_FULLPATHLEN then []
      else concat (map (leaf_names (path @ nm @ ''.'')) ts))"

text \<open>The writes of the walk and the number of its iterations.\<close>

fun listing :: "string \<Rightarrow> itree \<Rightarrow> data_op list" where
  "listing path (INode a nm ty ts) =
     (if ty \<noteq> KFIO_INFO_DIR then [Write path, Write (nm @ [NUL])]
      else if length path + (length nm + 1) \<ge> KFIO_INFO_MAX_FULLPATHLEN then []
      else concat (map (listing (path @ nm @ ''.'')) ts))"

fun wcost :: "string \<Rightarrow> itree \<Rightarrow> nat" where
  "wcost path (INode a nm ty ts) =
     (if ty \<noteq> KFIO_INFO_DIR \<or> length path + (length nm + 1) \<ge> KFIO_INFO_MAX_FULLPATHLEN then 1
      else 2 + sum_list (map (wcost (path @ nm @ ''.'')) ts))"

text \<open>The loop lists one entry of a directory, and in turn all of a list of entries.\<close>

definition walks :: "itree \<Rightarrow> bool" where
  "walks t \<longleftrightarrow> (\<forall>st start p np i path h. is_tree st p t \<longrightarrow> nodes st p = Some np \<longrightarrow> i < length (subnodes np) \<longrightarrow>
     subnodes np ! i = iaddr t \<longrightarrow> distinct (subnodes np) \<longrightarrow> distinct (addrs t) \<longrightarrow> start \<notin> set (addrs t) \<longrightarrow>
     (\<forall>k. walk_loop (k + wcost path t) st start p i path h =
          walk_loop k st start p (Suc i) path (fold data_step (listing path t) h)))"

subsection \<open>Listing a subtree\<close>

lemma listing_text: "concat (map op_text (listing path t)) = concat (map (\<lambda>n. n @ [NUL]) (leaf_names path t))"
proof (induction t arbitrary: path)
  case (INode a nm ty ts)
  have "concat (map op_text (concat (map (listing q) ts))) = concat (map (\<lambda>n. n @ [NUL]) (concat (map (leaf_names q) ts)))" for q
    using INode by (induction ts) auto
  then show ?case by simp
qed

lemma listing_writes: "x \<in> set (listing path t) \<Longrightarrow> \<exists>s. x = Write s"
  by (induction path t rule: listing.induct) (auto split: if_splits)

lemma index_of_nth: "distinct xs \<Longrightarrow> i < length xs \<Longrightarrow> index_of (xs ! i) xs = i"
proof (induction xs arbitrary: i)
  case (Cons x xs)
  then show ?case by (cases i) auto
qed simp

lemma distinct_iaddrs: "distinct (concat (map addrs ts)) \<Longrightarrow> distinct (map iaddr ts)"
proof (induction ts)
  case (Cons t ts)
  have "iaddr t \<noteq> iaddr u" if "u \<in> set ts" for u
    using Cons.prems that iaddr_in_addrs [of t] iaddr_in_addrs [of u] by fastforce
  then show ?case using Cons by auto
qed simp

lemma walks_entries:
  "\<forall>t\<in>set ts. walks t \<Longrightarrow> \<forall>t\<in>set ts. is_tree st p t \<Longrightarrow> nodes st p = Some np \<Longrightarrow> subnodes np = pre @ map iaddr ts \<Longrightarrow>
    distinct (subnodes np) \<Longrightarrow> distinct (concat (map addrs ts)) \<Longrightarrow> start \<notin> set (concat (map addrs ts)) \<Longrightarrow>
    walk_loop (k + sum_list (map (wcost path) ts)) st start p (length pre) path h =
      walk_loop k st start p (length (subnodes np)) path (fold data_step (concat (map (listing path) ts)) h)"
proof (induction ts arbitrary: pre k h)
  case (Cons t ts)
  have "walk_loop ((k + sum_list (map (wcost path) ts)) + wcost path t) st start p (length pre) path h =
      walk_loop (k + sum_list (map (wcost path) ts)) st start p (Suc (length pre)) path (fold data_step (listing path t) h)"
    using Cons.prems(1) [rule_format, of t, unfolded walks_def, rule_format, of st p np "length pre" start] Cons.prems by simp
  then show ?case
    using Cons.IH [of "pre @ [iaddr t]" k "fold data_step (listing path t) h"] Cons.prems by (simp add: ac_simps)
qed simp

lemma walks_all: "walks t"
proof (induction t)
  case (INode a nm ty ts)
  show ?case unfolding walks_def
  proof (intro allI impI)
    fix st start p np i path h k
    assume t: "is_tree st p (INode a nm ty ts)" and np: "nodes st p = Some np" "i < length (subnodes np)"
      "subnodes np ! i = iaddr (INode a nm ty ts)" "distinct (subnodes np)"
      and d: "distinct (addrs (INode a nm ty ts))" "start \<notin> set (addrs (INode a nm ty ts))"
    obtain n where n: "nodes st a = Some n" "parent n = p" "name n = nm" "node_type n = ty" "subnodes n = map iaddr ts"
      and sub: "\<forall>t\<in>set ts. is_tree st a t" using t by auto
    have at: "node st p = np" "node st a = n" "subnodes np ! i = a" "a \<noteq> start" using np n d by (auto simp: node_def)
    show "walk_loop (k + wcost path (INode a nm ty ts)) st start p i path h =
        walk_loop k st start p (Suc i) path (fold data_step (listing path (INode a nm ty ts)) h)"
    proof (cases "ty \<noteq> KFIO_INFO_DIR \<or> length path + (length nm + 1) \<ge> KFIO_INFO_MAX_FULLPATHLEN")
      case True
      then show ?thesis using at n np(2) by (auto simp: Let_def)
    next
      case False
      let ?q = "path @ nm @ ''.''" and ?c = "sum_list (map (wcost (path @ nm @ ''.'')) ts)"
      have da: "distinct (map iaddr ts)" using d(1) by (intro distinct_iaddrs) simp
      have "walk_loop (k + wcost path (INode a nm ty ts)) st start p i path h = walk_loop (Suc k + ?c) st start a 0 ?q h"
        using False at n np(2) by (simp add: Let_def)
      also have "\<dots> = walk_loop (Suc k) st start a (length ts) ?q (fold data_step (concat (map (listing ?q) ts)) h)"
        using walks_entries [of ts st a n "[]" start "Suc k" ?q h] INode sub n d da by simp
      also have "\<dots> = walk_loop k st start p (Suc (index_of a (subnodes np))) path (fold data_step (concat (map (listing ?q) ts)) h)"
        using at n by (simp add: Let_def)
      finally show ?thesis using index_of_nth [OF np(4,2)] np(3) False by simp
    qed
  qed
qed

lemma descend_distinct: "descend t nms = Some u \<Longrightarrow> distinct (addrs t) \<Longrightarrow> distinct (addrs u)"
proof (induction nms arbitrary: t)
  case (Cons nm nms)
  then obtain v where v: "v \<in> set (isubs t)" "descend v nms = Some u" by (auto split: option.splits dest!: find_child)
  then have "distinct (addrs v)" using Cons.prems(2) by (cases t) (auto simp: distinct_concat_iff)
  then show ?case using Cons.IH v(2) by blast
qed simp

lemma path_again:
  assumes "\<forall>nm\<in>set nms. plain nm"
  defines "path \<equiv> concat (map (\<lambda>nm. nm @ ''.'') nms)"
  shows "(if butlast path = [] then [] else butlast path @ ''.'') = path"
proof (cases nms rule: rev_cases)
  case (snoc xs x)
  then have "path = (concat (map (\<lambda>nm. nm @ ''.'') xs) @ x) @ ''.''" "x \<noteq> []"
    using assms(1) by (auto simp: path_def plain_def)
  then show ?thesis by (simp add: butlast_append)
qed (simp add: path_def)

lemma fresh_writes:
  fixes nd :: addr
  assumes "length buf = unat sz" and "unat sz < 2 ^ 63" and "\<forall>x\<in>set xs. \<exists>s. x = Write s" and "length (concat (map op_text xs)) < 2 ^ 63"
  defines "h \<equiv> fold data_step xs (kfio_info_reset_data_handle nd buf sz)"
  shows "unat (tot_size h) = length (concat (map op_text xs)) \<and> take (unat (cur_size h)) (buffer h) = take (unat sz) (concat (map op_text xs))"
proof -
  let ?h = "kfio_info_reset_data_handle nd buf sz"
  have ok: "data_ok ?h" and z: "cur_size ?h = 0" "tot_size ?h = 0" "max_size ?h = sz"
    using assms(1,2) by (simp_all add: data_ok_def kfio_info_reset_data_handle_def)
  show ?thesis using steps_sizes [OF ok, of xs] steps_text [OF ok, of xs] assms(3,4) unfolding h_def z by simp
qed

text \<open>
  C22: kfio_info_node_walk_tree ends with result 0 and lists the subtree: what it writes to the data handle
  are the full names of all leaves below the start node, in the order of the directory lists,
  each ended by a NUL character, and the valid bytes of the handle are those names as far as the buffer
  holds them.  Only directories whose own name would not fit into the path buffer are left out.
\<close>

theorem kfio_info_walk_lists_leaves:
  assumes "is_tree st p t" and "distinct (addrs t)" and "descend t nms = Some u" and "itype u = KFIO_INFO_DIR"
    and "\<forall>nm\<in>set nms. plain nm" and "length (concat (map (\<lambda>nm. nm @ ''.'') nms)) < KFIO_INFO_MAX_FULLPATHLEN"
    and "Suc (length nms + sum_list (map (wcost (concat (map (\<lambda>nm. nm @ ''.'') nms))) (isubs u))) \<le> fuel"
    and "length buf = unat sz" and "unat sz < 2 ^ 63"
    and "length (concat (map (\<lambda>n. n @ [NUL]) (concat (map (leaf_names (concat (map (\<lambda>nm. nm @ ''.'') nms))) (isubs u))))) < 2 ^ 63"
  shows "\<exists>h. kfio_info_node_walk_tree fuel st (iaddr t) (iaddr u) (kfio_info_reset_data_handle nd buf sz) = Some (0, h) \<and>
    (let out = concat (map (\<lambda>n. n @ [NUL]) (concat (map (leaf_names (concat (map (\<lambda>nm. nm @ ''.'') nms))) (isubs u))))
     in unat (tot_size h) = length out \<and> take (unat (cur_size h)) (buffer h) = take (unat sz) out)"
proof -
  define path where "path = concat (map (\<lambda>nm. nm @ ''.'') nms)"
  obtain q where u: "is_tree st q u" using descend_is_tree [OF assms(1,3)] by blast
  obtain n where n: "nodes st (iaddr u) = Some n" "node_type n = KFIO_INFO_DIR" "subnodes n = map iaddr (isubs u)" "iaddr u \<noteq> NULL"
    using is_tree_node [OF u] assms(4) by auto
  have d: "distinct (addrs u)" by (rule descend_distinct [OF assms(3,2)])
  then have sub: "\<forall>v\<in>set (isubs u). is_tree st (iaddr u) v" "distinct (concat (map addrs (isubs u)))"
    "iaddr u \<notin> set (concat (map addrs (isubs u)))" using u by (cases u; auto)+
  have p: "kfio_info_node_pathname fuel st (iaddr t) (iaddr u) (KFIO_INFO_MAX_FULLPATHLEN - 1) = Some (Inr (butlast path))"
    using pathname_loop_climbs [OF assms(1-3), of "[]" "KFIO_INFO_MAX_FULLPATHLEN - 1" fuel] assms(6,7)
    by (simp add: kfio_info_node_pathname_def path_def KFIO_INFO_MAX_FULLPATHLEN_def)
  have path: "(if butlast path = [] then [] else butlast path @ ''.'') = path"
    using assms(5) unfolding path_def by (rule path_again)
  let ?ops = "concat (map (listing path) (isubs u))" and ?h = "kfio_info_reset_data_handle nd buf sz"
  let ?c = "sum_list (map (wcost path) (isubs u))"
  have "walk_loop ((fuel - ?c) + ?c) st (iaddr u) (iaddr u) 0 path ?h =
      walk_loop (fuel - ?c) st (iaddr u) (iaddr u) (length (subnodes n)) path (fold data_step ?ops ?h)"
    using walks_entries [of "isubs u" st "iaddr u" n "[]" "iaddr u" "fuel - ?c" path ?h] walks_all sub n distinct_iaddrs [OF sub(2)] by simp
  moreover have f: "fuel - ?c + ?c = fuel" "fuel - ?c = Suc (fuel - Suc ?c)" using assms(7) by (auto simp: path_def)
  ultimately have "walk_loop fuel st (iaddr u) (iaddr u) 0 path ?h = Some (fold data_step ?ops ?h)"
    using n(1) by (simp add: node_def Let_def)
  then have "kfio_info_node_walk_tree fuel st (iaddr t) (iaddr u) ?h = Some (0, fold data_step ?ops ?h)"
    using n p path by (simp add: kfio_info_node_walk_tree_def node_def)
  moreover have "concat (map op_text (concat (map (listing path) us))) =
      concat (map (\<lambda>n. n @ [NUL]) (concat (map (leaf_names path) us)))" for us
    by (induction us) (simp_all add: listing_text)
  moreover have "\<forall>x\<in>set ?ops. \<exists>s. x = Write s" by (auto dest: listing_writes)
  ultimately show ?thesis using fresh_writes [OF assms(8,9), of ?ops nd] assms(10) by (simp add: path_def Let_def)
qed

definition leaf_node :: "addr \<Rightarrow> info_type \<Rightarrow> string \<Rightarrow> addr list \<Rightarrow> kfio_info_node" where
  "leaf_node par ty nm subs = \<lparr>parent = par, data = NULL, node_type = ty, node_size = 4, mode = S_IRUGO, os_priv = NULL,
     handler = NULL, subnodes = subs, name = nm\<rparr>"

definition sample_state :: info_state where
  "sample_state = \<lparr>nodes = [1 \<mapsto> leaf_node NULL KFIO_INFO_DIR ''fusion'' [2], 2 \<mapsto> leaf_node 1 KFIO_INFO_DIR ''fct0'' [3, 4],
     3 \<mapsto> leaf_node 2 KFIO_INFO_UINT32 ''temp'' [], 4 \<mapsto> leaf_node 2 KFIO_INFO_TEXT ''ver'' []],
     kinfo_root_node = 1, kinfo_os_init = True, info_log = []\<rparr>"

definition fct0_tree :: itree where
  "fct0_tree = INode 2 ''fct0'' KFIO_INFO_DIR [INode 3 ''temp'' KFIO_INFO_UINT32 [], INode 4 ''ver'' KFIO_INFO_TEXT []]"

definition sample_tree :: itree where
  "sample_tree = INode 1 ''fusion'' KFIO_INFO_DIR [fct0_tree]"

subsection \<open>An example tree\<close>

lemma sample_is_tree: "is_tree sample_state NULL sample_tree" "distinct (addrs sample_tree)"
  by (simp_all add: sample_state_def sample_tree_def fct0_tree_def leaf_node_def)

theorem kfio_info_remove_subtree_witness:
  "\<exists>st. kfio_info_remove_node 4 2 sample_state = Some st \<and> freed (info_log st) = [3, 4, 2] \<and> dom (nodes st) = {1}"
proof -
  have t: "is_tree sample_state 1 fct0_tree" using sample_is_tree(1) by (simp add: sample_tree_def)
  have n: "nodes sample_state 1 = Some (leaf_node NULL KFIO_INFO_DIR ''fusion'' [2])" by (simp add: sample_state_def)
  have f: "iaddr fct0_tree = 2" "addrs fct0_tree = [2, 3, 4]" "postorder fct0_tree = [3, 4, 2]" "rcost fct0_tree = 4" "info_log sample_state = []"
    by (simp_all add: fct0_tree_def sample_state_def)
  obtain st where st: "kfio_info_remove_node 4 2 sample_state = Some st" "freed (info_log st) = [3, 4, 2]"
    "nodes st = (\<lambda>x. if x \<in> set [2, 3, 4] then None else if x = 1 then
       Some ((leaf_node NULL KFIO_INFO_DIR ''fusion'' [2])\<lparr>subnodes := remove1 2 (subnodes (leaf_node NULL KFIO_INFO_DIR ''fusion'' [2]))\<rparr>)
       else nodes sample_state x)"
    using kfio_info_remove_subtree [OF t _ n, of 4, unfolded f] by auto
  have "dom (nodes st) = {1}" unfolding st(3) by (auto simp: sample_state_def dom_def split: if_splits)
  then show ?thesis using st(1,2) by blast
qed

theorem kfio_info_pathname_roundtrip_witness:
  "kfio_info_node_pathname 2 sample_state 1 3 255 = Some (Inr ''fct0.temp'') \<and>
   kfio_info_find_node sample_state 1 ''fct0.temp'' = 3"
  using kfio_info_pathname_roundtrip [OF sample_is_tree, of "[''fct0'', ''temp'']" "INode 3 ''temp'' KFIO_INFO_UINT32 []" 255 2]
  by (simp add: sample_tree_def fct0_tree_def plain_def full_name_def)

theorem kfio_info_walk_lists_leaves_witness:
  "\<exists>h. kfio_info_node_walk_tree 10 sample_state 1 1 (kfio_info_reset_data_handle 1 (replicate 32 NUL) 32) = Some (0, h) \<and>
     take (unat (cur_size h)) (buffer h) = ''fct0.temp'' @ NUL # ''fct0.ver'' @ [NUL]"
  using kfio_info_walk_lists_leaves [OF sample_is_tree, of "[]" sample_tree 10 "replicate 32 NUL" 32 1]
  by (auto simp: sample_tree_def fct0_tree_def KFIO_INFO_MAX_FULLPATHLEN_def Let_def)

end
