(* ===== verification/Kinfo_Os.thy ===== *)
theory Kinfo_Os
  imports Kinfo_Tree
begin

text \<open>
  The proc files of the information nodes: \<open>kinfo.c\<close>, and the handlers of
  \<open>common_kinfo.c\<close> that it calls.

  A byte is a character.  The variable of a node is the list of the bytes at \<open>nodep->data\<close>.  What comes from the
  kernel is an argument: the results of the user copies (the number of bytes not copied), of
  \<open>kfio_vmalloc\<close> (the bytes found in the new block, or None) and of the proc functions, and the bytes that the
  stack holds from the address of \<open>local_buf\<close> on and in the variable \<open>val\<close> before they are set.  Number formatting and parsing are those of \<open>snprintf\<close> with \<open>%lu\<close>, \<open>%llu\<close> and \<open>%d\<close>
  and of the kernel's \<open>simple_strtoul\<close> family in base 10: digits up to the first other character,
  and a result that wraps.

  The lemmas show that a number written to a node is read back, which part of its buffer a
  read copies to the user, and the names under which nodes appear in \<open>/proc\<close>.
\<close>

subsection \<open>Values\<close>

record kfio_info_val =
  val_type :: info_type
  val_size :: nat
  val_data :: string

datatype info_cmd = KFIO_INFO_READ | KFIO_INFO_WRITE

type_synonym type_handler =
  "info_cmd \<Rightarrow> kfio_info_val option \<Rightarrow> kfio_info_val option \<Rightarrow> string \<Rightarrow> int \<times> kfio_info_val option \<times> string"

definition kfio_info_handle_cmd :: type_handler where
  "kfio_info_handle_cmd cmd oldval newval var =
     (0,
      map_option (\<lambda>v. v\<lparr>val_data := overwrite (val_data v) 0 (take (val_size v) var)\<rparr>) oldval,
      case newval of None \<Rightarrow> var | Some v \<Rightarrow> overwrite var 0 (take (val_size v) (val_data v)))"

definition kfio_info_generic_type_handler :: "info_type \<Rightarrow> type_handler option \<Rightarrow> type_handler" where
  "kfio_info_generic_type_handler ty hdl cmd oldval newval var =
     (if ty = KFIO_INFO_UINT32 \<or> ty = KFIO_INFO_UINT64 \<or> ty = KFIO_INFO_INT32 \<or> ty = KFIO_INFO_STRING
      then (case hdl of Some f \<Rightarrow> f cmd oldval newval var | None \<Rightarrow> kfio_info_handle_cmd cmd oldval newval var)
      else (- EIO, oldval, var))"

definition kfio_info_generic_text_handler ::
  "info_type \<Rightarrow> (kfio_info_data \<Rightarrow> int \<times> kfio_info_data) option \<Rightarrow> kfio_info_data \<Rightarrow> int \<times> kfio_info_data" where
  "kfio_info_generic_text_handler ty hdl dbh =
     (if ty = KFIO_INFO_TEXT then (case hdl of Some f \<Rightarrow> f dbh | None \<Rightarrow> (- EIO, dbh)) else (- EIO, dbh))"

subsection \<open>Numbers\<close>

fun le_val :: "string \<Rightarrow> nat" where
  "le_val [] = 0"
| "le_val (c # cs) = of_char c + 256 * le_val cs"

fun le_bytes :: "nat \<Rightarrow> nat \<Rightarrow> string" where
  "le_bytes 0 v = []"
| "le_bytes (Suc n) v = char_of (v mod 256) # le_bytes n (v div 256)"

definition digit :: "nat \<Rightarrow> char" where
  "digit n = char_of (48 + n)"

definition digit_val :: "char \<Rightarrow> nat" where
  "digit_val c = of_char c - 48"

definition is_digit :: "char \<Rightarrow> bool" where
  "is_digit c \<longleftrightarrow> 48 \<le> (of_char c :: nat) \<and> (of_char c :: nat) \<le> 57"

fun dec :: "nat \<Rightarrow> string" where
  "dec n = (if n < 10 then [digit n] else dec (n div 10) @ [digit (n mod 10)])"

declare dec.simps [simp del]

definition digits_val :: "string \<Rightarrow> nat" where
  "digits_val = foldl (\<lambda>v c. 10 * v + digit_val c) 0"

text \<open>The value and the number of characters that were used.\<close>

definition simple_strtoul :: "string \<Rightarrow> u64 \<times> nat" where
  "simple_strtoul s = (let ds = takeWhile is_digit s in (of_nat (digits_val ds), length ds))"

definition simple_strtol :: "string \<Rightarrow> u64 \<times> nat" where
  "simple_strtol s =
     (case s of
        c # cs \<Rightarrow> if c = CHR ''-'' then (let (v, n) = simple_strtoul cs in (- v, Suc n)) else simple_strtoul s
      | [] \<Rightarrow> simple_strtoul s)"

text \<open>The text of a number for a read, and the variable's bytes and the end of the number for a write.\<close>

definition number_text :: "info_type \<Rightarrow> string \<Rightarrow> string" where
  "number_text ty bs =
     (if ty = KFIO_INFO_INT32
      then (let v = sint (of_nat (le_val (take 4 bs)) :: u32)
            in (if v < 0 then CHR ''-'' # dec (nat (- v)) else dec (nat v)) @ [CHR 0x0A])
      else dec (le_val bs) @ [CHR 0x0A])"

definition number_parse :: "info_type \<Rightarrow> string \<Rightarrow> string \<times> nat" where
  "number_parse ty s =
     (if ty = KFIO_INFO_UINT32 then (let (v, n) = simple_strtoul s in (le_bytes 4 (unat (ucast v :: u32)), n))
      else if ty = KFIO_INFO_UINT64 then (let (v, n) = simple_strtoul s in (le_bytes 8 (unat v), n))
      else (let (v, n) = simple_strtol s in (le_bytes 4 (unat (ucast v :: u32)), n)))"

subsection \<open>Reading and writing\<close>

text \<open>
  The pieces of a read: the result, the new position, and the part of the buffer that is copied to the
  user, as an offset and a length.  \<open>fault\<close> is the number of bytes that \<open>kfio_copy_to_user\<close> does not copy; that
  function takes the length as an \<open>unsigned\<close>.
\<close>

definition fio_proc_read_buffer :: "int \<Rightarrow> u64 \<Rightarrow> u64 \<Rightarrow> u64 \<Rightarrow> u64 \<times> u64 \<times> (u64 \<times> u32) option" where
  "fio_proc_read_buffer fault len count ppos =
     (let len = len - ppos;
          len = (if len > count then count else len)
      in if sint len > 0
         then (if fault = 0 then (len, ppos + len, Some (ppos, ucast len)) else (word_of_int fault, ppos, Some (ppos, ucast len)))
         else (len, ppos, None))"

text \<open>What the user gets: the bytes from the offset on, as far as \<open>buf\<close> and what is behind it reach.\<close>

definition copied :: "string \<Rightarrow> (u64 \<times> u32) option \<Rightarrow> string" where
  "copied buf r = (case r of None \<Rightarrow> [] | Some (off, n) \<Rightarrow> take (unat n) (drop (unat off) buf))"

text \<open>The result passes through the variable \<open>int rc\<close>.\<close>

definition as_int :: "u64 \<Rightarrow> u64" where
  "as_int r = scast (ucast r :: u32)"

definition string_buffer :: "nat \<Rightarrow> string option \<Rightarrow> string \<Rightarrow> string option" where
  "string_buffer sz vm stack = (if sz > 32 then vm else Some stack)"

definition kfio_info_os_type_read ::
  "string option \<Rightarrow> int \<Rightarrow> string \<Rightarrow> string \<Rightarrow> kfio_info_node \<Rightarrow> type_handler option \<Rightarrow> string \<Rightarrow> u64 \<Rightarrow> u64 \<Rightarrow>
     u64 \<times> u64 \<times> string \<times> string" where
  "kfio_info_os_type_read vm fault stack uninit nd hdl var count ppos =
     (let ty = node_type nd; sz = unat (node_size nd)
      in if ty = KFIO_INFO_STRING
         then
           (case string_buffer sz vm stack of
              None \<Rightarrow> (word_of_int (- ENOMEM), ppos, [], var)
            | Some buf \<Rightarrow>
                let (rc, v, var') = kfio_info_generic_type_handler ty hdl KFIO_INFO_READ
                      (Some \<lparr>val_type = ty, val_size = sz, val_data = buf\<rparr>) None var
                in if rc \<noteq> 0 then (word_of_int rc, ppos, [], var')
                   else
                     let (r, pos, c) = fio_proc_read_buffer fault (node_size nd) count ppos
                     in (as_int r, pos, copied (val_data (the v)) c, var'))
         else if ty = KFIO_INFO_UINT32 \<or> ty = KFIO_INFO_UINT64 \<or> ty = KFIO_INFO_INT32
         then
           let (rc, v, var') = kfio_info_generic_type_handler ty hdl KFIO_INFO_READ
                 (Some \<lparr>val_type = ty, val_size = sz, val_data = uninit\<rparr>) None var
           in if rc \<noteq> 0 then (word_of_int rc, ppos, [], var')
              else
                let s = number_text ty (val_data (the v));
                    (r, pos, c) = fio_proc_read_buffer fault (of_nat (length s)) count ppos
                in (as_int r, pos, copied (vsnprintf_store stack 0 32 s) c, var')
         else (word_of_int (- EINVAL), ppos, [], var))"

text \<open>\<open>d\<close> are the user's bytes and \<open>count\<close> their number; \<open>fault\<close> is the result of \<open>kfio_copy_from_user\<close>.\<close>

definition kfio_info_os_type_write ::
  "string option \<Rightarrow> int \<Rightarrow> string \<Rightarrow> kfio_info_node \<Rightarrow> type_handler option \<Rightarrow> string \<Rightarrow> string \<Rightarrow> u64 \<Rightarrow> u64 \<times> u64 \<times> string" where
  "kfio_info_os_type_write vm fault stack nd hdl var d ppos =
     (let ty = node_type nd; sz = unat (node_size nd); count = of_nat (length d) :: u64
      in case (if ty = KFIO_INFO_STRING then string_buffer sz vm stack else Some stack) of
           None \<Rightarrow> (word_of_int (- ENOMEM), ppos, var)
         | Some buf \<Rightarrow>
             if length d > (if ty = KFIO_INFO_STRING then sz else 32) then (word_of_int (- EINVAL), ppos, var)
             else if fault \<noteq> 0 then (word_of_int fault, ppos, var)
             else
               let ppos = ppos + count; buf = overwrite buf 0 d;
                   finish = (\<lambda>(rc, _, var). (if rc \<noteq> 0 then word_of_int (- EIO) else count, ppos, var))
               in if ty = KFIO_INFO_STRING
                  then finish (kfio_info_generic_type_handler ty hdl KFIO_INFO_WRITE None
                         (Some \<lparr>val_type = ty, val_size = sz, val_data = buf\<rparr>) var)
                  else if ty = KFIO_INFO_UINT32 \<or> ty = KFIO_INFO_UINT64 \<or> ty = KFIO_INFO_INT32
                  then
                    let (bytes, used) = number_parse ty buf
                    in if (of_nat used :: u64) < count - 1 then (word_of_int (- EINVAL), ppos, var)
                       else finish (kfio_info_generic_type_handler ty hdl KFIO_INFO_WRITE None
                              (Some \<lparr>val_type = ty, val_size = sz, val_data = bytes\<rparr>) var)
                  else (count, ppos, var))"

subsection \<open>Text and sequence files\<close>

text \<open>
  A show function hands the handle to the node's handler and commits what became valid, or a negative
  result.  \<open>dbh\<close> is the outcome of \<open>kfio_info_alloc_data_handle\<close>; the committed amount is the second result.
\<close>

definition kfio_info_linux_text_show ::
  "int + kfio_info_data \<Rightarrow> kfio_info_node \<Rightarrow> (kfio_info_data \<Rightarrow> int \<times> kfio_info_data) option \<Rightarrow> int \<times> int option" where
  "kfio_info_linux_text_show dbh nd hdl =
     (case dbh of
        Inl e \<Rightarrow> (- EIO, None)
      | Inr h \<Rightarrow>
          let (rc, h) = kfio_info_generic_text_handler (node_type nd) hdl h
          in (rc, Some (if rc < 0 then rc else int (unat (cur_size h)))))"

definition kfio_info_linux_seq_show ::
  "(kfio_info_data \<Rightarrow> int \<times> kfio_info_data) \<Rightarrow> kfio_info_data \<Rightarrow> int \<times> int \<times> kfio_info_data" where
  "kfio_info_linux_seq_show seq_show h =
     (let sz = cur_size h; (rc, h) = seq_show h
      in (rc, if rc < 0 then rc else int (unat (cur_size h - sz)), h))"

subsection \<open>Proc entries\<close>

datatype proc_event =
    Proc_mkdir string addr
  | Proc_file info_type string u32 addr addr
  | Proc_remove string addr

definition root_name :: "string \<Rightarrow> string" where
  "root_name nm = take 71 (''fusion/'' @ nm)"

text \<open>
  \<open>entry\<close> is what the proc function returns and \<open>par\<close> the parent node, None for NULL.  The results are the code, the
  node with its private field, and the calls.
\<close>

definition kfio_info_os_create_node ::
  "addr \<Rightarrow> kfio_info_node option \<Rightarrow> addr \<Rightarrow> kfio_info_node \<Rightarrow> int \<times> kfio_info_node \<times> proc_event list" where
  "kfio_info_os_create_node entry par a nd =
     (let ty = node_type nd
      in case (case par of
                 None \<Rightarrow> if ty \<noteq> KFIO_INFO_DIR then None else Some (NULL, root_name (name nd))
               | Some pn \<Rightarrow> if os_priv pn = NULL then None else Some (os_priv pn, name nd)) of
           None \<Rightarrow> (- EIO, nd, [])
         | Some (pdir, nm) \<Rightarrow>
             let calls = (if ty = KFIO_INFO_DIR then [Proc_mkdir nm pdir]
                          else if ty = KFIO_INFO_OTHER then []
                          else [Proc_file ty nm (mode nd) pdir a])
             in if calls = [] \<or> entry = NULL then (- EIO, nd, calls)
                else (0, nd\<lparr>os_priv := entry\<rparr>, calls))"

definition kfio_info_os_remove_node :: "kfio_info_node option \<Rightarrow> kfio_info_node \<Rightarrow> kfio_info_node \<times> proc_event list" where
  "kfio_info_os_remove_node par nd =
     (if os_priv nd = NULL then (nd, [])
      else (nd\<lparr>os_priv := NULL\<rparr>,
            [case par of None \<Rightarrow> Proc_remove (root_name (name nd)) NULL | Some pn \<Rightarrow> Proc_remove (name nd) (os_priv pn)]))"

subsection \<open>Numbers as text\<close>

lemma le_val_bound: "le_val bs < 256 ^ length bs"
proof (induction bs)
  case (Cons c cs)
  have step: "x + 256 * y < 256 * m" if "x < 256" "y < m" for x y m :: nat using that by linarith
  show ?case unfolding le_val.simps length_Cons power_Suc by (rule step [OF _ Cons.IH]) simp
qed simp

lemma le_bytes_val: "le_bytes (length bs) (le_val bs) = bs"
proof (induction bs)
  case (Cons c cs)
  have "(of_char c + 256 * le_val cs) mod 256 = (of_char c :: nat)" "(of_char c + 256 * le_val cs) div 256 = le_val cs"
    by (simp_all add: div_less)
  then show ?case using Cons.IH by (simp only: length_Cons le_bytes.simps le_val.simps) simp
qed simp

lemma digit_facts: "n < 10 \<Longrightarrow> is_digit (digit n) \<and> digit_val (digit n) = n"
  by (simp add: is_digit_def digit_def digit_val_def)

lemma dec_digits: "\<forall>c\<in>set (dec n). is_digit c"
proof (induction n rule: dec.induct)
  case (1 n)
  then show ?case by (subst dec.simps) (auto simp: digit_facts)
qed

lemma digits_val_snoc: "digits_val (s @ [c]) = 10 * digits_val s + digit_val c"
  by (simp add: digits_val_def)

lemma digits_val_dec: "digits_val (dec n) = n"
proof (induction n rule: dec.induct)
  case (1 n)
  then show ?case by (subst dec.simps) (auto simp: digits_val_snoc digit_facts, simp add: digits_val_def digit_facts)
qed

lemma length_dec: "n < 10 ^ Suc k \<Longrightarrow> length (dec n) \<le> Suc k"
proof (induction k arbitrary: n)
  case (Suc k)
  show ?case
  proof (cases "n < 10")
    case False
    have "n div 10 < 10 ^ Suc k" using Suc.prems by (simp add: div_less_iff_less_mult)
    then show ?thesis using Suc.IH [of "n div 10"] False by (subst dec.simps) simp
  qed (subst dec.simps, simp)
qed (subst dec.simps, simp)

lemma strtoul_dec: "simple_strtoul (dec n @ CHR 0x0A # s) = (of_nat n, length (dec n))"
proof -
  have "takeWhile is_digit (dec n @ CHR 0x0A # s) = dec n"
    using dec_digits [of n] by (simp add: takeWhile_append2 is_digit_def)
  then show ?thesis by (simp add: simple_strtoul_def digits_val_dec)
qed

lemma strtol_dec: "simple_strtol (dec n @ CHR 0x0A # s) = (of_nat n, length (dec n))"
proof -
  have "dec n \<noteq> []" by (subst dec.simps) simp
  then obtain c cs where c: "dec n = c # cs" by (cases "dec n") auto
  then have "c \<noteq> CHR ''-''" using dec_digits [of n] by (auto simp: is_digit_def)
  then show ?thesis using strtoul_dec [of n s] c by (simp add: simple_strtol_def)
qed

lemma strtol_minus: "simple_strtol (CHR ''-'' # dec n @ CHR 0x0A # s) = (- of_nat n, Suc (length (dec n)))"
  by (simp add: simple_strtol_def strtoul_dec)

lemma ucast_narrow: "(ucast (word_of_int k :: u64) :: u32) = word_of_int k"
  by (rule bit_word_eqI) (auto simp: bit_simps)

lemma int32_text_value:
  fixes w :: u32
  shows "sint w < 0 \<Longrightarrow> (ucast (- of_nat (nat (- sint w)) :: u64) :: u32) = w"
    and "0 \<le> sint w \<Longrightarrow> (ucast (of_nat (nat (sint w)) :: u64) :: u32) = w"
proof -
  assume "sint w < 0"
  then have "(- of_nat (nat (- sint w)) :: u64) = word_of_int (sint w)" by simp
  then show "(ucast (- of_nat (nat (- sint w)) :: u64) :: u32) = w" by (simp only: ucast_narrow) simp
next
  assume "0 \<le> sint w"
  then have "(of_nat (nat (sint w)) :: u64) = word_of_int (sint w)" by simp
  then show "(ucast (of_nat (nat (sint w)) :: u64) :: u32) = w" by (simp only: ucast_narrow) simp
qed

lemma number_parse_text:
  assumes "type_size ty 0 = Some sz" and "ty \<noteq> KFIO_INFO_STRING" and "length bs = unat sz"
  shows "number_parse ty (number_text ty bs @ s) = (bs, length (number_text ty bs) - 1)"
    and "length (number_text ty bs) \<le> 21" and "0 < length (number_text ty bs)"
proof -
  have ty: "ty = KFIO_INFO_UINT32 \<and> length bs = 4 \<or> ty = KFIO_INFO_UINT64 \<and> length bs = 8 \<or> ty = KFIO_INFO_INT32 \<and> length bs = 4"
    using assms by (cases ty) (auto simp: type_size_def)
  have b: "le_val bs < 256 ^ length bs" by (rule le_val_bound)
  have w4: "unat (of_nat (le_val bs) :: u32) = le_val bs" if "length bs = 4"
    using b that by (simp add: unat_of_nat take_bit_nat_eq_self)
  have c4: "ucast (of_nat (le_val bs) :: u64) = (of_nat (le_val bs) :: u32)" if "length bs = 4"
    using ucast_narrow [of "int (le_val bs)"] by simp
  have w8: "unat (of_nat (le_val bs) :: u64) = le_val bs" if "length bs = 8"
    using b that by (simp add: unat_of_nat take_bit_nat_eq_self)
  have bytes: "le_bytes (length bs) (le_val bs) = bs" by (rule le_bytes_val)
  let ?w = "of_nat (le_val bs) :: u32"
  have abs: "nat \<bar>sint ?w\<bar> < 10 ^ Suc 9"
    using sint_ge [of ?w] sint_lt [of ?w] by (auto simp: abs_if nat_less_iff)
  have l8: "length (dec (le_val bs)) \<le> Suc 19" if "length bs \<le> 8"
  proof (rule length_dec)
    have "(256::nat) ^ length bs \<le> 256 ^ 8" by (rule power_increasing [OF that]) simp
    then show "le_val bs < 10 ^ Suc 19" using b by simp
  qed
  have i: "length (dec (nat (- sint ?w))) \<le> 10" if "sint ?w < 0" using length_dec [of "nat (- sint ?w)" 9] abs that by simp
  have i': "length (dec (nat (sint ?w))) \<le> 10" if "0 \<le> sint ?w" using length_dec [of "nat (sint ?w)" 9] abs that by simp
  show "length (number_text ty bs) \<le> 21" using ty l8 i i' by (auto simp: number_text_def Let_def)
  show "0 < length (number_text ty bs)" by (simp add: number_text_def Let_def)
  show "number_parse ty (number_text ty bs @ s) = (bs, length (number_text ty bs) - 1)"
    using ty
  proof (elim disjE)
    assume "ty = KFIO_INFO_UINT32 \<and> length bs = 4"
    then show ?thesis using bytes w4 c4 by (simp add: number_parse_def number_text_def strtoul_dec)
  next
    assume "ty = KFIO_INFO_UINT64 \<and> length bs = 8"
    then show ?thesis using bytes w8 by (simp add: number_parse_def number_text_def strtoul_dec)
  next
    assume t: "ty = KFIO_INFO_INT32 \<and> length bs = 4"
    show ?thesis
    proof (cases "sint ?w < 0")
      case True
      then show ?thesis using t bytes w4 int32_text_value(1) [of ?w]
        by (simp add: number_parse_def number_text_def Let_def strtol_minus)
    next
      case False
      then show ?thesis using t bytes w4 int32_text_value(2) [of ?w]
        by (simp add: number_parse_def number_text_def Let_def strtol_dec)
    qed
  qed
qed

lemma as_int_small: "n < 2 ^ 31 \<Longrightarrow> as_int (of_nat n) = of_nat n"
proof -
  assume "n < 2 ^ 31"
  then have "int n < 2 ^ 31" by simp
  then have "sint (of_nat n :: u32) = int n" by (simp add: signed_of_nat signed_take_bit_int_eq_self)
  moreover have "ucast (of_nat n :: u64) = (of_nat n :: u32)" using ucast_narrow [of "int n"] by simp
  ultimately show ?thesis unfolding as_int_def by (metis of_int_of_nat_eq of_int_sint)
qed

lemma length_le_bytes [simp]: "length (le_bytes n v) = n"
  by (induction n arbitrary: v) simp_all

lemma overwrite_start: "length xs \<le> length buf \<Longrightarrow> take (length xs) (overwrite buf 0 xs) = xs"
  by (simp add: overwrite_def)

text \<open>Within the buffer a read copies what is left, at most \<open>count\<close> bytes; behind its end it copies \<open>count\<close> bytes.\<close>

lemma read_buffer_inside:
  assumes "unat ppos \<le> unat len" and "unat len < 2 ^ 31" and "unat count < 2 ^ 63"
  defines "n \<equiv> min (unat len - unat ppos) (unat count)"
  shows "fio_proc_read_buffer 0 len count ppos =
    (of_nat n, ppos + of_nat n, if n = 0 then None else Some (ppos, of_nat n))"
proof -
  have l: "unat (len - ppos) = unat len - unat ppos" using assms(1) by (simp add: unat_sub_le word_le_nat_alt)
  define m where "m = (if len - ppos > count then count else len - ppos)"
  have "unat m = n" using l by (auto simp: m_def n_def word_less_nat_alt min_def)
  moreover from this have "m = of_nat n" by auto
  ultimately have m: "m = of_nat n" "unat m = n" by simp_all
  have s: "sint m = int n" using sint_small [of m] assms(2) m(2) by (simp add: n_def)
  have c: "ucast m = (of_nat n :: u32)" unfolding m(1) using ucast_narrow [of "int n"] by simp
  show ?thesis unfolding fio_proc_read_buffer_def m_def [symmetric] Let_def using s c m(1) by simp
qed

lemma read_buffer_behind:
  assumes "unat len < unat ppos" and "unat len < 2 ^ 31" and "unat ppos < 2 ^ 63" and "0 < unat count" and "unat count < 2 ^ 31"
  shows "fio_proc_read_buffer 0 len count ppos = (count, ppos + count, Some (ppos, ucast count))"
proof -
  have "unat (len - ppos) = 2 ^ 64 + unat len - unat ppos"
    using assms(1) by (subst unat_sub_if') (auto simp: word_le_nat_alt)
  then have "len - ppos > count" using assms by (simp add: word_less_nat_alt)
  moreover have "sint count = int (unat count)" using assms(5) by (intro sint_small) simp
  then have "sint count > 0" using assms(4) by (simp only: of_nat_0_less_iff)
  ultimately show ?thesis by (simp add: fio_proc_read_buffer_def)
qed

text \<open>
  C24: A number that is written to a node as its decimal text with a newline is stored in the node's
  variable and is what the next read from the start of the file returns, for unsigned 32- and 64-bit and for
  signed 32-bit nodes, whatever the stack held before.
\<close>

theorem kfio_info_number_roundtrip:
  assumes "type_size (node_type nd) 0 = Some (node_size nd)" and "node_type nd \<noteq> KFIO_INFO_STRING"
    and "length bs = unat (node_size nd)" and "length bs \<le> length var" and "length uninit = length bs"
    and "32 \<le> length stack" and "32 \<le> length stack'" and "32 \<le> unat count" and "unat count < 2 ^ 63"
  shows "let s = number_text (node_type nd) bs
    in kfio_info_os_type_write vm 0 stack nd None var s ppos = (of_nat (length s), ppos + of_nat (length s), overwrite var 0 bs) \<and>
       kfio_info_os_type_read vm 0 stack' uninit nd None (overwrite var 0 bs) count 0 =
         (of_nat (length s), of_nat (length s), s, overwrite var 0 bs)"
proof -
  define s where "s = number_text (node_type nd) bs"
  note t = number_parse_text [OF assms(1-3), folded s_def]
  have ty: "node_type nd = KFIO_INFO_UINT32 \<or> node_type nd = KFIO_INFO_UINT64 \<or> node_type nd = KFIO_INFO_INT32"
    using assms(1,2) by (cases "node_type nd") (auto simp: type_size_def)
  have c: "\<not> (of_nat (length s - 1) :: u64) < of_nat (length s) - 1" using t(3) by (cases "length s") auto
  have p: "number_parse (node_type nd) (overwrite stack 0 s) = (bs, length s - 1)"
    using t(1) [of "drop (length s) stack"] by (simp add: overwrite_def)
  have "kfio_info_os_type_write vm 0 stack nd None var s ppos = (of_nat (length s), ppos + of_nat (length s), overwrite var 0 bs)"
    using t(2) ty p c assms(3)
    by (auto simp: kfio_info_os_type_write_def Let_def kfio_info_generic_type_handler_def kfio_info_handle_cmd_def)
  moreover have "kfio_info_os_type_read vm 0 stack' uninit nd None (overwrite var 0 bs) count 0 =
      (of_nat (length s), of_nat (length s), s, overwrite var 0 bs)"
  proof -
    have v: "overwrite uninit 0 (take (unat (node_size nd)) (overwrite var 0 bs)) = bs"
      using assms(3-5) overwrite_start [of bs var] by (simp add: overwrite_def)
    have n: "unat (of_nat (length s) :: u64) = length s" using unat_of_length [of s] t(2) by simp
    have st: "take (length s) (vsnprintf_store stack' 0 32 s) = s" using t(2) by (simp add: vsnprintf_store_def overwrite_def)
    have r: "fio_proc_read_buffer 0 (of_nat (length s)) count 0 = (of_nat (length s), of_nat (length s), Some (0, of_nat (length s)))"
      using read_buffer_inside [of 0 "of_nat (length s)" count] t(2,3) n assms(8,9) by simp
    have n32: "unat (of_nat (length s) :: u32) = length s" using t(2) by (simp add: unat_of_nat take_bit_nat_eq_self)
    show ?thesis
      using ty v r st n32 as_int_small [of "length s"] t(2)
      by (auto simp: kfio_info_os_type_read_def Let_def kfio_info_generic_type_handler_def kfio_info_handle_cmd_def s_def [symmetric] copied_def)
  qed
  ultimately show ?thesis unfolding s_def Let_def by blast
qed

theorem kfio_info_number_roundtrip_witness:
  "let nd = leaf_node 2 KFIO_INFO_UINT32 ''temp'' []; bs = le_bytes 4 300; s = number_text KFIO_INFO_UINT32 bs
   in kfio_info_os_type_read None 0 (replicate 32 NUL) ''....'' nd None (overwrite ''....'' 0 bs) 64 0 =
        (of_nat (length s), of_nat (length s), s, overwrite ''....'' 0 bs)"
  using kfio_info_number_roundtrip [of "leaf_node 2 KFIO_INFO_UINT32 ''temp'' []" "le_bytes 4 300" "''....''" "''....''"
      "replicate 32 NUL" "replicate 32 NUL" 64 None 0]
  by (simp add: leaf_node_def type_size_def Let_def)

text \<open>
  A read from a position inside the text of a node copies exactly the bytes that are left, at most
  as many as asked for, and moves the position behind them.  The position is not compared with the
  end: from a position behind the text the code copies as many bytes as the user asks for from
  memory behind the buffer.
\<close>

lemma fio_proc_read_buffer_bounds:
  assumes "unat len < 2 ^ 31" and "unat ppos < 2 ^ 63" and "0 < unat count" and "unat count < 2 ^ 31"
  shows "(unat ppos \<le> unat len \<longrightarrow>
      (let n = min (unat len - unat ppos) (unat count)
       in fio_proc_read_buffer 0 len count ppos = (of_nat n, ppos + of_nat n, if n = 0 then None else Some (ppos, of_nat n)) \<and>
          unat ppos + n \<le> unat len)) \<and>
    (unat len < unat ppos \<longrightarrow> fio_proc_read_buffer 0 len count ppos = (count, ppos + count, Some (ppos, ucast count)))"
  using read_buffer_inside [of ppos len count] read_buffer_behind [of len ppos count] assms by (auto simp: Let_def)

lemma fio_proc_read_buffer_bounds_example:
  "fio_proc_read_buffer 0 5 4 2 = (3, 5, Some (2, 3)) \<and> fio_proc_read_buffer 0 5 100 6 = (100, 106, Some (6, 100))"
  using fio_proc_read_buffer_bounds [of 5 2 4] fio_proc_read_buffer_bounds [of 5 6 100] by (simp add: Let_def)

subsection \<open>Proc entries\<close>

text \<open>Names of nodes fit into the buffer of the root name, and an entry is removed under the name and directory it was made with.\<close>

lemma root_name_fits: "length nm \<le> KFIO_INFO_MAX_NAMELEN \<Longrightarrow> root_name nm = ''fusion/'' @ nm"
  by (simp add: root_name_def KFIO_INFO_MAX_NAMELEN_def)

lemma os_create_remove:
  assumes "kfio_info_os_create_node entry par a nd = (0, nd', calls)"
  shows "\<exists>nm dir. (calls = [Proc_mkdir nm dir] \<or> calls = [Proc_file (node_type nd) nm (mode nd) dir a]) \<and>
    kfio_info_os_remove_node par nd' = (nd\<lparr>os_priv := NULL\<rparr>, [Proc_remove nm dir])"
  using assms
  by (auto simp: kfio_info_os_create_node_def kfio_info_os_remove_node_def Let_def split: option.splits if_splits)

end
