(* ===== verification/Kcpu.thy ===== *)
theory Kcpu
  imports Prelude
begin

text \<open>
  Processors: the map from processors to read queues and the processor topology of \<open>kcpu.c\<close>, its threads, and
  the notification of processors that come and go of \<open>khotplug.c\<close>.

  The kernel's view is an argument: the numbers of online and possible nodes, the node of a processor, which
  processors are online and how many the kernel counted.  Counts are natural numbers; they
  are numbers of nodes, processors and queues, far below the range of the source's \<open>uint32_t\<close>.  \<open>behind\<close> gives what
  the heap holds behind the array \<open>node_hist\<close>, which the search for the next node can reach.

  The lemmas show that without gaps in the numbering of the nodes every processor gets a queue that exists, and that
  processors share a queue only within a group of nodes; and what a gap does.
\<close>

record cpu_view =
  num_online_nodes :: nat
  num_possible_nodes :: nat
  num_online_cpus :: nat
  cpu_to_node :: "nat \<Rightarrow> nat"
  cpu_online :: "nat \<Rightarrow> bool"
  behind :: "nat \<Rightarrow> nat"

record kfio_cpu_topology =
  numnodes :: nat
  numcpus :: nat
  topo_cpu_to_node :: "nat list"

subsection \<open>Topology\<close>

text \<open>
  \<open>cpus\<close> are the possible processors in the order of the iteration.  The array has as many entries as there are
  possible processors and is indexed by their numbers: None is a write behind it.
\<close>

fun fill_nodes :: "cpu_view \<Rightarrow> nat list \<Rightarrow> nat list \<Rightarrow> nat list option" where
  "fill_nodes env [] m = Some m"
| "fill_nodes env (cpu # cpus) m =
     (if cpu < length m then fill_nodes env cpus (m[cpu := cpu_to_node env cpu]) else None)"

definition kfio_fill_cpu_topology :: "bool \<Rightarrow> nat list \<Rightarrow> nat list \<Rightarrow> cpu_view \<Rightarrow> (int \<times> kfio_cpu_topology) option" where
  "kfio_fill_cpu_topology malloc_ok uninit cpus env =
     (let top = \<lparr>numnodes = num_possible_nodes env, numcpus = length cpus, topo_cpu_to_node = []\<rparr>
      in if \<not> malloc_ok then Some (- ENOMEM, top)
         else map_option (\<lambda>m. (0, top\<lparr>topo_cpu_to_node := m\<rparr>)) (fill_nodes env cpus uninit))"

subsection \<open>Nodes in use\<close>

text \<open>The histogram: the number of processors of each node.\<close>

fun node_hist :: "cpu_view \<Rightarrow> nat list \<Rightarrow> nat list \<Rightarrow> nat list" where
  "node_hist env [] h = h"
| "node_hist env (cpu # cpus) h = node_hist env cpus (h[cpu_to_node env cpu := h ! cpu_to_node env cpu + 1])"

definition hist_at :: "cpu_view \<Rightarrow> nat list \<Rightarrow> nat \<Rightarrow> nat" where
  "hist_at env h i = (if i < length h then h ! i else behind env i)"

text \<open>\<open>while (node_hist[++node_counter] == 0 && node_counter < num_nodes);\<close>\<close>

function next_node :: "cpu_view \<Rightarrow> nat list \<Rightarrow> nat \<Rightarrow> nat" where
  "next_node env h c =
     (if hist_at env h (Suc c) = 0 \<and> Suc c < num_online_nodes env then next_node env h (Suc c) else Suc c)"
  by pat_completeness auto
termination
  by (relation "measure (\<lambda>(env, _, c). num_online_nodes env - c)") auto

declare next_node.simps [simp del]

fun node_map_loop :: "cpu_view \<Rightarrow> nat list \<Rightarrow> nat list \<Rightarrow> nat \<Rightarrow> nat list \<Rightarrow> nat list" where
  "node_map_loop env h [] node_counter m = m"
| "node_map_loop env h (ndx # ndxs) node_counter m =
     (if h ! ndx \<noteq> 0
      then node_map_loop env h ndxs (next_node env h node_counter) (m[ndx := node_counter])
      else node_map_loop env h ndxs node_counter m)"

definition node_map :: "cpu_view \<Rightarrow> nat list \<Rightarrow> nat list" where
  "node_map env h = node_map_loop env h [0..<num_possible_nodes env] 0 (replicate (num_possible_nodes env) 0)"

subsection \<open>Queues\<close>

text \<open>Enough queues for all processors: the queue of each processor and the number of queues used.\<close>

fun one_queue_each :: "cpu_view \<Rightarrow> nat \<Rightarrow> nat list \<Rightarrow> nat \<Rightarrow> nat \<Rightarrow> nat list \<times> nat" where
  "one_queue_each env count [] ix used = ([], used)"
| "one_queue_each env count (cpu # cpus) ix used =
     (let (qs, n) = (if cpu_online env cpu then one_queue_each env count cpus ((ix + 1) mod count) (used + 1)
                     else one_queue_each env count cpus ix used)
      in (ix # qs, n))"

text \<open>Nodes are grouped until there are no more groups than queues; without a queue the loop does not end.\<close>

partial_function (option) group_nodes :: "nat \<Rightarrow> nat \<Rightarrow> nat \<Rightarrow> nat \<Rightarrow> (nat \<times> nat) option" where
  "group_nodes num_nodes count nodes_per_cluster cluster_count =
     (if cluster_count > count
      then group_nodes num_nodes count (nodes_per_cluster + 1)
             ((num_nodes + (nodes_per_cluster + 1) - 1) div (nodes_per_cluster + 1))
      else Some (nodes_per_cluster, cluster_count))"

text \<open>\<open>cpus_in_cluster\<close> is an array of 16 counters, one for each group.\<close>

fun queue_per_cluster :: "cpu_view \<Rightarrow> nat list \<Rightarrow> nat \<Rightarrow> nat \<Rightarrow> nat list \<Rightarrow> (nat \<Rightarrow> nat) \<Rightarrow> nat list" where
  "queue_per_cluster env nm npc qpc [] cpus_in_cluster = []"
| "queue_per_cluster env nm npc qpc (cpu # cpus) cpus_in_cluster =
     (let cluster = nm ! cpu_to_node env cpu div npc;
          read_q = cluster * qpc + cpus_in_cluster cluster mod qpc
      in read_q # queue_per_cluster env nm npc qpc cpus
           (if cpu_online env cpu then cpus_in_cluster(cluster := cpus_in_cluster cluster + 1) else cpus_in_cluster))"

text \<open>The result and the queue of each processor.\<close>

definition kfio_map_cpus_to_read_queues :: "cpu_view \<Rightarrow> nat \<Rightarrow> nat \<Rightarrow> (nat \<times> nat list) option" where
  "kfio_map_cpus_to_read_queues env ncpus count =
     (let num_nodes = num_online_nodes env;
          h = node_hist env [0..<ncpus] (replicate (num_possible_nodes env) 0);
          nm = node_map env h
      in if count \<ge> num_online_cpus env
         then
           let (qs, used) = one_queue_each env count [0..<ncpus] 0 0
           in Some (if used < count then used else count, qs)
         else if count < num_nodes
         then (case group_nodes num_nodes count 1 num_nodes of
                 None \<Rightarrow> None
               | Some (npc, cc) \<Rightarrow> Some (cc, queue_per_cluster env nm npc 1 [0..<ncpus] (\<lambda>_. 0)))
         else
           let qpc = count div num_nodes
           in Some (num_nodes * qpc, queue_per_cluster env nm 1 qpc [0..<ncpus] (\<lambda>_. 0)))"

subsection \<open>Hotplug\<close>

record hotplug_state =
  hotplug_initialized :: bool
  notify_list :: "addr list"
  cpuhp_registered :: bool
  hp_calls :: "(addr \<times> bool \<times> nat) list"

definition send_event_all :: "bool \<Rightarrow> nat \<Rightarrow> hotplug_state \<Rightarrow> hotplug_state" where
  "send_event_all online_flag cpu st =
     st\<lparr>hp_calls := hp_calls st @ map (\<lambda>f. (f, online_flag, cpu)) (notify_list st)\<rparr>"

definition kfio_cpu_notify_offline :: "nat \<Rightarrow> hotplug_state \<Rightarrow> hotplug_state" where
  "kfio_cpu_notify_offline cpu st = send_event_all False cpu st"

definition kfio_cpu_notify_online :: "nat \<Rightarrow> hotplug_state \<Rightarrow> hotplug_state" where
  "kfio_cpu_notify_online cpu st = send_event_all True cpu st"

definition kfio_register_cpu_notifier :: "bool \<Rightarrow> addr \<Rightarrow> hotplug_state \<Rightarrow> int \<times> hotplug_state" where
  "kfio_register_cpu_notifier malloc_ok func st =
     (if \<not> malloc_ok then (- ENOMEM, st)
      else
        let do_register = \<not> hotplug_initialized st;
            st = st\<lparr>notify_list := notify_list st @ [func], hotplug_initialized := True\<rparr>
        in (0, if do_register then st\<lparr>cpuhp_registered := True\<rparr> else st))"

definition kfio_unregister_cpu_notifier :: "addr \<Rightarrow> hotplug_state \<Rightarrow> hotplug_state" where
  "kfio_unregister_cpu_notifier func st =
     (let st = st\<lparr>notify_list := remove1 func (notify_list st)\<rparr>
      in if notify_list st = [] then st\<lparr>hotplug_initialized := False, cpuhp_registered := False\<rparr> else st)"

text \<open>The online nodes are numbered from 0 without gaps, and each has a processor.\<close>

definition contiguous_nodes :: "cpu_view \<Rightarrow> nat \<Rightarrow> bool" where
  "contiguous_nodes env ncpus \<longleftrightarrow> 0 < num_online_nodes env \<and> num_online_nodes env \<le> num_possible_nodes env \<and>
     (\<forall>cpu<ncpus. cpu_to_node env cpu < num_online_nodes env) \<and>
     (\<forall>nd<num_online_nodes env. \<exists>cpu<ncpus. cpu_to_node env cpu = nd)"

text \<open>
  A gap in the numbering: with the nodes 0 and 2 and two queues for three processors, the processors of node 2 are
  given queue 2, which does not exist.
\<close>

definition two_nodes :: cpu_view where
  "two_nodes = \<lparr>num_online_nodes = 2, num_possible_nodes = 2, num_online_cpus = 3, cpu_to_node = (\<lambda>c. c mod 2),
     cpu_online = (\<lambda>_. True), behind = (\<lambda>_. 0)\<rparr>"

definition gap_nodes :: cpu_view where
  "gap_nodes = \<lparr>num_online_nodes = 2, num_possible_nodes = 3, num_online_cpus = 3, cpu_to_node = (\<lambda>c. if c = 1 then 2 else 0),
     cpu_online = (\<lambda>_. True), behind = (\<lambda>_. 0)\<rparr>"

definition hotplug_inv :: "hotplug_state \<Rightarrow> bool" where
  "hotplug_inv st \<longleftrightarrow> (hotplug_initialized st \<longleftrightarrow> notify_list st \<noteq> []) \<and> cpuhp_registered st = hotplug_initialized st"

subsection \<open>Topology\<close>

lemma fill_nodes_exact:
  "\<forall>c\<in>set cpus. c < length m \<Longrightarrow> fill_nodes env cpus m = Some (fold (\<lambda>c m. m[c := cpu_to_node env c]) cpus m)"
  by (induction cpus arbitrary: m) auto

lemma fold_upd_length: "length (fold (\<lambda>c m. m[c := f c]) cs m) = length m"
  by (induction cs arbitrary: m) auto

lemma fold_upd_nth: "i < length m \<Longrightarrow> fold (\<lambda>c m. m[c := f c]) cs m ! i = (if i \<in> set cs then f i else m ! i)"
  by (induction cs arbitrary: m) (auto simp: nth_list_update)

text \<open>The topology maps every processor to its node when the possible processors are numbered without gaps.\<close>

lemma fill_cpu_topology_exact:
  assumes "cpus = [0..<n]" and "length uninit = n"
  shows "kfio_fill_cpu_topology True uninit cpus env =
    Some (0, \<lparr>numnodes = num_possible_nodes env, numcpus = n, topo_cpu_to_node = map (cpu_to_node env) [0..<n]\<rparr>)"
proof -
  have "fold (\<lambda>c m. m[c := cpu_to_node env c]) [0..<n] uninit = map (cpu_to_node env) [0..<n]"
    using assms(2) by (intro nth_equalityI) (auto simp: fold_upd_length fold_upd_nth)
  then show ?thesis using assms fill_nodes_exact [of cpus uninit env] by (simp add: kfio_fill_cpu_topology_def)
qed

text \<open>With a gap the array is too short for the last processor.\<close>

lemma fill_cpu_topology_gap:
  "c \<in> set cpus \<Longrightarrow> length m \<le> c \<Longrightarrow> fill_nodes env cpus m = None"
  by (induction cpus arbitrary: m) auto

subsection \<open>Nodes in use\<close>

lemma node_hist_length [simp]: "length (node_hist env cpus h) = length h"
  by (induction cpus arbitrary: h) simp_all

lemma node_hist_nth:
  "\<forall>c\<in>set cpus. cpu_to_node env c < length h \<Longrightarrow> i < length h \<Longrightarrow>
    node_hist env cpus h ! i = h ! i + length (filter (\<lambda>c. cpu_to_node env c = i) cpus)"
  by (induction cpus arbitrary: h) (auto simp: nth_list_update)

lemma hist_used:
  assumes "contiguous_nodes env ncpus" and "i < num_possible_nodes env"
  shows "node_hist env [0..<ncpus] (replicate (num_possible_nodes env) 0) ! i \<noteq> 0 \<longleftrightarrow> i < num_online_nodes env"
proof -
  have "node_hist env [0..<ncpus] (replicate (num_possible_nodes env) 0) ! i =
      length (filter (\<lambda>c. cpu_to_node env c = i) [0..<ncpus])"
    using assms by (subst node_hist_nth) (auto simp: contiguous_nodes_def intro: less_le_trans)
  moreover have "(\<exists>c<ncpus. cpu_to_node env c = i) \<longleftrightarrow> i < num_online_nodes env"
    using assms(1) by (auto simp: contiguous_nodes_def)
  ultimately show ?thesis by (force simp: filter_empty_conv)
qed

lemma next_node_used: "hist_at env h (Suc c) \<noteq> 0 \<or> num_online_nodes env \<le> Suc c \<Longrightarrow> next_node env h c = Suc c"
  by (subst next_node.simps) auto

lemma node_map_loop_unused: "\<forall>i\<in>set ndxs. h ! i = 0 \<Longrightarrow> node_map_loop env h ndxs c m = m"
  by (induction ndxs) auto

lemma node_map_loop_contiguous:
  assumes "\<forall>i<length h. h ! i \<noteq> 0 \<longleftrightarrow> i < num_online_nodes env" and "num_online_nodes env \<le> length h"
  shows "k \<le> num_online_nodes env \<Longrightarrow> length m = length h \<Longrightarrow> i < num_online_nodes env \<Longrightarrow>
    node_map_loop env h [k..<length h] k m ! i = (if i < k then m ! i else i)"
proof (induction "num_online_nodes env - k" arbitrary: k m)
  case 0
  then have "\<forall>j\<in>set [k..<length h]. h ! j = 0" using assms(1) by auto
  then show ?case using 0 by (simp add: node_map_loop_unused)
next
  case (Suc d)
  then have k: "k < num_online_nodes env" "k < length h" using assms(2) by auto
  then have ks: "[k..<length h] = k # [Suc k..<length h]" by (intro upt_conv_Cons)
  have "hist_at env h (Suc k) \<noteq> 0 \<or> num_online_nodes env \<le> Suc k" using assms by (auto simp: hist_at_def)
  then have "node_map_loop env h [k..<length h] k m = node_map_loop env h [Suc k..<length h] (Suc k) (m[k := k])"
    using assms(1) k ks by (simp add: next_node_used)
  then show ?case using Suc.hyps(1) [of "Suc k" "m[k := k]"] Suc.hyps(2) Suc.prems k by (auto simp: nth_list_update)
qed

lemma node_map_contiguous:
  assumes "contiguous_nodes env ncpus" and "i < num_online_nodes env"
  shows "node_map env (node_hist env [0..<ncpus] (replicate (num_possible_nodes env) 0)) ! i = i"
proof -
  let ?h = "node_hist env [0..<ncpus] (replicate (num_possible_nodes env) 0)"
  have n: "num_online_nodes env \<le> num_possible_nodes env" using assms(1) by (simp add: contiguous_nodes_def)
  show ?thesis
    using node_map_loop_contiguous [of ?h env 0 "replicate (num_possible_nodes env) 0" i] hist_used [OF assms(1)] n assms(2)
    by (simp add: node_map_def)
qed

subsection \<open>Queues\<close>

lemma one_queue_each_range:
  "ix < count \<Longrightarrow> length (fst (one_queue_each env count cpus ix used)) = length cpus \<and>
    (\<forall>q\<in>set (fst (one_queue_each env count cpus ix used)). q < count)"
proof (induction cpus arbitrary: ix used)
  case (Cons cpu cpus)
  define ix' used' where "ix' = (if cpu_online env cpu then (ix + 1) mod count else ix)"
    and "used' = (if cpu_online env cpu then used + 1 else used)"
  have "ix' < count" using Cons.prems by (simp add: ix'_def)
  moreover have "fst (one_queue_each env count (cpu # cpus) ix used) = ix # fst (one_queue_each env count cpus ix' used')"
    by (simp add: ix'_def used'_def split_beta Let_def)
  ultimately show ?case using Cons.IH [of ix' used'] Cons.prems by (simp del: one_queue_each.simps)
qed simp

text \<open>Grouping ends as soon as there is a queue, with groups that cover all nodes.\<close>

lemma group_nodes_ends:
  "0 < count \<Longrightarrow> 0 < k \<Longrightarrow> cc = (n + k - 1) div k \<Longrightarrow>
    \<exists>npc cc'. group_nodes n count k cc = Some (npc, cc') \<and> 0 < npc \<and> cc' \<le> count \<and> (\<forall>i<n. i div npc < cc')"
proof (induction "n - k" arbitrary: k cc rule: less_induct)
  case less
  show ?case
  proof (cases "cc > count")
    case True
    have "k < n"
    proof (rule ccontr)
      assume "\<not> k < n"
      then have "n + k - 1 < 2 * k" using less.prems(2) by linarith
      then have "(n + k - 1) div k < 2" using less.prems(2) by (simp add: div_less_iff_less_mult)
      then show False using True less.prems(1,3) by simp
    qed
    then show ?thesis using less.hyps [of "k + 1"] less.prems True by (subst group_nodes.simps) simp
  next
    case False
    have "i div k < cc" if "i < n" for i
    proof -
      have "i + k \<le> n + k - 1" using that by simp
      then have "(i + k) div k \<le> (n + k - 1) div k" by (rule div_le_mono)
      moreover have "(i + k) div k = Suc (i div k)" using div_add_self2 [of k i] less.prems(2) by simp
      ultimately show ?thesis using less.prems(3) by (simp only: Suc_le_eq)
    qed
    then show ?thesis using False less.prems by (subst group_nodes.simps) auto
  qed
qed

lemma queue_per_cluster_length [simp]: "length (queue_per_cluster env nm npc qpc cpus cic) = length cpus"
  by (induction cpus arbitrary: cic) (simp_all add: Let_def)

text \<open>A queue number tells the group of the processor's node.\<close>

lemma queue_per_cluster_div:
  "0 < qpc \<Longrightarrow> i < length cpus \<Longrightarrow>
    queue_per_cluster env nm npc qpc cpus cic ! i div qpc = nm ! cpu_to_node env (cpus ! i) div npc"
proof (induction cpus arbitrary: cic i)
  case (Cons cpu cpus)
  then show ?case by (cases i) (simp_all add: Let_def)
qed simp

lemma clustered_range:
  assumes env: "contiguous_nodes env ncpus" and "0 < qpc" and "\<forall>i<num_online_nodes env. i div npc < cc"
  defines "qs \<equiv> queue_per_cluster env (node_map env (node_hist env [0..<ncpus] (replicate (num_possible_nodes env) 0)))
    npc qpc [0..<ncpus] (\<lambda>_. 0)"
  shows "\<forall>q\<in>set qs. q < cc * qpc"
    and "\<forall>c<ncpus. \<forall>c'<ncpus. qs ! c = qs ! c' \<longrightarrow> cpu_to_node env c div npc = cpu_to_node env c' div npc"
proof -
  have "qs ! c div qpc = cpu_to_node env c div npc" if "c < ncpus" for c
    using queue_per_cluster_div [OF assms(2), of c "[0..<ncpus]"] that node_map_contiguous [OF env] env
    by (simp add: qs_def contiguous_nodes_def)
  note q = this
  have "qs ! c < cc * qpc" if "c < ncpus" for c
  proof -
    have "qs ! c div qpc < cc" using q [OF that] assms(3) env that by (simp add: contiguous_nodes_def)
    then show ?thesis using assms(2) by (simp add: div_less_iff_less_mult)
  qed
  then show "\<forall>q\<in>set qs. q < cc * qpc" by (auto simp: qs_def in_set_conv_nth)
  show "\<forall>c<ncpus. \<forall>c'<ncpus. qs ! c = qs ! c' \<longrightarrow> cpu_to_node env c div npc = cpu_to_node env c' div npc"
    using q by metis
qed


lemma gap_out_of_range: "kfio_map_cpus_to_read_queues gap_nodes 3 2 = Some (2, [0, 2, 0])"
  by (simp add: kfio_map_cpus_to_read_queues_def gap_nodes_def node_map_def upt_rec next_node.simps hist_at_def Let_def numeral_eq_Suc)


subsection \<open>Hotplug\<close>

text \<open>The callbacks are registered with the kernel exactly while there is a function to call.\<close>

lemma hotplug_inv_kept:
  assumes "hotplug_inv st"
  shows "hotplug_inv (snd (kfio_register_cpu_notifier ok f st))" and "hotplug_inv (kfio_unregister_cpu_notifier f st)"
    and "hotplug_inv (send_event_all on cpu st)"
  using assms
  by (auto simp: hotplug_inv_def kfio_register_cpu_notifier_def kfio_unregister_cpu_notifier_def send_event_all_def Let_def)

subsection \<open>Threads\<close>

text \<open>
  A task with the processors it may run on.  \<open>cpumask_of_node\<close> is the kernel's, None when it gives no mask; a mask is the list of its
  processors.  The change takes effect when the task is scheduled next.
\<close>

record task_struct =
  comm :: string
  cpus_mask :: "nat list"
  nr_cpus_allowed :: nat
  task_awake :: bool

definition FIO_NUMA_NODE_NONE :: int where "FIO_NUMA_NODE_NONE = - 1"

definition kfio_bind_task_to_cpumask :: "task_struct \<Rightarrow> nat list \<Rightarrow> task_struct" where
  "kfio_bind_task_to_cpumask tsk cpumask = tsk\<lparr>cpus_mask := cpumask, nr_cpus_allowed := length cpumask\<rparr>"

definition kfio_bind_kthread_to_node :: "(int \<Rightarrow> nat list option) \<Rightarrow> int \<Rightarrow> task_struct \<Rightarrow> task_struct" where
  "kfio_bind_kthread_to_node cpumask_of_node node current =
     (if node \<noteq> FIO_NUMA_NODE_NONE
      then case cpumask_of_node node of
             Some cpumask \<Rightarrow> if length cpumask \<noteq> 0 then kfio_bind_task_to_cpumask current cpumask else current
           | None \<Rightarrow> current
      else current)"

text \<open>
  \<open>kthread_create\<close> gives an error number or a sleeping task of that name, \<open>kthread_bind\<close> leaves it one processor.  The name is cut to the
  buffer of 40 bytes.
\<close>

definition kthread_bind :: "task_struct \<Rightarrow> nat \<Rightarrow> task_struct" where
  "kthread_bind tsk cpu = tsk\<lparr>cpus_mask := [cpu], nr_cpus_allowed := 1\<rparr>"

definition kfio_create_kthread_on_cpu :: "(string \<Rightarrow> int + task_struct) \<Rightarrow> nat \<Rightarrow> string \<Rightarrow> int \<times> task_struct option" where
  "kfio_create_kthread_on_cpu kthread_create cpu name =
     (let buffer = take 39 name
      in case kthread_create buffer of
           Inl rc \<Rightarrow> (rc, None)
         | Inr task \<Rightarrow> (0, Some ((kthread_bind task cpu)\<lparr>task_awake := True\<rparr>)))"

definition task_ok :: "task_struct \<Rightarrow> bool" where
  "task_ok tsk \<longleftrightarrow> cpus_mask tsk \<noteq> [] \<and> distinct (cpus_mask tsk) \<and> nr_cpus_allowed tsk = length (cpus_mask tsk)"

text \<open>A task keeps a processor to run on, whatever the kernel says of the node.\<close>

lemma bind_keeps_task_ok:
  "task_ok tsk \<Longrightarrow> (\<And>n cs. cpumask_of_node n = Some cs \<Longrightarrow> distinct cs) \<Longrightarrow>
   task_ok (kfio_bind_kthread_to_node cpumask_of_node node tsk)"
  by (auto simp: task_ok_def kfio_bind_kthread_to_node_def kfio_bind_task_to_cpumask_def split: option.splits)

lemma create_kthread_on_cpu_ok:
  assumes "\<And>n t. kthread_create n = Inr t \<Longrightarrow> comm t = n \<and> \<not> task_awake t" and "\<And>n e. kthread_create n = Inl e \<Longrightarrow> e < 0"
  shows "case kfio_create_kthread_on_cpu kthread_create cpu name of
      (rc, None) \<Rightarrow> rc < 0
    | (rc, Some t) \<Rightarrow> rc = 0 \<and> comm t = take 39 name \<and> task_awake t \<and> task_ok t \<and> cpus_mask t = [cpu]"
  using assms by (auto simp: kfio_create_kthread_on_cpu_def kthread_bind_def task_ok_def Let_def split: sum.splits)

end
