(* ===== verification/Kpci.thy ===== *)
theory Kpci
  imports Kinfo_Os
begin

text \<open>
  PCI devices: \<open>pci.c\<close>.

  Modelled are the parts with logic of their own: attaching and detaching a card, the command register, message
  interrupts, the node overrides of the module parameters, the search of the BIOS routing table for a slot
  number, and the mapping of registers.  The results of the kernel's PCI functions are arguments; what a card holds
  of the kernel is a state.  The BIOS area is a function from offsets to bytes, also behind its end.
\<close>

subsection \<open>Interrupts and the command register\<close>

definition PCI_COMMAND_IO :: u16 where "PCI_COMMAND_IO = 1"
definition PCI_COMMAND_MEMORY :: u16 where "PCI_COMMAND_MEMORY = 2"
definition PCI_COMMAND_INTX_DISABLE :: u16 where "PCI_COMMAND_INTX_DISABLE = 0x400"

text \<open>The new command register, and whether it is written.\<close>

definition kfio_iodrive_intx :: "bool \<Rightarrow> u16 \<Rightarrow> u16 \<times> bool" where
  "kfio_iodrive_intx enable c =
     (let n = (if enable then c AND NOT PCI_COMMAND_INTX_DISABLE else c OR PCI_COMMAND_INTX_DISABLE)
      in if n \<noteq> c then (n, True) else (c, False))"

text \<open>\<open>off\<close> is what \<open>pci_disable_device\<close> does to the command register.\<close>

definition kfio_pci_disable_device :: "(u16 \<Rightarrow> u16) \<Rightarrow> u16 \<Rightarrow> u16" where
  "kfio_pci_disable_device off c =
     (let old = c AND (PCI_COMMAND_IO OR PCI_COMMAND_MEMORY); cmd = off c
      in if cmd AND old \<noteq> old then cmd OR old else cmd)"

record msix_entry =
  vector :: u32
  msi_entry :: u16

definition kfio_pci_enable_msix :: "bool \<Rightarrow> int \<Rightarrow> msix_entry list \<Rightarrow> nat \<Rightarrow> nat \<times> msix_entry list" where
  "kfio_pci_enable_msix has_cap err msi nr_vecs =
     (if \<not> has_cap then (0, msi)
      else
        let msi = map (\<lambda>i. \<lparr>vector = 0, msi_entry = of_nat i\<rparr>) [0..<nr_vecs] @ drop nr_vecs msi
        in (if err \<noteq> 0 then 0 else nr_vecs, msi))"

subsection \<open>Node overrides\<close>

text \<open>\<open>nodep\<close> is the caller's variable.  None is a malformed entry, which ends the search.\<close>

definition override_node :: "string \<Rightarrow> int option" where
  "override_node s = (let (v, n) = simple_strtoul s in if n = 0 \<or> n < length s then None else Some (sint (ucast v :: u32)))"

fun kfio_get_numa_node_override :: "string \<Rightarrow> string list \<Rightarrow> int \<Rightarrow> int \<times> int" where
  "kfio_get_numa_node_override nm [] nodep = (- ENOENT, nodep)"
| "kfio_get_numa_node_override nm (s # ss) nodep =
     (if take (length nm) s = nm \<and> length nm < length s \<and> s ! length nm = CHR ''=''
      then (case override_node (drop (length nm + 1) s) of
              None \<Rightarrow> (- ENOENT, nodep)
            | Some nd \<Rightarrow> (0, nd))
      else kfio_get_numa_node_override nm ss nodep)"

subsection \<open>Slot numbers\<close>

definition BIOS_MEMORY_LEN :: nat where "BIOS_MEMORY_LEN = 0x20000"

definition u16_at :: "(nat \<Rightarrow> u8) \<Rightarrow> nat \<Rightarrow> nat" where
  "u16_at bios i = unat (bios i) + 256 * unat (bios (i + 1))"

text \<open>The signature is compared with the NUL character that ends it.\<close>

definition is_pir :: "(nat \<Rightarrow> u8) \<Rightarrow> nat \<Rightarrow> bool" where
  "is_pir bios i \<longleftrightarrow> map (\<lambda>k. bios (i + k)) [0..<5] = [0x24, 0x50, 0x49, 0x52, 0]"

definition pir_valid :: "(nat \<Rightarrow> u8) \<Rightarrow> nat \<Rightarrow> bool" where
  "pir_valid bios i \<longleftrightarrow> u16_at bios (i + 4) = 0x100 \<and> u16_at bios (i + 6) > 32 \<and> u16_at bios (i + 6) mod 16 = 0"

definition slot_matches :: "(nat \<Rightarrow> u8) \<Rightarrow> u8 \<Rightarrow> u8 \<Rightarrow> nat \<Rightarrow> bool" where
  "slot_matches bios devfn bus i \<longleftrightarrow> bios (i + 1) = devfn \<and> bios i = bus \<and> bios (i + 14) > 0"

function slot_scan :: "(nat \<Rightarrow> u8) \<Rightarrow> u8 \<Rightarrow> u8 \<Rightarrow> nat \<Rightarrow> nat \<Rightarrow> u8" where
  "slot_scan bios devfn bus next_addr stop_addr =
     (if next_addr < stop_addr
      then (if slot_matches bios devfn bus next_addr then bios (next_addr + 14)
            else slot_scan bios devfn bus (next_addr + 16) stop_addr)
      else 0)"
  by pat_completeness auto
termination
  by (relation "measure (\<lambda>(_, _, _, n, stop). stop - n)") auto

function bios_scan :: "(nat \<Rightarrow> u8) \<Rightarrow> u8 \<Rightarrow> u8 \<Rightarrow> nat \<Rightarrow> u8" where
  "bios_scan bios devfn bus next_addr =
     (if next_addr < BIOS_MEMORY_LEN
      then (if is_pir bios next_addr
            then (if pir_valid bios next_addr
                  then slot_scan bios devfn bus next_addr (next_addr + u16_at bios (next_addr + 6))
                  else 0)
            else bios_scan bios devfn bus (next_addr + 16))
      else 0)"
  by pat_completeness auto
termination
  by (relation "measure (\<lambda>(_, _, _, n). BIOS_MEMORY_LEN - n)") auto

declare slot_scan.simps [simp del] bios_scan.simps [simp del]

record pci_ident =
  devfn :: u8
  bus_number :: u8

text \<open>\<open>bios\<close> is None when the BIOS cannot be mapped.\<close>

definition find_slot_number_bios :: "(nat \<Rightarrow> u8) option \<Rightarrow> pci_ident \<Rightarrow> u8" where
  "find_slot_number_bios bios dev =
     (case bios of None \<Rightarrow> 0 | Some b \<Rightarrow> bios_scan b (devfn dev) (bus_number dev) 0)"

text \<open>\<open>bridge\<close> is \<open>dev->bus->self\<close> and \<open>upper\<close> is \<open>dev->bus->parent->self\<close>.\<close>

definition kfio_pci_get_slot :: "(nat \<Rightarrow> u8) option \<Rightarrow> pci_ident \<Rightarrow> pci_ident option \<Rightarrow> pci_ident option \<Rightarrow> u8" where
  "kfio_pci_get_slot bios dev bridge upper =
     (let s = find_slot_number_bios bios dev
      in if s \<noteq> 0 then s
         else case bridge of
                None \<Rightarrow> 0
              | Some b \<Rightarrow>
                  let s = find_slot_number_bios bios b
                  in if s \<noteq> 0 then s
                     else (case upper of None \<Rightarrow> 0 | Some u \<Rightarrow> find_slot_number_bios bios u))"

subsection \<open>Registers\<close>

text \<open>\<open>start\<close> gives the physical address of a BAR and \<open>remap\<close> the virtual address, NULL on failure.\<close>

definition kfio_pci_map_csr :: "(nat \<Rightarrow> u64) \<Rightarrow> (nat \<Rightarrow> addr) \<Rightarrow> int \<times> addr" where
  "kfio_pci_map_csr start remap =
     (let virt = (if start 5 \<noteq> 0 then remap 5 else remap 0)
      in (if virt = NULL then - ENOMEM else 0, virt))"

text \<open>\<open>before\<close> is what the caller's variable holds.\<close>

definition kfio_pci_map_barnum :: "(nat \<Rightarrow> u64) \<Rightarrow> (nat \<Rightarrow> addr) \<Rightarrow> nat \<Rightarrow> addr \<Rightarrow> int \<times> addr" where
  "kfio_pci_map_barnum start remap barnum before =
     (let virt = (if start barnum \<noteq> 0 then remap barnum else before)
      in (if virt = NULL then - ENOMEM else 0, virt))"

subsection \<open>Attaching and detaching\<close>

record pci_state =
  pci_enabled :: bool
  pci_regions :: bool
  pci_master :: bool
  pci_attached :: bool

record pci_results =
  res_ignore :: int
  res_enable :: int
  res_regions :: int
  res_dma_mask :: int
  res_attach :: int

definition iodrive_pci_probe :: "pci_results \<Rightarrow> pci_state \<Rightarrow> int \<times> pci_state" where
  "iodrive_pci_probe r st =
     (if res_ignore r \<noteq> 0 then (- ENODEV, st)
      else if res_enable r < 0 then (res_enable r, st)
      else
        let st = st\<lparr>pci_enabled := True\<rparr>
        in if res_regions r < 0 then (res_regions r, st\<lparr>pci_enabled := False\<rparr>)
           else
             let st = st\<lparr>pci_regions := True\<rparr>
             in if res_dma_mask r \<noteq> 0 then (res_dma_mask r, st\<lparr>pci_enabled := False\<rparr>)
                else
                  let st = st\<lparr>pci_master := True\<rparr>
                  in if res_attach r < 0
                     then (res_attach r, st\<lparr>pci_regions := False, pci_enabled := False\<rparr>)
                     else (0, st\<lparr>pci_attached := True\<rparr>))"

definition iodrive_pci_on_remove :: "pci_state \<Rightarrow> pci_state" where
  "iodrive_pci_on_remove st = st\<lparr>pci_attached := False, pci_regions := False, pci_enabled := False\<rparr>"

definition iodrive_pci_on_shutdown :: "pci_state \<Rightarrow> pci_state" where
  "iodrive_pci_on_shutdown st = st\<lparr>pci_attached := False, pci_regions := False, pci_enabled := False\<rparr>"

definition kfio_pci_register_driver :: "int \<Rightarrow> int" where
  "kfio_pci_register_driver retval = (if 0 \<le> retval then 1 else retval)"

text \<open>An entry of the module parameter.\<close>

definition override_entry :: "string \<times> nat \<Rightarrow> string" where
  "override_entry kv = fst kv @ CHR ''='' # dec (snd kv)"

definition pci_idle :: pci_state where
  "pci_idle = \<lparr>pci_enabled = False, pci_regions = False, pci_master = False, pci_attached = False\<rparr>"

subsection \<open>Interrupts and the command register\<close>

lemma intx_exact:
  "fst (kfio_iodrive_intx enable c) = (if enable then c AND NOT PCI_COMMAND_INTX_DISABLE else c OR PCI_COMMAND_INTX_DISABLE)"
  by (simp add: kfio_iodrive_intx_def Let_def)

text \<open>The decoding of addresses that was on before is on after a card is disabled.\<close>

lemma disable_keeps_decoding:
  "kfio_pci_disable_device off c AND (c AND (PCI_COMMAND_IO OR PCI_COMMAND_MEMORY)) = c AND (PCI_COMMAND_IO OR PCI_COMMAND_MEMORY)"
proof -
  have "(cmd OR old) AND old = old" for cmd old :: u16 by (rule bit_word_eqI) (auto simp: bit_simps)
  then show ?thesis by (simp add: kfio_pci_disable_device_def Let_def)
qed

lemma enable_msix_entries:
  "length msi = n \<Longrightarrow> kfio_pci_enable_msix True err msi n =
    (if err \<noteq> 0 then 0 else n, map (\<lambda>i. \<lparr>vector = 0, msi_entry = of_nat i\<rparr>) [0..<n])"
  by (simp add: kfio_pci_enable_msix_def Let_def)

subsection \<open>Node overrides\<close>

lemma strtoul_dec_end: "simple_strtoul (dec n) = (of_nat n, length (dec n))"
proof -
  have "takeWhile is_digit (dec n) = dec n" using dec_digits [of n] by simp
  then show ?thesis unfolding simple_strtoul_def Let_def by (simp only: digits_val_dec)
qed

lemma override_node_dec: "n < 2 ^ 31 \<Longrightarrow> override_node (dec n) = Some (int n)"
proof -
  assume "n < 2 ^ 31"
  then have "int n < 2 ^ 31" by simp
  then have "sint (of_nat n :: u32) = int n" by (simp add: signed_of_nat signed_take_bit_int_eq_self)
  moreover have "ucast (of_nat n :: u64) = (of_nat n :: u32)" using ucast_narrow [of "int n"] by simp
  moreover have "dec n \<noteq> []" by (subst dec.simps) simp
  ultimately show ?thesis by (simp add: override_node_def strtoul_dec_end)
qed

lemma override_key:
  assumes "CHR ''='' \<notin> set nm" and "CHR ''='' \<notin> set k"
  shows "take (length nm) (k @ CHR ''='' # s) = nm \<and> length nm < length (k @ CHR ''='' # s) \<and>
    (k @ CHR ''='' # s) ! length nm = CHR ''='' \<longleftrightarrow> k = nm"
proof
  assume a: "take (length nm) (k @ CHR ''='' # s) = nm \<and> length nm < length (k @ CHR ''='' # s) \<and>
    (k @ CHR ''='' # s) ! length nm = CHR ''=''"
  have "\<not> length nm < length k"
  proof
    assume "length nm < length k"
    then have "k ! length nm = CHR ''=''" using a by (simp add: nth_append)
    then show False using assms(2) \<open>length nm < length k\<close> nth_mem by metis
  qed
  moreover have "\<not> length k < length nm"
  proof
    assume l: "length k < length nm"
    then have "nm ! length k = (k @ CHR ''='' # s) ! length k" using a by (metis nth_take)
    then show False using assms(1) l nth_mem [OF l] by simp
  qed
  ultimately have "length nm = length k" by simp
  then show "k = nm" using a by simp
qed (simp add: nth_append)

text \<open>
  The override list is a finite map: for well-formed entries the function returns the node that the list has
  for the name, the first one if there are several, and -ENOENT with the caller's variable untouched when
  the list has none.
\<close>

lemma kfio_numa_override_map:
  assumes "CHR ''='' \<notin> set nm" and "\<forall>(k, n)\<in>set kvs. CHR ''='' \<notin> set k \<and> n < 2 ^ 31"
  shows "kfio_get_numa_node_override nm (map override_entry kvs) nodep =
    (case map_of kvs nm of None \<Rightarrow> (- ENOENT, nodep) | Some n \<Rightarrow> (0, int n))"
  using assms(2)
proof (induction kvs)
  case (Cons kv kvs)
  obtain k n where kv: "kv = (k, n)" by (cases kv)
  have kn: "CHR ''='' \<notin> set k" "n < 2 ^ 31" using Cons.prems kv by auto
  show ?case
  proof (cases "k = nm")
    case True
    then show ?thesis using kv kn override_node_dec by (simp add: override_entry_def nth_append)
  next
    case False
    then have "kfio_get_numa_node_override nm (map override_entry (kv # kvs)) nodep =
        kfio_get_numa_node_override nm (map override_entry kvs) nodep"
      using override_key [OF assms(1) kn(1), of "dec n"] kv by (auto simp: override_entry_def)
    then show ?thesis using Cons False kv by auto
  qed
qed simp

lemma kfio_numa_override_map_example:
  "kfio_get_numa_node_override ''00:0f.0'' (map override_entry [(''00:0a.0'', 1), (''00:0f.0'', 3)]) 7 = (0, 3)"
  using kfio_numa_override_map [of "''00:0f.0''" "[(''00:0a.0'', 1), (''00:0f.0'', 3)]" 7] by simp

subsection \<open>Slot numbers\<close>

text \<open>The addresses that a scan visits.\<close>

lemma slot_scan_find:
  "slot_scan bios fn bus i (i + 16 * n) =
    (case List.find (slot_matches bios fn bus) (map (\<lambda>k. i + 16 * k) [0..<n]) of None \<Rightarrow> 0 | Some a \<Rightarrow> bios (a + 14))"
proof (induction n arbitrary: i)
  case (Suc n)
  have "map (\<lambda>k. i + 16 * k) [0..<Suc n] = i # map (\<lambda>k. (i + 16) + 16 * k) [0..<n]"
    by (simp only: upt_conv_Cons list.map map_Suc_upt [symmetric]) (simp add: ac_simps)
  then show ?case using Suc.IH [of "i + 16"] by (subst slot_scan.simps) (simp add: ac_simps)
qed (simp add: slot_scan.simps)

text \<open>
  The scan looks at the first paragraph with the signature only, and there at every
  16 bytes of the table from the signature itself on, so at the header's 32 bytes as if they were
  two entries.
\<close>

lemma bios_scan_first_table:
  assumes "is_pir bios (16 * t)" and "\<forall>k<t. \<not> is_pir bios (16 * k)" and "16 * t < BIOS_MEMORY_LEN" and "pir_valid bios (16 * t)"
  shows "bios_scan bios fn bus 0 =
    (case List.find (slot_matches bios fn bus) (map (\<lambda>k. 16 * t + 16 * k) [0..<u16_at bios (16 * t + 6) div 16]) of
       None \<Rightarrow> 0 | Some a \<Rightarrow> bios (a + 14))"
proof -
  have skip: "bios_scan bios fn bus (16 * j) = bios_scan bios fn bus (16 * t)" if "j \<le> t" for j
    using that
  proof (induction "t - j" arbitrary: j)
    case (Suc d)
    then have "j < t" by simp
    then have "bios_scan bios fn bus (16 * j) = bios_scan bios fn bus (16 * Suc j)"
      using assms(2,3) by (subst bios_scan.simps) (simp add: ac_simps)
    then show ?case using Suc.hyps(1) [of "Suc j"] Suc.hyps(2) \<open>j < t\<close> by simp
  qed simp
  have "u16_at bios (16 * t + 6) = 16 * (u16_at bios (16 * t + 6) div 16)" using assms(4) by (auto simp: pir_valid_def)
  then have "bios_scan bios fn bus (16 * t) = slot_scan bios fn bus (16 * t) (16 * t + 16 * (u16_at bios (16 * t + 6) div 16))"
    using assms by (subst bios_scan.simps) simp
  then show ?thesis using skip [of 0] slot_scan_find [of bios fn bus "16 * t"] by simp
qed

subsection \<open>Attaching and detaching\<close>



end
