(* ===== verification/Atomics.thy ===== *)
theory Atomics
  imports Prelude
begin

text \<open>
  Atomic integers: \<open>include/fio/port/arch/x86_common/atomic.h\<close> and \<open>include/fio/port/arch/ppc/atomic.h\<close>.

  The x86 header has every operation three times, for the Microsoft compiler, for GCC with builtin functions and for older
  versions of GCC in assembly.  A cell is the value of the structure's only field, at its width; an operation
  is a function from the cell to its result and the new cell, and one such function is one atomic access.  The builtin functions and the
  instructions are modelled from their documentation.

  The contract of a cell is the locale \<open>atomic_cell\<close>, interpreted on the six x86 families and on the PowerPC one.  Its clients are a reference count, a
  sequence of numbers handed out, and a race of compare-and-swap; the families agree because they keep the same contract.
\<close>

type_synonym i32 = "32 word"
type_synonym i64 = "64 word"
type_synonym fusion_atomic32 = i32
type_synonym fusion_atomic64 = i64

definition fusion_atomic32_set :: "fusion_atomic32 \<Rightarrow> i32 \<Rightarrow> fusion_atomic32" where
  "fusion_atomic32_set atomp val = val"

definition fusion_atomic32_read :: "fusion_atomic32 \<Rightarrow> i32" where
  "fusion_atomic32_read atomp = atomp"

definition fusion_atomic64_set :: "fusion_atomic64 \<Rightarrow> i64 \<Rightarrow> fusion_atomic64" where
  "fusion_atomic64_set atomp val = val"

definition fusion_atomic64_read :: "fusion_atomic64 \<Rightarrow> i64" where
  "fusion_atomic64_read atomp = atomp"


text \<open>Builtin functions: the result and the new value of the memory.\<close>

definition InterlockedIncrement :: "'a::len word \<Rightarrow> 'a word \<times> 'a word" where
  "InterlockedIncrement m = (m + 1, m + 1)"

definition InterlockedDecrement :: "'a::len word \<Rightarrow> 'a word \<times> 'a word" where
  "InterlockedDecrement m = (m - 1, m - 1)"

definition InterlockedExchangeAdd :: "'a::len word \<Rightarrow> 'a word \<Rightarrow> 'a word \<times> 'a word" where
  "InterlockedExchangeAdd m v = (m, m + v)"

definition InterlockedExchange :: "'a::len word \<Rightarrow> 'a word \<Rightarrow> 'a word \<times> 'a word" where
  "InterlockedExchange m v = (m, v)"

definition InterlockedCompareExchange :: "'a::len word \<Rightarrow> 'a word \<Rightarrow> 'a word \<Rightarrow> 'a word \<times> 'a word" where
  "InterlockedCompareExchange m v comparand = (m, if m = comparand then v else m)"

definition sync_add_and_fetch :: "'a::len word \<Rightarrow> 'a word \<Rightarrow> 'a word \<times> 'a word" where
  "sync_add_and_fetch m v = (m + v, m + v)"

definition sync_sub_and_fetch :: "'a::len word \<Rightarrow> 'a word \<Rightarrow> 'a word \<times> 'a word" where
  "sync_sub_and_fetch m v = (m - v, m - v)"

definition sync_lock_test_and_set :: "'a::len word \<Rightarrow> 'a word \<Rightarrow> 'a word \<times> 'a word" where
  "sync_lock_test_and_set m v = (m, v)"

definition sync_val_compare_and_swap :: "'a::len word \<Rightarrow> 'a word \<Rightarrow> 'a word \<Rightarrow> 'a word \<times> 'a word" where
  "sync_val_compare_and_swap m oldval newval = (m, if m = oldval then newval else m)"

definition sync_bool_compare_and_swap :: "'a::len word \<Rightarrow> 'a word \<Rightarrow> 'a word \<Rightarrow> bool \<times> 'a word" where
  "sync_bool_compare_and_swap m oldval newval = (m = oldval, if m = oldval then newval else m)"

text \<open>Instructions: the register, where one is written, and the memory.\<close>

definition lock_inc :: "'a::len word \<Rightarrow> 'a word" where "lock_inc m = m + 1"
definition lock_dec :: "'a::len word \<Rightarrow> 'a word" where "lock_dec m = m - 1"
definition lock_add :: "'a::len word \<Rightarrow> 'a word \<Rightarrow> 'a word" where "lock_add r m = m + r"
definition lock_sub :: "'a::len word \<Rightarrow> 'a word \<Rightarrow> 'a word" where "lock_sub r m = m - r"

definition lock_xadd :: "'a::len word \<Rightarrow> 'a word \<Rightarrow> 'a word \<times> 'a word" where
  "lock_xadd r m = (m, r + m)"

definition xchg :: "'a::len word \<Rightarrow> 'a word \<Rightarrow> 'a word \<times> 'a word" where
  "xchg r m = (m, r)"

text \<open>The accumulator is compared with the memory and loaded from it when they differ.\<close>

definition lock_cmpxchg :: "'a::len word \<Rightarrow> 'a word \<Rightarrow> 'a word \<Rightarrow> 'a word \<times> 'a word" where
  "lock_cmpxchg acc m r = (if acc = m then (acc, r) else (m, m))"

text \<open>Which of the GCC families is compiled, by the compiler's version.\<close>

definition sync_builtins :: "nat \<Rightarrow> nat \<Rightarrow> bool" where
  "sync_builtins gnuc gnuc_minor \<longleftrightarrow> gnuc \<ge> 4 \<and> gnuc_minor \<ge> 2"

subsection \<open>The Microsoft compiler\<close>

definition msvc_atomic32_inc :: "fusion_atomic32 \<Rightarrow> fusion_atomic32" where
  "msvc_atomic32_inc x = snd (InterlockedIncrement x)"

definition msvc_atomic32_incr :: "fusion_atomic32 \<Rightarrow> i32 \<times> fusion_atomic32" where
  "msvc_atomic32_incr x = InterlockedIncrement x"

definition msvc_atomic32_dec :: "fusion_atomic32 \<Rightarrow> fusion_atomic32" where
  "msvc_atomic32_dec x = snd (InterlockedDecrement x)"

definition msvc_atomic32_decr :: "fusion_atomic32 \<Rightarrow> i32 \<times> fusion_atomic32" where
  "msvc_atomic32_decr x = InterlockedDecrement x"

definition msvc_atomic32_add :: "fusion_atomic32 \<Rightarrow> i32 \<Rightarrow> fusion_atomic32" where
  "msvc_atomic32_add x val = snd (InterlockedExchangeAdd x val)"

definition msvc_atomic32_add_return :: "fusion_atomic32 \<Rightarrow> i32 \<Rightarrow> i32 \<times> fusion_atomic32" where
  "msvc_atomic32_add_return x val = (let (old, x) = InterlockedExchangeAdd x val in (old + val, x))"

definition msvc_atomic32_sub :: "fusion_atomic32 \<Rightarrow> i32 \<Rightarrow> fusion_atomic32" where
  "msvc_atomic32_sub x val = snd (InterlockedExchangeAdd x (- val))"

definition msvc_atomic32_sub_return :: "fusion_atomic32 \<Rightarrow> i32 \<Rightarrow> i32 \<times> fusion_atomic32" where
  "msvc_atomic32_sub_return x val = (let (old, x) = InterlockedExchangeAdd x (- val) in (old - val, x))"

definition msvc_atomic32_exchange :: "fusion_atomic32 \<Rightarrow> i32 \<Rightarrow> i32 \<times> fusion_atomic32" where
  "msvc_atomic32_exchange x val = InterlockedExchange x val"

definition msvc_atomic32_cas :: "fusion_atomic32 \<Rightarrow> i32 \<Rightarrow> i32 \<Rightarrow> i32 \<times> fusion_atomic32" where
  "msvc_atomic32_cas dest oldval newval = InterlockedCompareExchange dest newval oldval"

definition msvc_atomic32_cas_bool :: "fusion_atomic32 \<Rightarrow> i32 \<Rightarrow> i32 \<Rightarrow> bool \<times> fusion_atomic32" where
  "msvc_atomic32_cas_bool dest oldval newval = (let (v, dest) = InterlockedCompareExchange dest newval oldval in (v = oldval, dest))"

definition msvc_atomic64_inc :: "fusion_atomic64 \<Rightarrow> fusion_atomic64" where
  "msvc_atomic64_inc x = snd (InterlockedIncrement x)"

definition msvc_atomic64_incr :: "fusion_atomic64 \<Rightarrow> i64 \<times> fusion_atomic64" where
  "msvc_atomic64_incr x = InterlockedIncrement x"

definition msvc_atomic64_dec :: "fusion_atomic64 \<Rightarrow> fusion_atomic64" where
  "msvc_atomic64_dec x = snd (InterlockedDecrement x)"

definition msvc_atomic64_decr :: "fusion_atomic64 \<Rightarrow> i64 \<times> fusion_atomic64" where
  "msvc_atomic64_decr x = InterlockedDecrement x"

definition msvc_atomic64_add :: "fusion_atomic64 \<Rightarrow> i64 \<Rightarrow> fusion_atomic64" where
  "msvc_atomic64_add x val = snd (InterlockedExchangeAdd x val)"

definition msvc_atomic64_add_return :: "fusion_atomic64 \<Rightarrow> i64 \<Rightarrow> i64 \<times> fusion_atomic64" where
  "msvc_atomic64_add_return x val = (let (old, x) = InterlockedExchangeAdd x val in (old + val, x))"

definition msvc_atomic64_sub :: "fusion_atomic64 \<Rightarrow> i64 \<Rightarrow> fusion_atomic64" where
  "msvc_atomic64_sub x val = snd (InterlockedExchangeAdd x (- val))"

definition msvc_atomic64_sub_return :: "fusion_atomic64 \<Rightarrow> i64 \<Rightarrow> i64 \<times> fusion_atomic64" where
  "msvc_atomic64_sub_return x val = (let (old, x) = InterlockedExchangeAdd x (- val) in (old - val, x))"

definition msvc_atomic64_exchange :: "fusion_atomic64 \<Rightarrow> i64 \<Rightarrow> i64 \<times> fusion_atomic64" where
  "msvc_atomic64_exchange x val = InterlockedExchange x val"

definition msvc_atomic64_cas :: "fusion_atomic64 \<Rightarrow> i64 \<Rightarrow> i64 \<Rightarrow> i64 \<times> fusion_atomic64" where
  "msvc_atomic64_cas dest oldval newval = InterlockedCompareExchange dest newval oldval"

definition msvc_atomic64_cas_bool :: "fusion_atomic64 \<Rightarrow> i64 \<Rightarrow> i64 \<Rightarrow> bool \<times> fusion_atomic64" where
  "msvc_atomic64_cas_bool dest oldval newval = (let (v, dest) = InterlockedCompareExchange dest newval oldval in (v = oldval, dest))"

subsection \<open>GCC with its builtin functions\<close>

definition fusion_atomic32_inc :: "fusion_atomic32 \<Rightarrow> fusion_atomic32" where
  "fusion_atomic32_inc atomp = snd (sync_add_and_fetch atomp 1)"

definition fusion_atomic32_incr :: "fusion_atomic32 \<Rightarrow> i32 \<times> fusion_atomic32" where
  "fusion_atomic32_incr atomp = sync_add_and_fetch atomp 1"

definition fusion_atomic32_dec :: "fusion_atomic32 \<Rightarrow> fusion_atomic32" where
  "fusion_atomic32_dec atomp = snd (sync_sub_and_fetch atomp 1)"

definition fusion_atomic32_decr :: "fusion_atomic32 \<Rightarrow> i32 \<times> fusion_atomic32" where
  "fusion_atomic32_decr atomp = sync_sub_and_fetch atomp 1"

definition fusion_atomic32_add :: "fusion_atomic32 \<Rightarrow> i32 \<Rightarrow> fusion_atomic32" where
  "fusion_atomic32_add atomp val = snd (sync_add_and_fetch atomp val)"

definition fusion_atomic32_add_return :: "fusion_atomic32 \<Rightarrow> i32 \<Rightarrow> i32 \<times> fusion_atomic32" where
  "fusion_atomic32_add_return atomp val = sync_add_and_fetch atomp val"

definition fusion_atomic32_sub :: "fusion_atomic32 \<Rightarrow> i32 \<Rightarrow> fusion_atomic32" where
  "fusion_atomic32_sub atomp val = snd (sync_sub_and_fetch atomp val)"

definition fusion_atomic32_sub_return :: "fusion_atomic32 \<Rightarrow> i32 \<Rightarrow> i32 \<times> fusion_atomic32" where
  "fusion_atomic32_sub_return atomp val = sync_sub_and_fetch atomp val"

definition fusion_atomic32_exchange :: "fusion_atomic32 \<Rightarrow> i32 \<Rightarrow> i32 \<times> fusion_atomic32" where
  "fusion_atomic32_exchange atomp val = sync_lock_test_and_set atomp val"

definition fusion_atomic32_cas :: "fusion_atomic32 \<Rightarrow> i32 \<Rightarrow> i32 \<Rightarrow> i32 \<times> fusion_atomic32" where
  "fusion_atomic32_cas dest oldval newval = sync_val_compare_and_swap dest oldval newval"

definition fusion_atomic32_cas_bool :: "fusion_atomic32 \<Rightarrow> i32 \<Rightarrow> i32 \<Rightarrow> bool \<times> fusion_atomic32" where
  "fusion_atomic32_cas_bool dest oldval newval = sync_bool_compare_and_swap dest oldval newval"

definition fusion_atomic64_inc :: "fusion_atomic64 \<Rightarrow> fusion_atomic64" where
  "fusion_atomic64_inc atomp = snd (sync_add_and_fetch atomp 1)"

definition fusion_atomic64_incr :: "fusion_atomic64 \<Rightarrow> i64 \<times> fusion_atomic64" where
  "fusion_atomic64_incr atomp = sync_add_and_fetch atomp 1"

definition fusion_atomic64_dec :: "fusion_atomic64 \<Rightarrow> fusion_atomic64" where
  "fusion_atomic64_dec atomp = snd (sync_sub_and_fetch atomp 1)"

definition fusion_atomic64_decr :: "fusion_atomic64 \<Rightarrow> i64 \<times> fusion_atomic64" where
  "fusion_atomic64_decr atomp = sync_sub_and_fetch atomp 1"

definition fusion_atomic64_add :: "fusion_atomic64 \<Rightarrow> i64 \<Rightarrow> fusion_atomic64" where
  "fusion_atomic64_add atomp val = snd (sync_add_and_fetch atomp val)"

definition fusion_atomic64_add_return :: "fusion_atomic64 \<Rightarrow> i64 \<Rightarrow> i64 \<times> fusion_atomic64" where
  "fusion_atomic64_add_return atomp val = sync_add_and_fetch atomp val"

definition fusion_atomic64_sub :: "fusion_atomic64 \<Rightarrow> i64 \<Rightarrow> fusion_atomic64" where
  "fusion_atomic64_sub atomp val = snd (sync_sub_and_fetch atomp val)"

definition fusion_atomic64_sub_return :: "fusion_atomic64 \<Rightarrow> i64 \<Rightarrow> i64 \<times> fusion_atomic64" where
  "fusion_atomic64_sub_return atomp val = sync_sub_and_fetch atomp val"

definition fusion_atomic64_exchange :: "fusion_atomic64 \<Rightarrow> i64 \<Rightarrow> i64 \<times> fusion_atomic64" where
  "fusion_atomic64_exchange atomp val = sync_lock_test_and_set atomp val"

definition fusion_atomic64_cas :: "fusion_atomic64 \<Rightarrow> i64 \<Rightarrow> i64 \<Rightarrow> i64 \<times> fusion_atomic64" where
  "fusion_atomic64_cas dest oldval newval = sync_val_compare_and_swap dest oldval newval"

definition fusion_atomic64_cas_bool :: "fusion_atomic64 \<Rightarrow> i64 \<Rightarrow> i64 \<Rightarrow> bool \<times> fusion_atomic64" where
  "fusion_atomic64_cas_bool dest oldval newval = sync_bool_compare_and_swap dest oldval newval"

subsection \<open>Older GCC: assembly\<close>

definition asm_atomic32_inc :: "fusion_atomic32 \<Rightarrow> fusion_atomic32" where
  "asm_atomic32_inc x = lock_inc x"

definition asm_atomic32_dec :: "fusion_atomic32 \<Rightarrow> fusion_atomic32" where
  "asm_atomic32_dec x = lock_dec x"

definition asm_atomic32_add :: "fusion_atomic32 \<Rightarrow> i32 \<Rightarrow> fusion_atomic32" where
  "asm_atomic32_add atomp val = lock_add val atomp"

definition asm_atomic32_add_return :: "fusion_atomic32 \<Rightarrow> i32 \<Rightarrow> i32 \<times> fusion_atomic32" where
  "asm_atomic32_add_return atomp val = (let i = val; (val, atomp) = lock_xadd val atomp in (val + i, atomp))"

definition asm_atomic32_incr :: "fusion_atomic32 \<Rightarrow> i32 \<times> fusion_atomic32" where
  "asm_atomic32_incr x = asm_atomic32_add_return x 1"

definition asm_atomic32_decr :: "fusion_atomic32 \<Rightarrow> i32 \<times> fusion_atomic32" where
  "asm_atomic32_decr x = asm_atomic32_add_return x (- 1)"

definition asm_atomic32_sub :: "fusion_atomic32 \<Rightarrow> i32 \<Rightarrow> fusion_atomic32" where
  "asm_atomic32_sub atomp val = lock_sub val atomp"

definition asm_atomic32_sub_return :: "fusion_atomic32 \<Rightarrow> i32 \<Rightarrow> i32 \<times> fusion_atomic32" where
  "asm_atomic32_sub_return atomp val = asm_atomic32_add_return atomp (- val)"

definition asm_atomic32_exchange :: "fusion_atomic32 \<Rightarrow> i32 \<Rightarrow> i32 \<times> fusion_atomic32" where
  "asm_atomic32_exchange atomp val = xchg val atomp"

definition asm_atomic32_cas :: "fusion_atomic32 \<Rightarrow> i32 \<Rightarrow> i32 \<Rightarrow> i32 \<times> fusion_atomic32" where
  "asm_atomic32_cas dest oldval newval = (let rc = oldval in lock_cmpxchg rc dest newval)"

definition asm_atomic32_cas_bool :: "fusion_atomic32 \<Rightarrow> i32 \<Rightarrow> i32 \<Rightarrow> bool \<times> fusion_atomic32" where
  "asm_atomic32_cas_bool dest oldval newval = (let rc = oldval; (rc, dest) = lock_cmpxchg rc dest newval in (rc = oldval, dest))"

definition asm_atomic64_inc :: "fusion_atomic64 \<Rightarrow> fusion_atomic64" where
  "asm_atomic64_inc x = lock_inc x"

definition asm_atomic64_dec :: "fusion_atomic64 \<Rightarrow> fusion_atomic64" where
  "asm_atomic64_dec x = lock_dec x"

definition asm_atomic64_add :: "fusion_atomic64 \<Rightarrow> i64 \<Rightarrow> fusion_atomic64" where
  "asm_atomic64_add atomp val = lock_add val atomp"

definition asm_atomic64_add_return :: "fusion_atomic64 \<Rightarrow> i64 \<Rightarrow> i64 \<times> fusion_atomic64" where
  "asm_atomic64_add_return atomp val = (let i = val; (val, atomp) = lock_xadd val atomp in (val + i, atomp))"

definition asm_atomic64_incr :: "fusion_atomic64 \<Rightarrow> i64 \<times> fusion_atomic64" where
  "asm_atomic64_incr x = asm_atomic64_add_return x 1"

definition asm_atomic64_decr :: "fusion_atomic64 \<Rightarrow> i64 \<times> fusion_atomic64" where
  "asm_atomic64_decr x = asm_atomic64_add_return x (- 1)"

definition asm_atomic64_sub :: "fusion_atomic64 \<Rightarrow> i64 \<Rightarrow> fusion_atomic64" where
  "asm_atomic64_sub atomp val = lock_sub val atomp"

definition asm_atomic64_sub_return :: "fusion_atomic64 \<Rightarrow> i64 \<Rightarrow> i64 \<times> fusion_atomic64" where
  "asm_atomic64_sub_return atomp val = asm_atomic64_add_return atomp (- val)"

definition asm_atomic64_exchange :: "fusion_atomic64 \<Rightarrow> i64 \<Rightarrow> i64 \<times> fusion_atomic64" where
  "asm_atomic64_exchange atomp val = xchg val atomp"

definition asm_atomic64_cas :: "fusion_atomic64 \<Rightarrow> i64 \<Rightarrow> i64 \<Rightarrow> i64 \<times> fusion_atomic64" where
  "asm_atomic64_cas dest oldval newval = (let rc = oldval in lock_cmpxchg rc dest newval)"

definition asm_atomic64_cas_bool :: "fusion_atomic64 \<Rightarrow> i64 \<Rightarrow> i64 \<Rightarrow> bool \<times> fusion_atomic64" where
  "asm_atomic64_cas_bool dest oldval newval = (let rc = oldval; (rc, dest) = lock_cmpxchg rc dest newval in (rc = oldval, dest))"

text \<open>The macro applied to an argument that is itself a difference: the minus sign reaches the first operand only.\<close>

definition asm_atomic32_sub_return_diff :: "fusion_atomic32 \<Rightarrow> i32 \<Rightarrow> i32 \<Rightarrow> i32 \<times> fusion_atomic32" where
  "asm_atomic32_sub_return_diff atomp a b = asm_atomic32_add_return atomp (- a - b)"

definition asm_atomic64_sub_return_diff :: "fusion_atomic64 \<Rightarrow> i64 \<Rightarrow> i64 \<Rightarrow> i64 \<times> fusion_atomic64" where
  "asm_atomic64_sub_return_diff atomp a b = asm_atomic64_add_return atomp (- a - b)"

subsection \<open>Runs of a cell\<close>

datatype ref_op = Get | Put

fun ref_run :: "('c \<Rightarrow> 'r \<times> 'c) \<Rightarrow> ('c \<Rightarrow> 'r \<times> 'c) \<Rightarrow> ref_op list \<Rightarrow> 'c \<Rightarrow> 'r list \<times> 'c" where
  "ref_run incr decr [] x = ([], x)"
| "ref_run incr decr (p # ps) x =
     (let (r, x) = (case p of Get \<Rightarrow> incr x | Put \<Rightarrow> decr x); (rs, x) = ref_run incr decr ps x in (r # rs, x))"

text \<open>The number of holders after each operation.\<close>

fun holders :: "nat \<Rightarrow> ref_op list \<Rightarrow> nat list" where
  "holders n [] = []"
| "holders n (Get # ps) = (n + 1) # holders (n + 1) ps"
| "holders n (Put # ps) = (n - 1) # holders (n - 1) ps"

text \<open>Only a holder puts, and the count fits.\<close>

fun paired :: "nat \<Rightarrow> nat \<Rightarrow> ref_op list \<Rightarrow> bool" where
  "paired limit n [] \<longleftrightarrow> True"
| "paired limit n (Get # ps) \<longleftrightarrow> n + 1 < limit \<and> paired limit (n + 1) ps"
| "paired limit n (Put # ps) \<longleftrightarrow> n > 0 \<and> paired limit (n - 1) ps"

text \<open>Threads that try to replace \<open>oldval\<close>, each by its own value.\<close>

fun cas_run :: "('c \<Rightarrow> 'c \<Rightarrow> 'c \<Rightarrow> bool \<times> 'c) \<Rightarrow> 'c \<Rightarrow> 'c list \<Rightarrow> 'c \<Rightarrow> bool list \<times> 'c" where
  "cas_run cas oldval [] x = ([], x)"
| "cas_run cas oldval (v # vs) x = (let (b, x) = cas x oldval v; (bs, x) = cas_run cas oldval vs x in (b # bs, x))"

subsection \<open>The contract of a cell\<close>

locale atomic_cell =
  fixes inc :: "'a::len word \<Rightarrow> 'a word"
    and incr :: "'a word \<Rightarrow> 'a word \<times> 'a word"
    and dec :: "'a word \<Rightarrow> 'a word"
    and decr :: "'a word \<Rightarrow> 'a word \<times> 'a word"
    and add :: "'a word \<Rightarrow> 'a word \<Rightarrow> 'a word"
    and add_return :: "'a word \<Rightarrow> 'a word \<Rightarrow> 'a word \<times> 'a word"
    and sub :: "'a word \<Rightarrow> 'a word \<Rightarrow> 'a word"
    and sub_return :: "'a word \<Rightarrow> 'a word \<Rightarrow> 'a word \<times> 'a word"
    and exchange :: "'a word \<Rightarrow> 'a word \<Rightarrow> 'a word \<times> 'a word"
    and cas :: "'a word \<Rightarrow> 'a word \<Rightarrow> 'a word \<Rightarrow> 'a word \<times> 'a word"
    and cas_bool :: "'a word \<Rightarrow> 'a word \<Rightarrow> 'a word \<Rightarrow> bool \<times> 'a word"
  assumes incr_law: "incr x = (x + 1, x + 1)"
    and decr_law: "decr x = (x - 1, x - 1)"
    and add_return_law: "add_return x v = (x + v, x + v)"
    and sub_return_law: "sub_return x v = (x - v, x - v)"
    and quiet_laws: "inc x = snd (incr x)" "dec x = snd (decr x)" "add x v = snd (add_return x v)" "sub x v = snd (sub_return x v)"
    and exchange_law: "exchange x v = (x, v)"
    and cas_law: "cas x oldval newval = (x, if x = oldval then newval else x)"
    and cas_bool_law: "cas_bool x oldval newval = (x = oldval, if x = oldval then newval else x)"
begin

lemma counts_holders:
  "paired (2 ^ LENGTH('a)) (unat x) ps \<Longrightarrow> map unat (fst (ref_run incr decr ps x)) = holders (unat x) ps"
proof (induction ps arbitrary: x)
  case (Cons p ps)
  show ?case
  proof (cases p)
    case Get
    then have "unat (x + 1) = unat x + 1" using Cons.prems unat_add_no_wrap [of x 1] by simp
    then show ?thesis using Cons.IH [of "x + 1"] Cons.prems Get by (simp add: incr_law split_beta)
  next
    case Put
    then have "unat (x - 1) = unat x - 1" using Cons.prems by (intro unat_decr) auto
    then show ?thesis using Cons.IH [of "x - 1"] Cons.prems Put by (simp add: decr_law split_beta)
  qed
qed simp

lemma add_sub_inverse: "sub (add x v) v = x" "add (sub x v) v = x"
  by (simp_all add: quiet_laws add_return_law sub_return_law)

lemma lost_race: "x \<noteq> oldval \<Longrightarrow> cas_run cas_bool oldval vs x = (map (\<lambda>_. False) vs, x)"
  by (induction vs) (simp_all add: cas_bool_law)

lemma one_winner:
  "v \<noteq> oldval \<Longrightarrow> cas_run cas_bool oldval (v # vs) oldval = (True # map (\<lambda>_. False) vs, v)"
  by (simp add: cas_bool_law lost_race)

text \<open>A swap that succeeded reported the old value.\<close>

lemma cas_cas_bool: "fst (cas_bool x oldval newval) \<longleftrightarrow> fst (cas x oldval newval) = oldval"
  by (simp add: cas_bool_law cas_law)

end

lemmas builtin_simps = InterlockedIncrement_def InterlockedDecrement_def InterlockedExchangeAdd_def InterlockedExchange_def
  InterlockedCompareExchange_def sync_add_and_fetch_def sync_sub_and_fetch_def sync_lock_test_and_set_def
  sync_val_compare_and_swap_def sync_bool_compare_and_swap_def lock_inc_def lock_dec_def lock_add_def lock_sub_def
  lock_xadd_def xchg_def lock_cmpxchg_def Let_def

text \<open>Two families of operations that keep the contract are the same functions.\<close>

lemma atomic_cell_unique:
  assumes "atomic_cell inc incr dec decr add add_return sub sub_return exchange cas cas_bool"
    and "atomic_cell inc' incr' dec' decr' add' add_return' sub' sub_return' exchange' cas' cas_bool'"
  shows "(inc, incr, dec, decr, add, add_return, sub, sub_return, exchange, cas, cas_bool) =
    (inc', incr', dec', decr', add', add_return', sub', sub_return', exchange', cas', cas_bool')"
proof -
  note l = assms(1) [unfolded atomic_cell_def] assms(2) [unfolded atomic_cell_def]
  have "incr = incr'" "decr = decr'" "add_return = add_return'" "sub_return = sub_return'" "exchange = exchange'"
    "cas = cas'" "cas_bool = cas_bool'"
    by (intro ext; simp only: l)+
  moreover from this have "inc = inc'" "dec = dec'" "add = add'" "sub = sub'"
    by (intro ext; simp only: l)+
  ultimately show ?thesis by simp
qed

interpretation msvc32: atomic_cell msvc_atomic32_inc msvc_atomic32_incr msvc_atomic32_dec msvc_atomic32_decr msvc_atomic32_add msvc_atomic32_add_return msvc_atomic32_sub msvc_atomic32_sub_return msvc_atomic32_exchange msvc_atomic32_cas msvc_atomic32_cas_bool
  by unfold_locales (simp_all add: builtin_simps msvc_atomic32_inc_def msvc_atomic32_incr_def msvc_atomic32_dec_def msvc_atomic32_decr_def msvc_atomic32_add_def msvc_atomic32_add_return_def msvc_atomic32_sub_def msvc_atomic32_sub_return_def msvc_atomic32_exchange_def msvc_atomic32_cas_def msvc_atomic32_cas_bool_def)

interpretation gcc32: atomic_cell fusion_atomic32_inc fusion_atomic32_incr fusion_atomic32_dec fusion_atomic32_decr fusion_atomic32_add fusion_atomic32_add_return fusion_atomic32_sub fusion_atomic32_sub_return fusion_atomic32_exchange fusion_atomic32_cas fusion_atomic32_cas_bool
  by unfold_locales (simp_all add: builtin_simps fusion_atomic32_inc_def fusion_atomic32_incr_def fusion_atomic32_dec_def fusion_atomic32_decr_def fusion_atomic32_add_def fusion_atomic32_add_return_def fusion_atomic32_sub_def fusion_atomic32_sub_return_def fusion_atomic32_exchange_def fusion_atomic32_cas_def fusion_atomic32_cas_bool_def)

interpretation asm32: atomic_cell asm_atomic32_inc asm_atomic32_incr asm_atomic32_dec asm_atomic32_decr asm_atomic32_add asm_atomic32_add_return asm_atomic32_sub asm_atomic32_sub_return asm_atomic32_exchange asm_atomic32_cas asm_atomic32_cas_bool
  by unfold_locales (simp_all add: builtin_simps asm_atomic32_inc_def asm_atomic32_incr_def asm_atomic32_dec_def asm_atomic32_decr_def asm_atomic32_add_def asm_atomic32_add_return_def asm_atomic32_sub_def asm_atomic32_sub_return_def asm_atomic32_exchange_def asm_atomic32_cas_def asm_atomic32_cas_bool_def)

interpretation msvc64: atomic_cell msvc_atomic64_inc msvc_atomic64_incr msvc_atomic64_dec msvc_atomic64_decr msvc_atomic64_add msvc_atomic64_add_return msvc_atomic64_sub msvc_atomic64_sub_return msvc_atomic64_exchange msvc_atomic64_cas msvc_atomic64_cas_bool
  by unfold_locales (simp_all add: builtin_simps msvc_atomic64_inc_def msvc_atomic64_incr_def msvc_atomic64_dec_def msvc_atomic64_decr_def msvc_atomic64_add_def msvc_atomic64_add_return_def msvc_atomic64_sub_def msvc_atomic64_sub_return_def msvc_atomic64_exchange_def msvc_atomic64_cas_def msvc_atomic64_cas_bool_def)

interpretation gcc64: atomic_cell fusion_atomic64_inc fusion_atomic64_incr fusion_atomic64_dec fusion_atomic64_decr fusion_atomic64_add fusion_atomic64_add_return fusion_atomic64_sub fusion_atomic64_sub_return fusion_atomic64_exchange fusion_atomic64_cas fusion_atomic64_cas_bool
  by unfold_locales (simp_all add: builtin_simps fusion_atomic64_inc_def fusion_atomic64_incr_def fusion_atomic64_dec_def fusion_atomic64_decr_def fusion_atomic64_add_def fusion_atomic64_add_return_def fusion_atomic64_sub_def fusion_atomic64_sub_return_def fusion_atomic64_exchange_def fusion_atomic64_cas_def fusion_atomic64_cas_bool_def)

interpretation asm64: atomic_cell asm_atomic64_inc asm_atomic64_incr asm_atomic64_dec asm_atomic64_decr asm_atomic64_add asm_atomic64_add_return asm_atomic64_sub asm_atomic64_sub_return asm_atomic64_exchange asm_atomic64_cas asm_atomic64_cas_bool
  by unfold_locales (simp_all add: builtin_simps asm_atomic64_inc_def asm_atomic64_incr_def asm_atomic64_dec_def asm_atomic64_decr_def asm_atomic64_add_def asm_atomic64_add_return_def asm_atomic64_sub_def asm_atomic64_sub_return_def asm_atomic64_exchange_def asm_atomic64_cas_def asm_atomic64_cas_bool_def)





lemma cas_one_winner:
  "v \<noteq> oldval \<Longrightarrow> cas_run fusion_atomic64_cas_bool oldval (v # vs) oldval = (True # map (\<lambda>_. False) vs, v)"
  by (rule gcc64.one_winner)

text \<open>
  The macro of the assembly family puts a minus sign before its argument without parentheses: for an argument that is a
  difference it is off by twice the second operand.
\<close>

lemma asm_sub_return_macro:
  "fst (asm_atomic32_sub_return_diff x a b) = fst (asm_atomic32_sub_return x (a - b)) - 2 * b"
  by (simp add: asm_atomic32_sub_return_diff_def asm_atomic32_sub_return_def asm32.add_return_law)

text \<open>The test of the minor version also counts for later major versions, so GCC 5.1 and 6.1 get the assembly.\<close>

lemma sync_builtins_versions: "sync_builtins 4 9" "\<not> sync_builtins 5 1" "\<not> sync_builtins 6 1" "sync_builtins 7 5"
  by (simp_all add: sync_builtins_def)

subsection \<open>PowerPC\<close>

text \<open>
  The operations of \<open>arch/ppc/atomic.h\<close>, on the same builtin functions.  The header has 32-bit operations only, and no
  compare-and-swap.
\<close>

definition ppc_atomic32_set :: "fusion_atomic32 \<Rightarrow> i32 \<Rightarrow> fusion_atomic32" where
  "ppc_atomic32_set atomp val = val"

definition ppc_atomic32_read :: "fusion_atomic32 \<Rightarrow> i32" where
  "ppc_atomic32_read atomp = atomp"

definition ppc_atomic32_add :: "fusion_atomic32 \<Rightarrow> i32 \<Rightarrow> fusion_atomic32" where
  "ppc_atomic32_add atomp val = snd (sync_add_and_fetch atomp val)"

definition ppc_atomic32_inc :: "fusion_atomic32 \<Rightarrow> fusion_atomic32" where
  "ppc_atomic32_inc atomp = snd (sync_add_and_fetch atomp 1)"

definition ppc_atomic32_incr :: "fusion_atomic32 \<Rightarrow> i32 \<times> fusion_atomic32" where
  "ppc_atomic32_incr atomp = sync_add_and_fetch atomp 1"

definition ppc_atomic32_add_return :: "fusion_atomic32 \<Rightarrow> i32 \<Rightarrow> i32 \<times> fusion_atomic32" where
  "ppc_atomic32_add_return atomp val = sync_add_and_fetch atomp val"

definition ppc_atomic32_dec :: "fusion_atomic32 \<Rightarrow> fusion_atomic32" where
  "ppc_atomic32_dec atomp = snd (sync_sub_and_fetch atomp 1)"

definition ppc_atomic32_decr :: "fusion_atomic32 \<Rightarrow> i32 \<times> fusion_atomic32" where
  "ppc_atomic32_decr atomp = sync_sub_and_fetch atomp 1"

definition ppc_atomic32_sub :: "fusion_atomic32 \<Rightarrow> i32 \<Rightarrow> fusion_atomic32" where
  "ppc_atomic32_sub atomp val = snd (sync_sub_and_fetch atomp val)"

definition ppc_atomic32_sub_return :: "fusion_atomic32 \<Rightarrow> i32 \<Rightarrow> i32 \<times> fusion_atomic32" where
  "ppc_atomic32_sub_return atomp val = sync_sub_and_fetch atomp val"

definition ppc_atomic32_exchange :: "fusion_atomic32 \<Rightarrow> i32 \<Rightarrow> i32 \<times> fusion_atomic32" where
  "ppc_atomic32_exchange atomp val = sync_lock_test_and_set atomp val"

text \<open>They keep the contract of a cell, with the compare-and-swap of the other GCC family beside them.\<close>

interpretation ppc32: atomic_cell ppc_atomic32_inc ppc_atomic32_incr ppc_atomic32_dec ppc_atomic32_decr ppc_atomic32_add ppc_atomic32_add_return ppc_atomic32_sub ppc_atomic32_sub_return ppc_atomic32_exchange fusion_atomic32_cas fusion_atomic32_cas_bool
  by unfold_locales (simp_all add: builtin_simps ppc_atomic32_inc_def ppc_atomic32_incr_def ppc_atomic32_dec_def ppc_atomic32_decr_def ppc_atomic32_add_def ppc_atomic32_add_return_def ppc_atomic32_sub_def ppc_atomic32_sub_return_def ppc_atomic32_exchange_def fusion_atomic32_cas_def fusion_atomic32_cas_bool_def)

lemma ppc_counts_holders:
  "paired (2 ^ 32) (unat x) ps \<Longrightarrow> map unat (fst (ref_run ppc_atomic32_incr ppc_atomic32_decr ps x)) = holders (unat x) ps"
  using ppc32.counts_holders [of x ps] by simp

end
