(* ===== verification/Kscsi_Host.thy ===== *)
theory Kscsi_Host
  imports Atomics
begin

text \<open>
  SCSI hosts and logical units: the part of \<open>kscsi_host.c\<close> that creates and destroys hosts.  The file is
  compiled only with \<open>KFIO_SCSI_DEVICE\<close>.

  The structure \<open>fio_port_scsi_host\<close> lives inside the midlayer's \<open>Scsi_Host\<close> and has its address here; a host that was
  put is no longer in the map.  \<open>port_lu\<close> is what \<open>kfio_scsi_lu_get_port_lu\<close> returns: the device last set by
  \<open>kfio_scsi_lu_set_port_lu\<close>.  Results of the midlayer are arguments.  The functions that take \<open>port_hosts_lk\<close> more
  than once are split where they release it, so that threads can run in between.

  The lemmas show that one host per target is kept under every interleaving, that calls one after the other count the
  units of each target, and how interleaved calls use a host after it was destroyed.
\<close>

record fio_port_scsi_host_stats =
  tot_cmds_completed :: u64
  tot_cmds_completed_err :: u64
  tot_aborts :: u64
  tot_device_resets :: u64
  tot_bus_resets :: u64
  tot_host_resets :: u64

record fio_port_scsi_host =
  shost :: addr
  lu_refs :: u32
  target_id :: u32
  stats :: fio_port_scsi_host_stats

record scsi_device =
  sdev_host :: addr
  sdev_id :: u32
  sdev_lun :: u64
  hostdata :: addr

datatype scsi_event =
    Host_registered addr
  | Host_unregistered addr
  | Host_put addr
  | Lu_added addr addr
  | Lu_removed addr addr

record scsi_state =
  hosts :: "addr \<Rightarrow> fio_port_scsi_host option"
  port_hosts :: "addr list"
  sdevs :: "addr \<Rightarrow> scsi_device"
  port_lu :: "addr \<Rightarrow> addr"
  scsi_log :: "scsi_event list"

definition port_host :: "scsi_state \<Rightarrow> addr \<Rightarrow> fio_port_scsi_host" where
  "port_host st h = the (hosts st h)"

definition set_host :: "addr \<Rightarrow> fio_port_scsi_host \<Rightarrow> scsi_state \<Rightarrow> scsi_state" where
  "set_host h p st = st\<lparr>hosts := (hosts st)(h := Some p)\<rparr>"

definition scsi_emit :: "scsi_event \<Rightarrow> scsi_state \<Rightarrow> scsi_state" where
  "scsi_emit e st = st\<lparr>scsi_log := scsi_log st @ [e]\<rparr>"

subsection \<open>Devices and units\<close>

abbreviation (input) fio_scsi_unhooked_lu :: addr where
  "fio_scsi_unhooked_lu \<equiv> NULL"

definition set_hostdata :: "addr \<Rightarrow> addr \<Rightarrow> scsi_state \<Rightarrow> scsi_state" where
  "set_hostdata sd lu st = st\<lparr>sdevs := (sdevs st)(sd := (sdevs st sd)\<lparr>hostdata := lu\<rparr>)\<rparr>"

definition kfio_scsi_lu_set_port_lu :: "addr \<Rightarrow> addr \<Rightarrow> scsi_state \<Rightarrow> scsi_state" where
  "kfio_scsi_lu_set_port_lu lu sd st = st\<lparr>port_lu := (port_lu st)(lu := sd)\<rparr>"

definition fio_port_scsi_host_from_shost :: "scsi_state \<Rightarrow> addr \<Rightarrow> addr" where
  "fio_port_scsi_host_from_shost st sh = (if shost (port_host st sh) = sh then sh else NULL)"

definition fio_scsi_lu_from_sdev_locked :: "addr \<Rightarrow> scsi_state \<Rightarrow> addr \<times> scsi_state" where
  "fio_scsi_lu_from_sdev_locked sd st =
     (let lu = hostdata (sdevs st sd)
      in if lu \<noteq> fio_scsi_unhooked_lu \<and> port_lu st lu \<noteq> sd
         then (fio_scsi_unhooked_lu, set_hostdata sd fio_scsi_unhooked_lu st)
         else (lu, st))"

definition unhook_device :: "addr \<Rightarrow> scsi_state \<Rightarrow> scsi_state" where
  "unhook_device sd st =
     (let (lu, st) = fio_scsi_lu_from_sdev_locked sd st;
          st = (if lu \<noteq> fio_scsi_unhooked_lu then kfio_scsi_lu_set_port_lu lu NULL st else st)
      in set_hostdata sd fio_scsi_unhooked_lu st)"

text \<open>\<open>devs\<close> are the devices of the host.\<close>

definition fio_scsi_shost_unhook_devices_from_lus :: "addr list \<Rightarrow> scsi_state \<Rightarrow> scsi_state" where
  "fio_scsi_shost_unhook_devices_from_lus devs st = fold unhook_device devs st"

subsection \<open>Hosts\<close>

fun lookup_tid :: "scsi_state \<Rightarrow> addr list \<Rightarrow> u32 \<Rightarrow> addr" where
  "lookup_tid st [] tid = NULL"
| "lookup_tid st (h # hs) tid = (if target_id (port_host st h) = tid then h else lookup_tid st hs tid)"

definition fio_port_scsi_host_lookup_from_tid :: "scsi_state \<Rightarrow> u32 \<Rightarrow> addr" where
  "fio_port_scsi_host_lookup_from_tid st tid = lookup_tid st (port_hosts st) tid"

definition fio_port_scsi_host_destroy :: "addr \<Rightarrow> scsi_state \<Rightarrow> scsi_state" where
  "fio_port_scsi_host_destroy h st =
     (if h \<noteq> NULL
      then
        let sh = shost (port_host st h)
        in if sh \<noteq> NULL
           then
             let st = set_host h ((port_host st h)\<lparr>shost := NULL\<rparr>) st;
                 st = scsi_emit (Host_put sh) (scsi_emit (Host_unregistered sh) st)
             in st\<lparr>hosts := (hosts st)(sh := None)\<rparr>
           else st
      else st)"

definition no_stats :: fio_port_scsi_host_stats where
  "no_stats = \<lparr>tot_cmds_completed = 0, tot_cmds_completed_err = 0, tot_aborts = 0, tot_device_resets = 0,
     tot_bus_resets = 0, tot_host_resets = 0\<rparr>"

text \<open>\<open>h\<close> is what \<open>scsi_host_alloc\<close> returns and \<open>reg\<close> the result of the registration.\<close>

definition fio_port_scsi_host_create :: "addr \<Rightarrow> int \<Rightarrow> u32 \<Rightarrow> scsi_state \<Rightarrow> addr \<times> scsi_state" where
  "fio_port_scsi_host_create h reg tid st =
     (if h = NULL then (NULL, st)
      else
        let st = set_host h \<lparr>shost = NULL, lu_refs = 0, target_id = tid, stats = no_stats\<rparr> st
        in if reg \<noteq> 0 then (NULL, fio_port_scsi_host_destroy h st)
           else (h, set_host h ((port_host st h)\<lparr>shost := h\<rparr>) (scsi_emit (Host_registered h) st)))"

definition incr_ref :: "addr \<Rightarrow> scsi_state \<Rightarrow> scsi_state" where
  "incr_ref h st = set_host h ((port_host st h)\<lparr>lu_refs := fusion_atomic32_inc (lu_refs (port_host st h))\<rparr>) st"

definition decr_ref :: "addr \<Rightarrow> scsi_state \<Rightarrow> scsi_state" where
  "decr_ref h st = set_host h ((port_host st h)\<lparr>lu_refs := snd (fusion_atomic32_decr (lu_refs (port_host st h)))\<rparr>) st"

subsection \<open>New units\<close>

text \<open>The first locked section: the host of the target with a reference, or NULL.\<close>

definition new_lu_lookup :: "u32 \<Rightarrow> scsi_state \<Rightarrow> addr \<times> scsi_state" where
  "new_lu_lookup tid st =
     (let h = fio_port_scsi_host_lookup_from_tid st tid
      in (h, if h \<noteq> NULL then incr_ref h st else st))"

text \<open>The second locked section: the new host is added, or destroyed in favour of another thread's.\<close>

definition new_lu_publish :: "addr \<Rightarrow> u32 \<Rightarrow> scsi_state \<Rightarrow> addr \<times> scsi_state" where
  "new_lu_publish h tid st =
     (let other = fio_port_scsi_host_lookup_from_tid st tid
      in if other \<noteq> NULL then (other, incr_ref other (fio_port_scsi_host_destroy h st))
         else (h, incr_ref h (st\<lparr>port_hosts := port_hosts st @ [h]\<rparr>)))"

text \<open>The rest, without the lock; \<open>add_rc\<close> is the result of \<open>scsi_add_device\<close>.\<close>

definition new_lu_add :: "addr \<Rightarrow> addr \<Rightarrow> addr list \<Rightarrow> int \<Rightarrow> scsi_state \<Rightarrow> int \<times> scsi_state" where
  "new_lu_add h lu devs add_rc st =
     (add_rc, scsi_emit (Lu_added h lu) (fio_scsi_shost_unhook_devices_from_lus devs st))"

definition kfio_port_scsi_new_lu ::
  "addr \<Rightarrow> int \<Rightarrow> addr \<Rightarrow> u32 \<Rightarrow> addr list \<Rightarrow> int \<Rightarrow> scsi_state \<Rightarrow> int \<times> scsi_state" where
  "kfio_port_scsi_new_lu fresh reg lu tid devs add_rc st =
     (let (h, st) = new_lu_lookup tid st
      in if h \<noteq> NULL then new_lu_add h lu devs add_rc st
         else
           let (h, st) = fio_port_scsi_host_create fresh reg tid st
           in if h = NULL then (- ENOMEM, st)
              else let (h, st) = new_lu_publish h tid st in new_lu_add h lu devs add_rc st)"

subsection \<open>Units that go away\<close>

text \<open>
  \<open>sd\<close> is the device found for the unit on the host, NULL if there is none.  The search reads the host without a test
  that the target has one: None is that read of a null pointer.
\<close>

definition kfio_port_scsi_lu_hidden :: "addr \<Rightarrow> u32 \<Rightarrow> addr \<Rightarrow> scsi_state \<Rightarrow> scsi_state option" where
  "kfio_port_scsi_lu_hidden lu tid sd st =
     (if fio_port_scsi_host_lookup_from_tid st tid = NULL then None
      else Some (if sd \<noteq> NULL then kfio_scsi_lu_set_port_lu lu NULL (set_hostdata sd fio_scsi_unhooked_lu st) else st))"

definition fio_port_scsi_host_remove_lu :: "addr \<Rightarrow> addr \<Rightarrow> addr \<Rightarrow> scsi_state \<Rightarrow> scsi_state" where
  "fio_port_scsi_host_remove_lu h lu sd st = (if sd \<noteq> NULL then scsi_emit (Lu_removed h lu) st else st)"

text \<open>Removal of the unit and the decrement, without the lock; True when the count became 0.\<close>

definition lu_gone_drop :: "addr \<Rightarrow> addr \<Rightarrow> addr \<Rightarrow> addr list \<Rightarrow> scsi_state \<Rightarrow> bool \<times> scsi_state" where
  "lu_gone_drop h lu sd devs st =
     (let st = decr_ref h (fio_port_scsi_host_remove_lu h lu sd st)
      in if lu_refs (port_host st h) = 0 then (True, st)
         else (False, fio_scsi_shost_unhook_devices_from_lus devs st))"

text \<open>The second locked section.\<close>

definition lu_gone_unlist :: "addr \<Rightarrow> scsi_state \<Rightarrow> scsi_state" where
  "lu_gone_unlist h st = st\<lparr>port_hosts := remove1 h (port_hosts st)\<rparr>"

definition kfio_port_scsi_lu_gone :: "addr \<Rightarrow> u32 \<Rightarrow> addr \<Rightarrow> addr list \<Rightarrow> scsi_state \<Rightarrow> scsi_state" where
  "kfio_port_scsi_lu_gone lu tid sd devs st =
     (let h = fio_port_scsi_host_lookup_from_tid st tid
      in if h \<noteq> NULL
         then
           let (last_one, st) = lu_gone_drop h lu sd devs st
           in if last_one then fio_port_scsi_host_destroy h (lu_gone_unlist h st) else st
         else st)"

subsection \<open>Threads\<close>

text \<open>Where a thread is between the sections of the calls.\<close>

datatype lu_pc =
    Idle
  | Creating u32
  | Created addr u32
  | Counted addr
  | Found addr
  | Zero addr
  | Unlisted addr

text \<open>
  One section of a call.  A section that reads a host has the host's existence as a guard, and the removal from the
  list that the host is in it: without that the code reads freed memory.
\<close>

inductive lu_step :: "lu_pc \<Rightarrow> scsi_state \<Rightarrow> lu_pc \<Rightarrow> scsi_state \<Rightarrow> bool" where
  new_found: "new_lu_lookup tid st = (h, st') \<Longrightarrow> h \<noteq> NULL \<Longrightarrow> lu_step Idle st (Counted h) st'"
| new_missing: "new_lu_lookup tid st = (NULL, st') \<Longrightarrow> lu_step Idle st (Creating tid) st'"
| create_ok: "hosts st fresh = None \<Longrightarrow> fio_port_scsi_host_create fresh reg tid st = (h, st') \<Longrightarrow> h \<noteq> NULL \<Longrightarrow>
    lu_step (Creating tid) st (Created h tid) st'"
| create_fail: "hosts st fresh = None \<Longrightarrow> fio_port_scsi_host_create fresh reg tid st = (NULL, st') \<Longrightarrow>
    lu_step (Creating tid) st Idle st'"
| publish: "new_lu_publish h tid st = (h', st') \<Longrightarrow> lu_step (Created h tid) st (Counted h') st'"
| add: "hosts st h \<noteq> None \<Longrightarrow> new_lu_add h lu devs rc st = (rc', st') \<Longrightarrow> lu_step (Counted h) st Idle st'"
| gone_found: "fio_port_scsi_host_lookup_from_tid st tid = h \<Longrightarrow> h \<noteq> NULL \<Longrightarrow> lu_step Idle st (Found h) st"
| drop_last: "hosts st h \<noteq> None \<Longrightarrow> lu_gone_drop h lu sd devs st = (True, st') \<Longrightarrow> lu_step (Found h) st (Zero h) st'"
| drop_other: "hosts st h \<noteq> None \<Longrightarrow> lu_gone_drop h lu sd devs st = (False, st') \<Longrightarrow> lu_step (Found h) st Idle st'"
| unlist: "h \<in> set (port_hosts st) \<Longrightarrow> lu_step (Zero h) st (Unlisted h) (lu_gone_unlist h st)"
| destroy: "lu_step (Unlisted h) st Idle (fio_port_scsi_host_destroy h st)"

record scsi_sys =
  sst :: scsi_state
  pcs :: "nat \<Rightarrow> lu_pc"

inductive scsi_step :: "scsi_sys \<Rightarrow> scsi_sys \<Rightarrow> bool" where
  thread: "lu_step (pcs s t) (sst s) pc st \<Longrightarrow> scsi_step s \<lparr>sst = st, pcs = (pcs s)(t := pc)\<rparr>"

text \<open>The target of each listed host.\<close>

definition targets :: "scsi_state \<Rightarrow> u32 list" where
  "targets st = map (\<lambda>h. target_id (port_host st h)) (port_hosts st)"

definition host_inv :: "scsi_state \<Rightarrow> bool" where
  "host_inv st \<longleftrightarrow> distinct (port_hosts st) \<and> NULL \<notin> set (port_hosts st) \<and> distinct (targets st) \<and>
     (\<forall>h\<in>set (port_hosts st). \<exists>p. hosts st h = Some p \<and> shost p = h \<and> lu_refs p \<noteq> 0)"

text \<open>The number of units of each target.\<close>

definition units :: "scsi_state \<Rightarrow> u32 \<Rightarrow> nat" where
  "units st tid =
     (let h = fio_port_scsi_host_lookup_from_tid st tid in if h = NULL then 0 else unat (lu_refs (port_host st h)))"

definition new_unit_counted :: "addr \<Rightarrow> int \<Rightarrow> u32 \<Rightarrow> int \<Rightarrow> scsi_state \<Rightarrow> int \<times> scsi_state \<Rightarrow> bool" where
  "new_unit_counted fresh reg tid add_rc st res \<longleftrightarrow>
     (let (rc, st') = res
      in host_inv st' \<and>
         (if units st tid = 0 \<and> (fresh = NULL \<or> reg \<noteq> 0) then rc = - ENOMEM \<and> units st' = units st
          else rc = add_rc \<and> units st' = (units st)(tid := units st tid + 1)))"

definition no_hosts :: scsi_state where
  "no_hosts = \<lparr>hosts = \<lambda>_. None, port_hosts = [], sdevs = \<lambda>_. \<lparr>sdev_host = NULL, sdev_id = 0, sdev_lun = 0, hostdata = NULL\<rparr>,
     port_lu = \<lambda>_. NULL, scsi_log = []\<rparr>"

subsection \<open>Initialization and teardown\<close>

text \<open>The variables of the file with what has been called; \<open>ret\<close> is the result of the core's \<open>kfio_scsi_init\<close>.\<close>

datatype iface_event = Init_spin | Destroy_spin | Scsi_init | Scsi_cleanup

record scsi_interface =
  can_queue :: int
  cmd_per_lun :: int
  port_hosts_initialized :: bool
  iface_hosts :: scsi_state
  iface_calls :: "iface_event list"

definition iface_call :: "iface_event \<Rightarrow> scsi_interface \<Rightarrow> scsi_interface" where
  "iface_call c st = st\<lparr>iface_calls := iface_calls st @ [c]\<rparr>"

definition fio_init_scsi_host_template :: "int \<Rightarrow> scsi_interface \<Rightarrow> scsi_interface" where
  "fio_init_scsi_host_template scsi_queue_depth st = st\<lparr>can_queue := scsi_queue_depth, cmd_per_lun := scsi_queue_depth\<rparr>"

definition kfio_platform_teardown_scsi_interface :: "scsi_interface \<Rightarrow> int \<times> scsi_interface" where
  "kfio_platform_teardown_scsi_interface st =
     (let st = iface_call Scsi_cleanup st;
          st = (if port_hosts_initialized st then iface_call Destroy_spin st else st)
      in (0, st))"

definition kfio_platform_init_scsi_interface :: "int \<Rightarrow> int \<Rightarrow> scsi_interface \<Rightarrow> int \<times> scsi_interface" where
  "kfio_platform_init_scsi_interface scsi_queue_depth ret st =
     (let st = fio_init_scsi_host_template scsi_queue_depth st;
          st = iface_call Init_spin st;
          st = st\<lparr>iface_hosts := (iface_hosts st)\<lparr>port_hosts := []\<rparr>\<rparr>;
          st = st\<lparr>port_hosts_initialized := True\<rparr>;
          st = iface_call Scsi_init st
      in if ret \<noteq> 0 then (ret, snd (kfio_platform_teardown_scsi_interface st)) else (0, st))"

subsection \<open>What the operations leave alone\<close>

lemma unhook_device_frame [frame_simps]:
  "hosts (unhook_device sd st) = hosts st" "port_hosts (unhook_device sd st) = port_hosts st"
  by (simp_all add: unhook_device_def fio_scsi_lu_from_sdev_locked_def set_hostdata_def kfio_scsi_lu_set_port_lu_def Let_def)

lemma unhook_frame [frame_simps]:
  "hosts (fio_scsi_shost_unhook_devices_from_lus devs st) = hosts st"
  "port_hosts (fio_scsi_shost_unhook_devices_from_lus devs st) = port_hosts st"
  unfolding fio_scsi_shost_unhook_devices_from_lus_def
  by (induction devs arbitrary: st) (simp_all add: frame_simps)

lemma scsi_emit_frame [frame_simps]: "hosts (scsi_emit e st) = hosts st" "port_hosts (scsi_emit e st) = port_hosts st"
  by (simp_all add: scsi_emit_def)

lemma set_host_frame [frame_simps]: "hosts (set_host h p st) = (hosts st)(h := Some p)" "port_hosts (set_host h p st) = port_hosts st"
  by (simp_all add: set_host_def)

lemma new_lu_add_frame [frame_simps]: "hosts (snd (new_lu_add h lu devs rc st)) = hosts st" "port_hosts (snd (new_lu_add h lu devs rc st)) = port_hosts st"
  by (simp_all add: new_lu_add_def frame_simps)

lemma remove_lu_frame [frame_simps]:
  "hosts (fio_port_scsi_host_remove_lu h lu sd st) = hosts st" "port_hosts (fio_port_scsi_host_remove_lu h lu sd st) = port_hosts st"
  by (simp_all add: fio_port_scsi_host_remove_lu_def frame_simps)

lemma incr_ref_frame [frame_simps]:
  "hosts (incr_ref h st) = (hosts st)(h := Some ((port_host st h)\<lparr>lu_refs := lu_refs (port_host st h) + 1\<rparr>))"
  "port_hosts (incr_ref h st) = port_hosts st"
  by (simp_all add: incr_ref_def frame_simps gcc32.quiet_laws gcc32.incr_law)

lemma decr_ref_frame [frame_simps]:
  "hosts (decr_ref h st) = (hosts st)(h := Some ((port_host st h)\<lparr>lu_refs := lu_refs (port_host st h) - 1\<rparr>))"
  "port_hosts (decr_ref h st) = port_hosts st"
  by (simp_all add: decr_ref_def frame_simps gcc32.decr_law)

lemma destroy_frame [frame_simps]: "port_hosts (fio_port_scsi_host_destroy h st) = port_hosts st"
  by (simp add: fio_port_scsi_host_destroy_def frame_simps Let_def)

lemma destroy_hosts:
  "hosts st h = Some p \<Longrightarrow> shost p = h \<Longrightarrow> h \<noteq> NULL \<Longrightarrow> hosts (fio_port_scsi_host_destroy h st) = (hosts st)(h := None)"
  by (simp add: fio_port_scsi_host_destroy_def frame_simps Let_def port_host_def)

lemma create_hosts:
  "h \<noteq> NULL \<Longrightarrow> hosts (snd (fio_port_scsi_host_create h reg tid st)) =
    (hosts st)(h := Some \<lparr>shost = (if reg = 0 then h else NULL), lu_refs = 0, target_id = tid, stats = no_stats\<rparr>)"
  "port_hosts (snd (fio_port_scsi_host_create h reg tid st)) = port_hosts st"
  "fst (fio_port_scsi_host_create h reg tid st) = (if h = NULL \<or> reg \<noteq> 0 then NULL else h)"
  by (simp_all add: fio_port_scsi_host_create_def fio_port_scsi_host_destroy_def frame_simps Let_def port_host_def fun_eq_iff)

subsection \<open>Lookup\<close>

lemma lookup_tid_cong:
  "(\<And>h. h \<in> set hs \<Longrightarrow> target_id (port_host st' h) = target_id (port_host st h)) \<Longrightarrow> lookup_tid st' hs tid = lookup_tid st hs tid"
  by (induction hs) auto

lemma lookup_tid_found: "lookup_tid st hs tid = h \<Longrightarrow> h \<noteq> NULL \<Longrightarrow> h \<in> set hs \<and> target_id (port_host st h) = tid"
  by (induction hs) (auto split: if_splits)

lemma lookup_tid_unique:
  "h \<in> set hs \<Longrightarrow> distinct (map (\<lambda>h. target_id (port_host st h)) hs) \<Longrightarrow> lookup_tid st hs (target_id (port_host st h)) = h"
proof (induction hs)
  case (Cons a hs)
  show ?case
  proof (cases "a = h")
    case False
    then have h: "h \<in> set hs" using Cons.prems(1) by simp
    then have "target_id (port_host st h) \<in> (\<lambda>h. target_id (port_host st h)) ` set hs" by blast
    then have "target_id (port_host st a) \<noteq> target_id (port_host st h)" using Cons.prems(2) by (metis distinct.simps(2) list.simps(9) set_map)
    then show ?thesis using Cons.IH [OF h] Cons.prems(2) by simp
  qed simp
qed simp

lemma lookup_tid_NULL: "NULL \<notin> set hs \<Longrightarrow> lookup_tid st hs tid = NULL \<longleftrightarrow> (\<forall>h\<in>set hs. target_id (port_host st h) \<noteq> tid)"
  by (induction hs) auto

lemma lookup_tid_append:
  "NULL \<notin> set hs \<Longrightarrow> lookup_tid st (hs @ [h]) tid =
    (if lookup_tid st hs tid \<noteq> NULL then lookup_tid st hs tid else if target_id (port_host st h) = tid then h else NULL)"
  by (induction hs) auto

subsection \<open>Calls one after the other\<close>

lemma lookup_cong:
  "port_hosts st' = port_hosts st \<Longrightarrow> (\<And>x. x \<in> set (port_hosts st) \<Longrightarrow> hosts st' x = hosts st x) \<Longrightarrow>
    fio_port_scsi_host_lookup_from_tid st' tid = fio_port_scsi_host_lookup_from_tid st tid"
  unfolding fio_port_scsi_host_lookup_from_tid_def by (simp only:) (rule lookup_tid_cong, simp only: port_host_def)

lemma units_cong:
  assumes "port_hosts st' = port_hosts st" and "\<And>x. x \<in> set (port_hosts st) \<Longrightarrow> hosts st' x = hosts st x"
  shows "units st' = units st"
proof
  fix tid
  let ?h = "fio_port_scsi_host_lookup_from_tid st tid"
  have "port_host st' ?h = port_host st ?h" if "?h \<noteq> NULL"
    using that lookup_tid_found [of st "port_hosts st" tid ?h] assms(2) [of ?h]
    by (simp add: fio_port_scsi_host_lookup_from_tid_def port_host_def)
  moreover have "fio_port_scsi_host_lookup_from_tid st' tid = ?h" using assms by (rule lookup_cong)
  ultimately show "units st' tid = units st tid" by (simp add: units_def Let_def)
qed

lemma host_inv_cong:
  assumes "port_hosts st' = port_hosts st" and "\<And>x. x \<in> set (port_hosts st) \<Longrightarrow> hosts st' x = hosts st x"
  shows "host_inv st' = host_inv st"
proof -
  have "targets st' = targets st" using assms by (simp add: targets_def port_host_def)
  then show ?thesis using assms by (simp add: host_inv_def)
qed

lemma counts_cong:
  "port_hosts st' = port_hosts st \<Longrightarrow> hosts st' = hosts st \<Longrightarrow> host_inv st' = host_inv st \<and> units st' = units st"
  using units_cong [of st' st] host_inv_cong [of st' st] by simp

text \<open>A change of the count of a listed host to a value that is not 0.\<close>

lemma units_set_refs:
  assumes inv: "host_inv st" and h: "fio_port_scsi_host_lookup_from_tid st tid = h" "h \<noteq> NULL" and "r \<noteq> 0"
    and st': "hosts st' = (hosts st)(h := Some ((port_host st h)\<lparr>lu_refs := r\<rparr>))" "port_hosts st' = port_hosts st"
  shows "host_inv st'" and "units st' = (units st)(tid := unat r)"
proof -
  have p: "target_id (port_host st' x) = target_id (port_host st x)"
    "lu_refs (port_host st' x) = (if x = h then r else lu_refs (port_host st x))" for x
    unfolding port_host_def st'(1) by (simp_all add: port_host_def)
  have "\<exists>p. hosts st' x = Some p \<and> shost p = x \<and> lu_refs p \<noteq> 0" if x: "x \<in> set (port_hosts st)" for x
  proof -
    obtain q where "hosts st x = Some q" "shost q = x" "lu_refs q \<noteq> 0" using inv x unfolding host_inv_def by blast
    then show ?thesis unfolding st'(1) using \<open>r \<noteq> 0\<close> by (auto simp: port_host_def)
  qed
  then show "host_inv st'" using inv unfolding host_inv_def targets_def st'(2) p(1) by blast
  have look: "fio_port_scsi_host_lookup_from_tid st' t = fio_port_scsi_host_lookup_from_tid st t" for t
    unfolding fio_port_scsi_host_lookup_from_tid_def st'(2) by (rule lookup_tid_cong) (rule p(1))
  have only: "fio_port_scsi_host_lookup_from_tid st t = h \<longleftrightarrow> t = tid" for t
    using h lookup_tid_found [of st "port_hosts st" _ h] unfolding fio_port_scsi_host_lookup_from_tid_def by metis
  show "units st' = (units st)(tid := unat r)"
  proof
    fix t
    show "units st' t = ((units st)(tid := unat r)) t"
      using h only [of t] by (simp add: units_def look p(2) Let_def)
  qed
qed

lemma units_add_host:
  assumes inv: "host_inv st" and h: "h \<notin> set (port_hosts st)" "h \<noteq> NULL" and none: "fio_port_scsi_host_lookup_from_tid st tid = NULL"
    and st': "hosts st' = (hosts st)(h := Some p)" "port_hosts st' = port_hosts st @ [h]"
    and p: "shost p = h" "lu_refs p = 1" "target_id p = tid"
  shows "host_inv st'" and "units st' = (units st)(tid := 1)"
proof -
  have i: "distinct (port_hosts st)" "NULL \<notin> set (port_hosts st)" "distinct (targets st)" using inv by (auto simp: host_inv_def)
  have ph: "port_host st' x = (if x = h then p else port_host st x)" for x unfolding port_host_def st'(1) by simp
  have ph': "port_host st' x = port_host st x" if "x \<in> set (port_hosts st)" for x using ph h(1) that by auto
  have new: "\<forall>x\<in>set (port_hosts st). target_id (port_host st x) \<noteq> tid"
    using none lookup_tid_NULL [OF i(2)] by (simp add: fio_port_scsi_host_lookup_from_tid_def)
  have "targets st' = targets st @ [tid]" using ph' ph [of h] p(3) by (simp add: targets_def st'(2))
  moreover have "tid \<notin> set (targets st)" using new by (auto simp: targets_def)
  moreover have "\<exists>q. hosts st' x = Some q \<and> shost q = x \<and> lu_refs q \<noteq> 0" if x: "x \<in> set (port_hosts st')" for x
  proof (cases "x = h")
    case False
    then show ?thesis using inv x unfolding host_inv_def st' by simp
  qed (use p in \<open>simp add: st'(1)\<close>)
  ultimately show "host_inv st'" using i h unfolding host_inv_def st'(2) by simp
  have look: "fio_port_scsi_host_lookup_from_tid st' t = (if t = tid then h else fio_port_scsi_host_lookup_from_tid st t)" for t
  proof -
    have "lookup_tid st' (port_hosts st) t = lookup_tid st (port_hosts st) t" by (rule lookup_tid_cong) (simp add: ph')
    then show ?thesis
      using none ph [of h] p(3) unfolding fio_port_scsi_host_lookup_from_tid_def st'(2) lookup_tid_append [OF i(2)] by auto
  qed
  have out: "fio_port_scsi_host_lookup_from_tid st t \<noteq> h" for t
    using h lookup_tid_found [of st "port_hosts st" t h] by (auto simp: fio_port_scsi_host_lookup_from_tid_def)
  show "units st' = (units st)(tid := 1)"
  proof
    fix t
    show "units st' t = ((units st)(tid := 1)) t" using out [of t] h(2) p(2) by (simp add: units_def look ph Let_def)
  qed
qed

lemma units_del_host:
  assumes inv: "host_inv st" and h: "fio_port_scsi_host_lookup_from_tid st tid = h" "h \<noteq> NULL"
    and st': "\<And>x. x \<noteq> h \<Longrightarrow> hosts st' x = hosts st x" "port_hosts st' = remove1 h (port_hosts st)"
  shows "host_inv st'" and "units st' = (units st)(tid := 0)"
proof -
  have i: "distinct (port_hosts st)" "NULL \<notin> set (port_hosts st)" "distinct (targets st)" using inv by (auto simp: host_inv_def)
  have hs: "set (port_hosts st') = set (port_hosts st) - {h}" using i(1) by (simp add: st'(2))
  have ph: "port_host st' x = port_host st x" if "x \<noteq> h" for x using st'(1) that by (simp add: port_host_def)
  have f: "h \<in> set (port_hosts st)" "target_id (port_host st h) = tid"
    using lookup_tid_found [of st "port_hosts st" tid h] h by (auto simp: fio_port_scsi_host_lookup_from_tid_def)
  have t: "targets st' = map (\<lambda>x. target_id (port_host st x)) (port_hosts st')"
    using hs ph by (auto simp: targets_def)
  have d: "distinct (targets st')" unfolding t st'(2) using i(3) i(1)
    by (auto simp: targets_def distinct_map intro: inj_on_subset)
  have "\<exists>q. hosts st' x = Some q \<and> shost q = x \<and> lu_refs q \<noteq> 0" if "x \<in> set (port_hosts st')" for x
    using that inv st'(1) unfolding hs host_inv_def by auto
  then show inv': "host_inv st'" using i d hs unfolding host_inv_def st'(2) by auto
  have "units st' t = ((units st)(tid := 0)) t" for t
  proof (cases "\<exists>x\<in>set (port_hosts st'). target_id (port_host st x) = t")
    case True
    then obtain x where x: "x \<in> set (port_hosts st')" "target_id (port_host st x) = t" by blast
    then have x': "x \<in> set (port_hosts st)" "x \<noteq> h" "x \<noteq> NULL" using hs i(2) by auto
    have "lookup_tid st (port_hosts st) t = x" using lookup_tid_unique [of x "port_hosts st" st] x' i(3) x(2) by (simp add: targets_def)
    moreover have "lookup_tid st' (port_hosts st') t = x"
      using lookup_tid_unique [of x "port_hosts st'" st'] x d x'(2) ph by (simp add: targets_def)
    moreover from calculation have "t \<noteq> tid" using h(1) x'(2) by (auto simp: fio_port_scsi_host_lookup_from_tid_def)
    ultimately show ?thesis using ph x'(2,3) by (simp add: units_def fio_port_scsi_host_lookup_from_tid_def)
  next
    case False
    then have "lookup_tid st' (port_hosts st') t = NULL" using lookup_tid_NULL [of "port_hosts st'" st' t] hs i(2) ph by auto
    moreover have "lookup_tid st (port_hosts st) t = NULL" if "t \<noteq> tid"
      using lookup_tid_NULL [OF i(2)] False hs f(2) that by auto
    ultimately show ?thesis by (auto simp: units_def fio_port_scsi_host_lookup_from_tid_def Let_def)
  qed
  then show "units st' = (units st)(tid := 0)" by blast
qed

lemma new_lu_add_counts:
  "fst (new_lu_add h lu devs rc st) = rc" "host_inv (snd (new_lu_add h lu devs rc st)) = host_inv st"
  "units (snd (new_lu_add h lu devs rc st)) = units st"
proof -
  show "fst (new_lu_add h lu devs rc st) = rc" by (simp add: new_lu_add_def)
qed (use counts_cong [OF new_lu_add_frame(2,1)] in blast)+

lemma create_listed:
  assumes "fresh \<notin> set (port_hosts st)" and "x \<in> set (port_hosts st)"
  shows "hosts (snd (fio_port_scsi_host_create fresh reg tid st)) x = hosts st x"
  using assms create_hosts(1) [of fresh reg tid st] by (cases "fresh = NULL") (auto simp: fio_port_scsi_host_create_def)

lemma first_unit_counted:
  assumes inv: "host_inv st" "fresh \<notin> set (port_hosts st)" and none: "fio_port_scsi_host_lookup_from_tid st tid = NULL"
  shows "new_unit_counted fresh reg tid add_rc st (kfio_port_scsi_new_lu fresh reg lu tid devs add_rc st)"
proof -
  let ?c = "fio_port_scsi_host_create fresh reg tid st"
  let ?p = "new_lu_publish fresh tid (snd ?c)"
  have u: "units st tid = 0" using none by (simp add: units_def)
  have l: "new_lu_lookup tid st = (NULL, st)" using none by (simp add: new_lu_lookup_def)
  note c = create_hosts(2) [of fresh reg tid st] create_listed [OF inv(2)]
  show ?thesis
  proof (cases "fresh = NULL \<or> reg \<noteq> 0")
    case True
    have "kfio_port_scsi_new_lu fresh reg lu tid devs add_rc st = (- ENOMEM, snd ?c)"
      using True create_hosts(3) [of fresh reg tid st] by (simp add: kfio_port_scsi_new_lu_def l split_beta)
    then show ?thesis
      using u True host_inv_cong [OF c] units_cong [OF c] inv(1) by (simp add: new_unit_counted_def)
  next
    case False
    have r: "kfio_port_scsi_new_lu fresh reg lu tid devs add_rc st = new_lu_add (fst ?p) lu devs add_rc (snd ?p)"
      using False create_hosts(3) [of fresh reg tid st] by (simp add: kfio_port_scsi_new_lu_def l split_beta)
    have "fio_port_scsi_host_lookup_from_tid (snd ?c) tid = NULL" using lookup_cong [OF c] none by simp
    then have p: "snd ?p = incr_ref fresh ((snd ?c)\<lparr>port_hosts := port_hosts st @ [fresh]\<rparr>)"
      by (simp add: new_lu_publish_def c(1))
    have "hosts (snd ?p) = (hosts st)(fresh := Some \<lparr>shost = fresh, lu_refs = 1, target_id = tid, stats = no_stats\<rparr>)"
      using False unfolding p by (simp add: frame_simps create_hosts port_host_def fun_eq_iff)
    moreover have "port_hosts (snd ?p) = port_hosts st @ [fresh]" unfolding p by (simp add: frame_simps)
    ultimately have "host_inv (snd ?p)" "units (snd ?p) = (units st)(tid := 1)"
      using False units_add_host [OF inv _ none, of "snd ?p"] by auto
    then show ?thesis using r u False by (simp add: new_unit_counted_def split_beta Let_def new_lu_add_counts)
  qed
qed

lemma listed_host:
  assumes "host_inv st" and "fio_port_scsi_host_lookup_from_tid st tid = h" and "h \<noteq> NULL"
  shows "units st tid = unat (lu_refs (port_host st h))" and "lu_refs (port_host st h) \<noteq> 0"
    and "hosts st h = Some (port_host st h)" and "shost (port_host st h) = h"
proof -
  have "h \<in> set (port_hosts st)" using assms lookup_tid_found by (auto simp: fio_port_scsi_host_lookup_from_tid_def)
  then show "lu_refs (port_host st h) \<noteq> 0" "hosts st h = Some (port_host st h)" "shost (port_host st h) = h"
    using assms(1) unfolding host_inv_def by (auto simp: port_host_def)
qed (use assms in \<open>simp add: units_def\<close>)

lemma next_unit_counted:
  assumes inv: "host_inv st" and h: "fio_port_scsi_host_lookup_from_tid st tid = h" "h \<noteq> NULL" and max: "units st tid + 1 < 2 ^ 32"
  shows "new_unit_counted fresh reg tid add_rc st (kfio_port_scsi_new_lu fresh reg lu tid devs add_rc st)"
proof -
  let ?r = "lu_refs (port_host st h)"
  note l = listed_host [OF inv h]
  have u: "units st tid \<noteq> 0" using l(1,2) by (simp add: unat_eq_0)
  have up: "unat (?r + 1) = unat ?r + 1"
    using max unfolding l(1) using unat_add_no_wrap [of ?r 1] by simp
  then have nz: "?r + 1 \<noteq> 0" by (metis Suc_eq_plus1 nat.distinct(1) unat_0)
  have "kfio_port_scsi_new_lu fresh reg lu tid devs add_rc st = new_lu_add h lu devs add_rc (incr_ref h st)"
    using h by (simp add: kfio_port_scsi_new_lu_def new_lu_lookup_def)
  moreover have "host_inv (incr_ref h st)" "units (incr_ref h st) = (units st)(tid := unat (?r + 1))"
    using units_set_refs [OF inv h nz, of "incr_ref h st"] by (simp_all add: frame_simps)
  ultimately show ?thesis using u up l(1) by (simp add: new_unit_counted_def split_beta Let_def new_lu_add_counts)
qed

lemma lu_gone_counted:
  assumes inv: "host_inv st" and h: "fio_port_scsi_host_lookup_from_tid st tid = h" "h \<noteq> NULL"
  shows "host_inv (kfio_port_scsi_lu_gone lu tid sd devs st) \<and>
    units (kfio_port_scsi_lu_gone lu tid sd devs st) = (units st)(tid := units st tid - 1)"
proof -
  let ?r = "lu_refs (port_host st h)" and ?g = "kfio_port_scsi_lu_gone lu tid sd devs st"
  let ?d = "decr_ref h (fio_port_scsi_host_remove_lu h lu sd st)"
  note l = listed_host [OF inv h]
  have d: "hosts ?d = (hosts st)(h := Some ((port_host st h)\<lparr>lu_refs := ?r - 1\<rparr>))" "port_hosts ?d = port_hosts st"
    by (simp_all add: frame_simps port_host_def)
  have dr: "lu_refs (port_host ?d h) = ?r - 1" "shost (port_host ?d h) = h"
    using l(4) unfolding port_host_def [of ?d] d(1) by simp_all
  show ?thesis
  proof (cases "?r - 1 = 0")
    case True
    have "?g = fio_port_scsi_host_destroy h (lu_gone_unlist h ?d)"
      using h True dr(1) by (simp add: kfio_port_scsi_lu_gone_def lu_gone_drop_def Let_def)
    moreover have "hosts (fio_port_scsi_host_destroy h (lu_gone_unlist h ?d)) = (hosts ?d)(h := None)"
      using destroy_hosts [of "lu_gone_unlist h ?d" h "port_host ?d h"] dr(2) d(1) h(2) by (simp add: lu_gone_unlist_def port_host_def)
    ultimately have "\<And>x. x \<noteq> h \<Longrightarrow> hosts ?g x = hosts st x" "port_hosts ?g = remove1 h (port_hosts st)"
      using d by (simp_all add: frame_simps lu_gone_unlist_def)
    moreover have "?r = 1" using True by simp
    ultimately show ?thesis using units_del_host [OF inv h, of ?g] l(1) by simp
  next
    case False
    have "?g = fio_scsi_shost_unhook_devices_from_lus devs ?d"
      using h False dr(1) by (simp add: kfio_port_scsi_lu_gone_def lu_gone_drop_def Let_def)
    moreover have "host_inv ?d" "units ?d = (units st)(tid := unat (?r - 1))"
      using units_set_refs [OF inv h False d] by auto
    ultimately show ?thesis using counts_cong [OF unhook_frame(2,1)] unat_decr [OF l(2)] l(1) by simp
  qed
qed

text \<open>
  C27: Called one after the other, the functions count the units of each target.  A new unit adds one to its target, creating the
  host when it is the first; when the host cannot be made, -ENOMEM is returned and nothing is counted.  A unit that
  goes takes one away, and the last one takes the host with it.  The invariant of the hosts holds again after every call.
\<close>

theorem scsi_units_counted:
  assumes "host_inv st" and "fresh \<notin> set (port_hosts st)" and "units st tid + 1 < 2 ^ 32"
  shows "(let (rc, st') = kfio_port_scsi_new_lu fresh reg lu tid devs add_rc st
      in host_inv st' \<and>
         (if units st tid = 0 \<and> (fresh = NULL \<or> reg \<noteq> 0) then rc = - ENOMEM \<and> units st' = units st
          else rc = add_rc \<and> units st' = (units st)(tid := units st tid + 1))) \<and>
    (let st' = kfio_port_scsi_lu_gone lu tid sd devs st
      in host_inv st' \<and> units st' = (units st)(tid := units st tid - 1))"
proof (cases "fio_port_scsi_host_lookup_from_tid st tid = NULL")
  case True
  then have "units st tid = 0" "kfio_port_scsi_lu_gone lu tid sd devs st = st"
    by (simp_all add: units_def kfio_port_scsi_lu_gone_def)
  then have "new_unit_counted fresh reg tid add_rc st (kfio_port_scsi_new_lu fresh reg lu tid devs add_rc st) \<and>
      host_inv (kfio_port_scsi_lu_gone lu tid sd devs st) \<and>
      units (kfio_port_scsi_lu_gone lu tid sd devs st) = (units st)(tid := units st tid - 1)"
    using first_unit_counted [OF assms(1,2) True] assms(1) by (simp add: fun_upd_idem)
  then show ?thesis unfolding new_unit_counted_def Let_def .
next
  case False
  then have "new_unit_counted fresh reg tid add_rc st (kfio_port_scsi_new_lu fresh reg lu tid devs add_rc st) \<and>
      host_inv (kfio_port_scsi_lu_gone lu tid sd devs st) \<and>
      units (kfio_port_scsi_lu_gone lu tid sd devs st) = (units st)(tid := units st tid - 1)"
    using next_unit_counted [OF assms(1) refl False assms(3)] lu_gone_counted [OF assms(1) refl False] by blast
  then show ?thesis unfolding new_unit_counted_def Let_def .
qed

theorem scsi_units_counted_witness:
  "units (snd (kfio_port_scsi_new_lu 16 0 100 5 [] 0 no_hosts)) = (units no_hosts)(5 := 1)"
  using scsi_units_counted [of no_hosts 16 5 0 100 "[]" 0 NULL]
  by (simp add: no_hosts_def host_inv_def targets_def units_def fio_port_scsi_host_lookup_from_tid_def split_beta Let_def)

definition live :: "scsi_state \<Rightarrow> addr \<Rightarrow> bool" where
  "live st h \<longleftrightarrow> h \<noteq> NULL \<and> (case hosts st h of Some p \<Rightarrow> shost p = h | None \<Rightarrow> False)"

text \<open>The host that only this thread knows.\<close>

fun own :: "lu_pc \<Rightarrow> addr option" where
  "own (Created h _) = Some h"
| "own (Unlisted h) = Some h"
| "own _ = None"

definition listed_inv :: "scsi_state \<Rightarrow> bool" where
  "listed_inv st \<longleftrightarrow> distinct (port_hosts st) \<and> distinct (targets st) \<and> (\<forall>h\<in>set (port_hosts st). live st h)"

definition owned_inv :: "scsi_state \<Rightarrow> (nat \<Rightarrow> lu_pc) \<Rightarrow> bool" where
  "owned_inv st pc \<longleftrightarrow>
     (\<forall>t h. own (pc t) = Some h \<longrightarrow> live st h \<and> h \<notin> set (port_hosts st) \<and> (\<forall>u. own (pc u) = Some h \<longrightarrow> u = t)) \<and>
     (\<forall>t h tid. pc t = Created h tid \<longrightarrow> target_id (port_host st h) = tid)"

definition sys_inv :: "scsi_sys \<Rightarrow> bool" where
  "sys_inv s \<longleftrightarrow> listed_inv (sst s) \<and> owned_inv (sst s) (pcs s)"

text \<open>A step that leaves hosts in use alone: the hosts in the list, and the hosts of the threads.\<close>

definition same_host :: "scsi_state \<Rightarrow> scsi_state \<Rightarrow> addr \<Rightarrow> bool" where
  "same_host st st' h \<longleftrightarrow> (live st h \<longrightarrow> live st' h) \<and> target_id (port_host st' h) = target_id (port_host st h)"

definition no_calls :: scsi_sys where
  "no_calls = \<lparr>sst = no_hosts, pcs = \<lambda>_. Idle\<rparr>"

definition one_unit :: scsi_state where
  "one_unit = snd (kfio_port_scsi_new_lu 16 0 100 5 [] 0 no_hosts)"

subsection \<open>Threads side by side\<close>

lemma same_host_refs:
  "hosts st h \<noteq> None \<Longrightarrow> hosts st' = (hosts st)(h := Some ((port_host st h)\<lparr>lu_refs := r\<rparr>)) \<Longrightarrow> same_host st st' x"
  by (auto simp: same_host_def live_def port_host_def split: option.splits)

lemma same_host_eq: "hosts st' x = hosts st x \<Longrightarrow> same_host st st' x"
  by (simp add: same_host_def live_def port_host_def)

lemma listed_inv_same:
  assumes "listed_inv st" and "port_hosts st' = port_hosts st" and "\<And>x. x \<in> set (port_hosts st) \<Longrightarrow> same_host st st' x"
  shows "listed_inv st'"
proof -
  have "targets st' = targets st" using assms(2,3) by (simp add: targets_def same_host_def)
  then show ?thesis using assms by (simp add: listed_inv_def same_host_def)
qed

lemma owned_inv_same:
  assumes "owned_inv st pc" and "set (port_hosts st') \<subseteq> set (port_hosts st)" and "own p = None"
    and "\<And>u x. u \<noteq> t \<Longrightarrow> own (pc u) = Some x \<Longrightarrow> same_host st st' x"
  shows "owned_inv st' (pc(t := p))"
  unfolding owned_inv_def
proof (intro conjI allI impI)
  fix u h assume u: "own ((pc(t := p)) u) = Some h"
  then have "u \<noteq> t" "own (pc u) = Some h" using assms(3) by (auto split: if_splits)
  then show "live st' h" "h \<notin> set (port_hosts st')" using assms unfolding owned_inv_def same_host_def by blast+
  fix v assume "own ((pc(t := p)) v) = Some h"
  then have "own (pc v) = Some h" using assms(3) by (auto split: if_splits)
  then show "v = u" using assms(1) \<open>own (pc u) = Some h\<close> unfolding owned_inv_def by blast
next
  fix u h tid assume "(pc(t := p)) u = Created h tid"
  then have "u \<noteq> t" "pc u = Created h tid" using assms(3) by (auto split: if_splits)
  then have "same_host st st' h" "target_id (port_host st h) = tid" using assms unfolding owned_inv_def by fastforce+
  then show "target_id (port_host st' h) = tid" by (simp add: same_host_def)
qed

text \<open>A thread becomes the owner of a host nobody knows.\<close>

lemma owned_inv_own:
  assumes "owned_inv st pc" and "set (port_hosts st') \<subseteq> set (port_hosts st)" and "own p = Some h"
    and "\<And>u x. u \<noteq> t \<Longrightarrow> own (pc u) = Some x \<Longrightarrow> x \<noteq> h \<and> same_host st st' x"
    and "live st' h" "h \<notin> set (port_hosts st')" and "\<And>tid. p = Created h tid \<Longrightarrow> target_id (port_host st' h) = tid"
  shows "owned_inv st' (pc(t := p))"
  unfolding owned_inv_def
proof (intro conjI allI impI)
  have old: "live st' x \<and> x \<notin> set (port_hosts st') \<and> x \<noteq> h" if "u \<noteq> t" "own (pc u) = Some x" for u x
  proof -
    have "live st x" "x \<notin> set (port_hosts st)" using assms(1) that(2) unfolding owned_inv_def by blast+
    then show ?thesis using assms(4) [OF that] assms(2) unfolding same_host_def by blast
  qed
  fix u x assume u: "own ((pc(t := p)) u) = Some x"
  show "live st' x" "x \<notin> set (port_hosts st')"
    using u old [of u x] assms(3,5,6) by (cases "u = t"; simp)+
  fix v assume v: "own ((pc(t := p)) v) = Some x"
  show "v = u"
  proof (cases "u = t \<or> v = t")
    case True
    then show ?thesis using u v old [of u x] old [of v x] assms(3) by (cases "u = t"; cases "v = t") simp_all
  next
    case False
    then show ?thesis using u v assms(1) unfolding owned_inv_def by simp
  qed
next
  fix u x tid assume u: "(pc(t := p)) u = Created x tid"
  show "target_id (port_host st' x) = tid"
  proof (cases "u = t")
    case True
    then show ?thesis using u assms(3,7) by simp
  next
    case False
    then have "pc u = Created x tid" using u by simp
    then have "same_host st st' x" "target_id (port_host st x) = tid" using assms(1) assms(4) [of u x] False unfolding owned_inv_def by auto
    then show ?thesis by (simp add: same_host_def)
  qed
qed

lemma sys_inv_same:
  assumes "listed_inv st" "owned_inv st pc" and "port_hosts st' = port_hosts st" and "own p = None" and "\<And>x. same_host st st' x"
  shows "listed_inv st' \<and> owned_inv st' (pc(t := p))"
  using listed_inv_same [OF assms(1,3)] owned_inv_same [OF assms(2) _ assms(4), of st'] assms(3,5) by simp


lemma lookup_listed:
  "fio_port_scsi_host_lookup_from_tid st tid = h \<Longrightarrow> h \<noteq> NULL \<Longrightarrow> h \<in> set (port_hosts st) \<and> target_id (port_host st h) = tid"
  using lookup_tid_found unfolding fio_port_scsi_host_lookup_from_tid_def by blast

lemma listed_live: "listed_inv st \<Longrightarrow> h \<in> set (port_hosts st) \<Longrightarrow> live st h"
  by (simp add: listed_inv_def)

lemma live_exists: "live st h \<Longrightarrow> hosts st h \<noteq> None"
  by (auto simp: live_def split: option.splits)

lemma owned_facts:
  "owned_inv st pc \<Longrightarrow> own (pc t) = Some h \<Longrightarrow> live st h"
  "owned_inv st pc \<Longrightarrow> own (pc t) = Some h \<Longrightarrow> h \<notin> set (port_hosts st)"
  "owned_inv st pc \<Longrightarrow> own (pc t) = Some h \<Longrightarrow> own (pc u) = Some h \<Longrightarrow> u = t"
  "owned_inv st pc \<Longrightarrow> pc t = Created h tid \<Longrightarrow> target_id (port_host st h) = tid"
  unfolding owned_inv_def by blast+

lemma live_destroy: "live st h \<Longrightarrow> hosts (fio_port_scsi_host_destroy h st) = (hosts st)(h := None)"
  using destroy_hosts [of st h "port_host st h"] by (auto simp: live_def port_host_def split: option.splits)

lemma incr_ref_inv:
  assumes "listed_inv st" "owned_inv st pc" and "live st h" and "own p = None"
  shows "listed_inv (incr_ref h st) \<and> owned_inv (incr_ref h st) (pc(t := p))"
  using sys_inv_same [OF assms(1,2) incr_ref_frame(2) assms(4)] same_host_refs [OF live_exists [OF assms(3)] incr_ref_frame(1)] .

lemma destroy_inv:
  assumes "listed_inv st" "owned_inv st pc" and "own (pc t) = Some h" and "own p = None"
  shows "listed_inv (fio_port_scsi_host_destroy h st) \<and> owned_inv (fio_port_scsi_host_destroy h st) (pc(t := p))"
proof -
  have same: "same_host st (fio_port_scsi_host_destroy h st) x" if "x \<noteq> h" for x
    using live_destroy [OF owned_facts(1) [OF assms(2,3)]] that by (intro same_host_eq) simp
  have "x \<noteq> h" if "x \<in> set (port_hosts st)" for x using owned_facts(2) [OF assms(2,3)] that by blast
  moreover have "x \<noteq> h" if "u \<noteq> t" "own (pc u) = Some x" for u x using owned_facts(3) [OF assms(2,3)] that by blast
  ultimately show ?thesis
    using listed_inv_same [OF assms(1) destroy_frame] owned_inv_same [OF assms(2) _ assms(4)] same by (simp add: frame_simps)
qed

lemma publish_inv:
  assumes inv: "listed_inv st" "owned_inv st pc" and pc: "pc t = Created h tid"
    and none: "fio_port_scsi_host_lookup_from_tid st tid = NULL"
    and st': "st' = incr_ref h (st\<lparr>port_hosts := port_hosts st @ [h]\<rparr>)" and p: "own p = None"
  shows "listed_inv st' \<and> owned_inv st' (pc(t := p))"
proof -
  have o: "own (pc t) = Some h" by (simp add: pc)
  note f = owned_facts(1,2) [OF inv(2) o] owned_facts(4) [OF inv(2) pc]
  have h': "hosts st' = (hosts st)(h := Some ((port_host st h)\<lparr>lu_refs := lu_refs (port_host st h) + 1\<rparr>))"
    "port_hosts st' = port_hosts st @ [h]" unfolding st' by (simp_all add: frame_simps port_host_def)
  note same = same_host_refs [OF live_exists [OF f(1)] h'(1)]
  have "NULL \<notin> set (port_hosts st)" using inv(1) by (auto simp: listed_inv_def live_def)
  then have "tid \<notin> set (targets st)"
    using none lookup_tid_NULL by (auto simp: fio_port_scsi_host_lookup_from_tid_def targets_def)
  moreover have "targets st' = targets st @ [tid]" using same f(3) by (simp add: targets_def h'(2) same_host_def)
  ultimately have "listed_inv st'" using inv(1) f same by (auto simp: listed_inv_def h'(2) same_host_def)
  moreover have "owned_inv (st'\<lparr>port_hosts := port_hosts st\<rparr>) (pc(t := p))"
    using same by (intro owned_inv_same [OF inv(2) _ p]) (simp_all add: same_host_def live_def port_host_def)
  moreover have "x \<noteq> h" if "own ((pc(t := p)) u) = Some x" for u x
    using owned_facts(3) [OF inv(2) o] that p by (auto split: if_splits)
  ultimately show ?thesis by (simp add: owned_inv_def h'(2) live_def port_host_def)
qed

lemma create_inv:
  assumes inv: "listed_inv st" "owned_inv st pc" and fresh: "hosts st fresh = None"
    and c: "fio_port_scsi_host_create fresh reg tid st = (h, st')"
  shows "listed_inv st'" and "h \<noteq> NULL \<Longrightarrow> owned_inv st' (pc(t := Created h tid))" and "owned_inv st' (pc(t := Idle))"
proof -
  have h': "port_hosts st' = port_hosts st" "\<And>x. x \<noteq> fresh \<Longrightarrow> hosts st' x = hosts st x" "h = (if fresh = NULL \<or> reg \<noteq> 0 then NULL else fresh)"
    using create_hosts [of fresh reg tid st] c by (cases "fresh = NULL"; auto simp: fio_port_scsi_host_create_def)+
  have dead: "\<not> live st fresh" using fresh live_exists by blast
  have l: "x \<noteq> fresh" if "x \<in> set (port_hosts st)" for x using listed_live [OF inv(1) that] dead by blast
  have o: "x \<noteq> fresh" if "own (pc u) = Some x" for u x using owned_facts(1) [OF inv(2) that] dead by blast
  show "listed_inv st'" using l by (intro listed_inv_same [OF inv(1) h'(1)] same_host_eq h'(2)) blast
  show "owned_inv st' (pc(t := Idle))"
    using o by (intro owned_inv_same [OF inv(2)] same_host_eq h'(2)) (auto simp: h'(1))
  assume "h \<noteq> NULL"
  then have h: "h = fresh" "fresh \<noteq> NULL" "reg = 0" using h'(3) by (auto split: if_splits)
  have "hosts st' fresh = Some \<lparr>shost = fresh, lu_refs = 0, target_id = tid, stats = no_stats\<rparr>"
    using create_hosts(1) [of fresh reg tid st] h c by simp
  then have "live st' h" "target_id (port_host st' h) = tid" using h by (simp_all add: live_def port_host_def)
  moreover have "h \<notin> set (port_hosts st')" using l h h'(1) by auto
  ultimately show "owned_inv st' (pc(t := Created h tid))"
    using o h by (intro owned_inv_own [OF inv(2), of st' _ h]) (auto simp: h'(1) intro!: same_host_eq h'(2))
qed


lemma drop_inv:
  assumes "listed_inv st" "owned_inv st pc" and "hosts st h \<noteq> None" and "own p = None" and "lu_gone_drop h lu sd devs st = (b, st')"
  shows "listed_inv st' \<and> owned_inv st' (pc(t := p))"
proof (rule sys_inv_same [OF assms(1,2) _ assms(4)])
  let ?d = "decr_ref h (fio_port_scsi_host_remove_lu h lu sd st)"
  have d: "hosts st' = hosts ?d" "port_hosts st' = port_hosts ?d"
    using assms(5) by (auto simp: lu_gone_drop_def Let_def unhook_frame split: if_splits)
  then show "port_hosts st' = port_hosts st" by (simp add: frame_simps)
  have "hosts st' = (hosts st)(h := Some ((port_host st h)\<lparr>lu_refs := lu_refs (port_host st h) - 1\<rparr>))"
    unfolding d by (simp add: frame_simps port_host_def)
  then show "same_host st st' x" for x by (rule same_host_refs [OF assms(3)])
qed

lemma unlist_inv:
  assumes inv: "listed_inv st" "owned_inv st pc" and h: "h \<in> set (port_hosts st)"
  shows "listed_inv (lu_gone_unlist h st) \<and> owned_inv (lu_gone_unlist h st) (pc(t := Unlisted h))"
proof
  let ?u = "lu_gone_unlist h st"
  have d: "distinct (port_hosts st)" "distinct (targets st)" using inv(1) by (simp_all add: listed_inv_def)
  have u: "hosts ?u = hosts st" "port_hosts ?u = remove1 h (port_hosts st)" by (simp_all add: lu_gone_unlist_def)
  have s: "set (port_hosts ?u) = set (port_hosts st) - {h}" using d(1) by (simp add: u(2))
  have same: "same_host st ?u x" for x by (rule same_host_eq) (simp add: u(1))
  then have live: "live ?u x" if "live st x" for x using that by (simp add: same_host_def)
  have "distinct (targets ?u)"
    using d unfolding targets_def u(2) port_host_def u(1) by (auto simp: distinct_map intro: inj_on_subset)
  then show "listed_inv ?u" using inv(1) live d(1) unfolding listed_inv_def s by (simp add: u(2))
  show "owned_inv ?u (pc(t := Unlisted h))"
  proof (rule owned_inv_own [OF inv(2), where h = h])
    show "live ?u h" using listed_live [OF inv(1) h] by (rule live)
    show "x \<noteq> h \<and> same_host st ?u x" if "own (pc u) = Some x" for u x using owned_facts(2) [OF inv(2) that] h same by blast
  qed (use s in auto)
qed

theorem lu_step_inv:
  assumes "lu_step (pc t) st p st'" and "listed_inv st" and "owned_inv st pc"
  shows "listed_inv st' \<and> owned_inv st' (pc(t := p))"
  using assms(1)
proof (cases rule: lu_step.cases)
  case (new_found tid h)
  then have "live st h" "st' = incr_ref h st"
    using lookup_listed [of st tid h] listed_live [OF assms(2)] by (auto simp: new_lu_lookup_def Let_def)
  then show ?thesis using incr_ref_inv [OF assms(2,3), of h p t] new_found by simp
next
  case (new_missing tid)
  then have "st' = st" by (simp add: new_lu_lookup_def Let_def split: if_splits)
  then show ?thesis using sys_inv_same [OF assms(2,3), of st p t] new_missing same_host_eq by simp
next
  case (create_ok fresh reg tid h)
  then show ?thesis using create_inv(1,2) [OF assms(2,3)] by blast
next
  case (create_fail fresh reg tid)
  then show ?thesis using create_inv(1,3) [OF assms(2,3)] by blast
next
  case (publish h tid h')
  show ?thesis
  proof (cases "fio_port_scsi_host_lookup_from_tid st tid = NULL")
    case True
    then have "st' = incr_ref h (st\<lparr>port_hosts := port_hosts st @ [h]\<rparr>)" using publish by (auto simp: new_lu_publish_def Let_def)
    then show ?thesis by (rule publish_inv [OF assms(2,3) publish(1) True]) (simp add: publish(2))
  next
    case False
    let ?d = "fio_port_scsi_host_destroy h st"
    have st': "st' = incr_ref h' ?d" "h' = fio_port_scsi_host_lookup_from_tid st tid"
      using False publish by (auto simp: new_lu_publish_def Let_def)
    have o: "own (pc t) = Some h" by (simp add: publish(1))
    have d: "listed_inv ?d \<and> owned_inv ?d (pc(t := Idle))" by (rule destroy_inv [OF assms(2,3) o]) simp
    moreover have "live ?d h'" using lookup_listed [OF st'(2) [symmetric]] False st'(2) d by (simp add: listed_live destroy_frame)
    ultimately show ?thesis using incr_ref_inv [of ?d "pc(t := Idle)" h' p t] publish st'(1) by simp
  qed
next
  case (add h lu devs rc rc')
  then have "st' = snd (new_lu_add h lu devs rc st)" by simp
  then have "port_hosts st' = port_hosts st" "hosts st' = hosts st" by (simp_all add: frame_simps)
  then show ?thesis using sys_inv_same [OF assms(2,3), of st' p t] add same_host_eq by simp
next
  case (gone_found tid h)
  then show ?thesis using sys_inv_same [OF assms(2,3), of st p t] same_host_eq by simp
next
  case (drop_last h lu sd devs)
  then show ?thesis using drop_inv [OF assms(2,3), of h p lu sd devs True st' t] by simp
next
  case (drop_other h lu sd devs)
  then show ?thesis using drop_inv [OF assms(2,3), of h p lu sd devs False st' t] by simp
next
  case (unlist h)
  then show ?thesis using unlist_inv [OF assms(2,3), of h t] by simp
next
  case (destroy h)
  then show ?thesis using destroy_inv [OF assms(2,3), of t h p] destroy by simp
qed

interpretation scsi_threads: transition_invariant scsi_step sys_inv
proof
  fix s s' assume "sys_inv s" "scsi_step s s'"
  then show "sys_inv s'" by (auto simp: sys_inv_def elim!: scsi_step.cases dest!: lu_step_inv)
qed

lemma no_calls_inv: "sys_inv no_calls"
  by (simp add: sys_inv_def no_calls_def no_hosts_def listed_inv_def owned_inv_def targets_def)



text \<open>A run of one thread, and the sections of a run.\<close>

lemma thread_reach:
  "reach scsi_step s0 s \<Longrightarrow> lu_step (pcs s t) (sst s) pc st \<Longrightarrow> reach scsi_step s0 \<lparr>sst = st, pcs = (pcs s)(t := pc)\<rparr>"
  by (erule reach.step) (rule scsi_step.thread)

lemmas scsi_eval = no_hosts_def new_lu_lookup_def fio_port_scsi_host_lookup_from_tid_def fio_port_scsi_host_create_def
  new_lu_publish_def new_lu_add_def fio_scsi_shost_unhook_devices_from_lus_def lu_gone_drop_def fio_port_scsi_host_remove_lu_def
  lu_gone_unlist_def fio_port_scsi_host_destroy_def incr_ref_def decr_ref_def set_host_def scsi_emit_def port_host_def Let_def
  gcc32.quiet_laws gcc32.incr_law gcc32.decr_law

lemma one_unit_reached: "reach scsi_step no_calls \<lparr>sst = one_unit, pcs = \<lambda>_. Idle\<rparr>"
proof -
  let ?c = "snd (fio_port_scsi_host_create 16 0 5 no_hosts)"
  let ?p = "snd (new_lu_publish 16 5 ?c)"
  note start = reach.start [of scsi_step no_calls]
  have 1: "lu_step (pcs no_calls 0) (sst no_calls) (Creating 5) no_hosts"
    using lu_step.new_missing [of 5 no_hosts no_hosts] by (simp add: no_calls_def scsi_eval)
  have 2: "lu_step (Creating 5) no_hosts (Created 16 5) ?c"
    by (rule lu_step.create_ok [of _ 16 0]) (simp_all add: scsi_eval)
  have 3: "lu_step (Created 16 5) ?c (Counted 16) ?p"
    by (rule lu_step.publish) (simp add: scsi_eval)
  have 4: "lu_step (Counted 16) ?p Idle (snd (new_lu_add 16 100 [] 0 ?p))"
    by (rule lu_step.add [of _ _ 100 "[]" 0 0]) (simp_all add: scsi_eval)
  have u: "one_unit = snd (new_lu_add 16 100 [] 0 ?p)" by (simp add: one_unit_def kfio_port_scsi_new_lu_def scsi_eval)
  have r1: "reach scsi_step no_calls \<lparr>sst = no_hosts, pcs = (\<lambda>_. Idle)(0 := Creating 5)\<rparr>"
    using thread_reach [OF start 1] by (simp add: no_calls_def)
  have r2: "reach scsi_step no_calls \<lparr>sst = ?c, pcs = (\<lambda>_. Idle)(0 := Created 16 5)\<rparr>"
    using thread_reach [OF r1, of 0, simplified, OF 2] by simp
  have r3: "reach scsi_step no_calls \<lparr>sst = ?p, pcs = (\<lambda>_. Idle)(0 := Counted 16)\<rparr>"
    using thread_reach [OF r2, of 0, simplified, OF 3] by simp
  show ?thesis using thread_reach [OF r3, of 0, simplified, OF 4] u by (simp add: fun_upd_idem)
qed

text \<open>
  C29: The count is taken down outside \<open>port_hosts_lk\<close>, so the host of a target is still in the list when its count is 0
  already.  A second thread finds it there, counts its unit, and holds a host that the first thread then destroys; the
  increment under the lock does not prevent that.
\<close>

theorem scsi_host_used_after_destroy:
  "\<exists>s h. reach scsi_step no_calls s \<and> pcs s 1 = Counted h \<and> hosts (sst s) h = None"
proof -
  let ?d = "snd (lu_gone_drop 16 100 0 [] one_unit)"
  let ?i = "snd (new_lu_lookup 5 ?d)"
  let ?u = "lu_gone_unlist 16 ?i"
  let ?x = "fio_port_scsi_host_destroy 16 ?u"
  note eval = one_unit_def kfio_port_scsi_new_lu_def scsi_eval
  have 1: "lu_step Idle one_unit (Found 16) one_unit"
    by (rule lu_step.gone_found [of _ 5]) (simp_all add: eval)
  have 2: "lu_step (Found 16) one_unit (Zero 16) ?d"
    by (rule lu_step.drop_last [of _ _ 100 0 "[]"]) (simp_all add: eval)
  have 3: "lu_step Idle ?d (Counted 16) ?i"
    by (rule lu_step.new_found [of 5]) (simp_all add: eval)
  have 4: "lu_step (Zero 16) ?i (Unlisted 16) ?u"
    by (rule lu_step.unlist) (simp add: eval)
  have r1: "reach scsi_step no_calls \<lparr>sst = one_unit, pcs = (\<lambda>_. Idle)(0 := Found 16)\<rparr>"
    using thread_reach [OF one_unit_reached, of 0, simplified, OF 1] .
  have r2: "reach scsi_step no_calls \<lparr>sst = ?d, pcs = (\<lambda>_. Idle)(0 := Zero 16)\<rparr>"
    using thread_reach [OF r1, of 0, simplified, OF 2] by simp
  have r3: "reach scsi_step no_calls \<lparr>sst = ?i, pcs = (\<lambda>_. Idle)(0 := Zero 16, 1 := Counted 16)\<rparr>"
    using thread_reach [OF r2, of 1, simplified, OF 3] by simp
  have r4: "reach scsi_step no_calls \<lparr>sst = ?u, pcs = ((\<lambda>_. Idle)(0 := Zero 16, 1 := Counted 16))(0 := Unlisted 16)\<rparr>"
    using thread_reach [OF r3, of 0, simplified, OF 4] by simp
  have "reach scsi_step no_calls \<lparr>sst = ?x, pcs = ((\<lambda>_. Idle)(0 := Zero 16, 1 := Counted 16))(0 := Idle)\<rparr>"
    using thread_reach [OF r4, of 0, simplified, OF lu_step.destroy] by simp
  moreover have "hosts ?x 16 = None" by (simp add: eval)
  ultimately show ?thesis by (intro exI [of _ "\<lparr>sst = ?x, pcs = ((\<lambda>_. Idle)(0 := Zero 16, 1 := Counted 16))(0 := Idle)\<rparr>"] exI [of _ 16]) simp
qed


subsection \<open>Initialization and teardown\<close>

text \<open>
  Initialization returns what the core's initialization returns, and when that failed it has cleaned up behind it, calling the cleanup of a
  core that is not initialized.  The flag stays set, so that a teardown after a failed initialization cleans up again.
\<close>

lemma scsi_interface_life_cycle:
  assumes "kfio_platform_init_scsi_interface depth ret st = (rc, st1)"
  shows "rc = ret"
    and "can_queue st1 = depth \<and> cmd_per_lun st1 = depth \<and> port_hosts (iface_hosts st1) = []"
    and "iface_calls st1 = iface_calls st @ [Init_spin, Scsi_init] @ (if rc = 0 then [] else [Scsi_cleanup, Destroy_spin])"
    and "iface_calls (snd (kfio_platform_teardown_scsi_interface st1)) = iface_calls st1 @ [Scsi_cleanup, Destroy_spin]"
  using assms
  by (auto simp: kfio_platform_init_scsi_interface_def kfio_platform_teardown_scsi_interface_def fio_init_scsi_host_template_def
      iface_call_def Let_def split: if_splits)

end
