(* ===== verification/Kscsi_Cmd.thy ===== *)
theory Kscsi_Cmd
  imports Kscsi_Host Scatter
begin

text \<open>
  SCSI commands: queueing, abort, resets and completion in \<open>kscsi_host.c\<close>, and the data of a command in \<open>kscsi.c\<close>.

  The command layer of the core library is a parameter: the lookup of a unit, the allocation of a command and
  \<open>kfio_scsi_cmd_rcvd\<close>, which may complete the command before it returns.  A result of type option is None where the
  code reads through a null pointer or divides by zero.  Debugging output is off; the message about missing resources
  looks up the unit once more and so may unhook a device.

  The lemmas show that a command is completed once, what the midlayer is told in every case, how the residual follows
  the bytes transferred, and that the scatter list of a command becomes the list of the request byte for byte.
\<close>

subsection \<open>Data\<close>

text \<open>\<open>scsi_done\<close> counts the calls of the function of that name.\<close>

record scsi_cmnd =
  device :: addr
  host_scribble :: addr
  result :: u32
  resid :: u32
  bufflen :: u32
  sense_buffer :: "u8 list"
  scsi_done :: nat

record scsi_cmd_state =
  base :: scsi_state
  scmds :: "addr \<Rightarrow> scsi_cmnd"
  queue_depth :: "addr \<Rightarrow> u32"

datatype fio_scsi_cmd_status =
    FIO_SCSI_CMD_STAT_GOOD
  | FIO_SCSI_CMD_STAT_CHECK
  | FIO_SCSI_CMD_STAT_COND_MET
  | FIO_SCSI_CMD_STAT_BUSY
  | FIO_SCSI_CMD_STAT_INTERMEDIATE
  | FIO_SCSI_CMD_STAT_INTERMEDIATE_COND_MET
  | FIO_SCSI_CMD_STAT_RES_CONFLICT
  | FIO_SCSI_CMD_STAT_QFULL
  | FIO_SCSI_CMD_STAT_ACA
  | FIO_SCSI_CMD_STAT_TASK_ABRT

fun status_byte :: "fio_scsi_cmd_status \<Rightarrow> u32" where
  "status_byte FIO_SCSI_CMD_STAT_GOOD = 0x00"
| "status_byte FIO_SCSI_CMD_STAT_CHECK = 0x02"
| "status_byte FIO_SCSI_CMD_STAT_COND_MET = 0x04"
| "status_byte FIO_SCSI_CMD_STAT_BUSY = 0x08"
| "status_byte FIO_SCSI_CMD_STAT_INTERMEDIATE = 0x10"
| "status_byte FIO_SCSI_CMD_STAT_INTERMEDIATE_COND_MET = 0x14"
| "status_byte FIO_SCSI_CMD_STAT_RES_CONFLICT = 0x18"
| "status_byte FIO_SCSI_CMD_STAT_QFULL = 0x28"
| "status_byte FIO_SCSI_CMD_STAT_ACA = 0x30"
| "status_byte FIO_SCSI_CMD_STAT_TASK_ABRT = 0x40"

text \<open>Constants of the midlayer.\<close>

abbreviation (input) DID_OK :: u32 where "DID_OK \<equiv> 0"
abbreviation (input) DID_NO_CONNECT :: u32 where "DID_NO_CONNECT \<equiv> 1"
abbreviation (input) DID_TIME_OUT :: u32 where "DID_TIME_OUT \<equiv> 3"
abbreviation (input) DID_BAD_TARGET :: u32 where "DID_BAD_TARGET \<equiv> 4"
abbreviation (input) DRIVER_SENSE :: u32 where "DRIVER_SENSE \<equiv> 8"
abbreviation (input) HARDWARE_ERROR :: u8 where "HARDWARE_ERROR \<equiv> 4"
abbreviation (input) SCSI_MLQUEUE_HOST_BUSY :: int where "SCSI_MLQUEUE_HOST_BUSY \<equiv> 0x1055"
abbreviation (input) SUCCESS :: int where "SUCCESS \<equiv> 0x2002"
abbreviation (input) FAILED :: int where "FAILED \<equiv> 0x2003"

definition set_host_byte :: "u32 \<Rightarrow> scsi_cmnd \<Rightarrow> scsi_cmnd" where
  "set_host_byte b c = c\<lparr>result := (result c AND 0xff00ffff) OR push_bit 16 b\<rparr>"

definition set_driver_byte :: "u32 \<Rightarrow> scsi_cmnd \<Rightarrow> scsi_cmnd" where
  "set_driver_byte b c = c\<lparr>result := (result c AND 0x00ffffff) OR push_bit 24 b\<rparr>"

definition upd_scmd :: "addr \<Rightarrow> (scsi_cmnd \<Rightarrow> scsi_cmnd) \<Rightarrow> scsi_cmd_state \<Rightarrow> scsi_cmd_state" where
  "upd_scmd sc f st = st\<lparr>scmds := (scmds st)(sc := f (scmds st sc))\<rparr>"

definition upd_stats :: "addr \<Rightarrow> (fio_port_scsi_host_stats \<Rightarrow> fio_port_scsi_host_stats) \<Rightarrow> scsi_cmd_state \<Rightarrow> scsi_cmd_state" where
  "upd_stats h f st = st\<lparr>base := set_host h ((port_host (base st) h)\<lparr>stats := f (stats (port_host (base st) h))\<rparr>) (base st)\<rparr>"

subsection \<open>From a command to its host and unit\<close>

definition fio_port_scsi_host_from_scmd :: "scsi_cmd_state \<Rightarrow> addr \<Rightarrow> addr" where
  "fio_port_scsi_host_from_scmd st sc = fio_port_scsi_host_from_shost (base st) (sdev_host (sdevs (base st) (device (scmds st sc))))"

definition fio_scsi_lu_from_scmd :: "addr \<Rightarrow> scsi_cmd_state \<Rightarrow> (addr \<times> scsi_cmd_state) option" where
  "fio_scsi_lu_from_scmd sc st =
     (if fio_port_scsi_host_from_scmd st sc = NULL then None
      else let (lu, b) = fio_scsi_lu_from_sdev_locked (device (scmds st sc)) (base st) in Some (lu, st\<lparr>base := b\<rparr>))"

definition fio_scsi_cmd_from_scmd :: "scsi_cmd_state \<Rightarrow> addr \<Rightarrow> addr" where
  "fio_scsi_cmd_from_scmd st sc = host_scribble (scmds st sc)"

text \<open>The name is only printed; what remains is the lookup.\<close>

definition fio_scsi_bus_name_from_scmd :: "addr \<Rightarrow> scsi_cmd_state \<Rightarrow> scsi_cmd_state option" where
  "fio_scsi_bus_name_from_scmd sc st = map_option snd (fio_scsi_lu_from_scmd sc st)"

definition fio_scmd_immediate_error :: "u32 \<Rightarrow> addr \<Rightarrow> scsi_cmd_state \<Rightarrow> scsi_cmd_state" where
  "fio_scmd_immediate_error host_byte sc st =
     upd_scmd sc (\<lambda>c. c\<lparr>scsi_done := scsi_done c + 1\<rparr>)
       (upd_scmd sc (set_host_byte host_byte) (upd_scmd sc (\<lambda>c. c\<lparr>result := 0\<rparr>) st))"

subsection \<open>Queueing\<close>

record scsi_core =
  kfio_scsi_lu_lookup_from_tid_lun :: "u32 \<Rightarrow> u64 \<Rightarrow> addr"
  kfio_scsi_cmd_alloc :: "addr \<Rightarrow> addr \<Rightarrow> int \<times> addr"
  kfio_scsi_cmd_rcvd :: "addr \<Rightarrow> scsi_cmd_state \<Rightarrow> int \<times> scsi_cmd_state"
  scsi_queue_depth :: u32

text \<open>The first command of a device: the unit is looked up and hooked to the device.\<close>

definition hook_device :: "scsi_core \<Rightarrow> addr \<Rightarrow> addr \<Rightarrow> addr \<Rightarrow> scsi_cmd_state \<Rightarrow> scsi_cmd_state option" where
  "hook_device core h sd lu st =
     (let num_luns = lu_refs (port_host (base st) h)
      in if num_luns = 0 then None
         else Some (st\<lparr>queue_depth := (queue_depth st)(sd := scsi_queue_depth core div num_luns),
                      base := kfio_scsi_lu_set_port_lu lu sd (set_hostdata sd lu (base st))\<rparr>))"

definition submit_cmd :: "scsi_core \<Rightarrow> addr \<Rightarrow> addr \<Rightarrow> scsi_cmd_state \<Rightarrow> (int \<times> scsi_cmd_state) option" where
  "submit_cmd core sc lu st =
     (let (ret, cmd) = kfio_scsi_cmd_alloc core lu sc
      in if ret = - ENOMEM then map_option (\<lambda>st. (SCSI_MLQUEUE_HOST_BUSY, st)) (fio_scsi_bus_name_from_scmd sc st)
         else if ret = - ENOENT then Some (0, fio_scmd_immediate_error DID_TIME_OUT sc st)
         else
           let (cmd_status, st) = kfio_scsi_cmd_rcvd core cmd (upd_scmd sc (\<lambda>c. c\<lparr>host_scribble := cmd\<rparr>) st)
           in if cmd_status = - ENOMEM then map_option (\<lambda>st. (SCSI_MLQUEUE_HOST_BUSY, st)) (fio_scsi_bus_name_from_scmd sc st)
              else Some (0, if cmd_status = 1 then upd_scmd sc (\<lambda>c. c\<lparr>result := 0\<rparr>) st else st))"

definition fio_shost_queuecommand :: "scsi_core \<Rightarrow> addr \<Rightarrow> scsi_cmd_state \<Rightarrow> (int \<times> scsi_cmd_state) option" where
  "fio_shost_queuecommand core sc st =
     (let sd = device (scmds st sc);
          sdev = sdevs (base st) sd;
          h = fio_port_scsi_host_from_shost (base st) (sdev_host sdev)
      in if h = NULL then Some (0, fio_scmd_immediate_error DID_NO_CONNECT sc st)
         else if sdev_id sdev \<noteq> target_id (port_host (base st) h) then Some (0, fio_scmd_immediate_error DID_NO_CONNECT sc st)
         else
           let (lu, b) = fio_scsi_lu_from_sdev_locked sd (base st);
               st = st\<lparr>base := b\<rparr>
           in if lu = fio_scsi_unhooked_lu
              then
                let lu = kfio_scsi_lu_lookup_from_tid_lun core (sdev_id sdev) (sdev_lun sdev)
                in if lu = NULL then Some (0, fio_scmd_immediate_error DID_TIME_OUT sc st)
                   else Option.bind (hook_device core h sd lu st) (submit_cmd core sc lu)
              else submit_cmd core sc lu st)"

subsection \<open>Errors\<close>

text \<open>\<open>cmd_lu\<close> is \<open>kfio_scsi_cmd_get_lu\<close> and \<open>abort_rc\<close> the result of \<open>kfio_scsi_lu_abort_cmd\<close>.\<close>

definition fio_shost_abort :: "(addr \<Rightarrow> addr) \<Rightarrow> int \<Rightarrow> addr \<Rightarrow> scsi_cmd_state \<Rightarrow> (int \<times> scsi_cmd_state) option" where
  "fio_shost_abort cmd_lu abort_rc sc st =
     (let h = fio_port_scsi_host_from_scmd st sc;
          cmd = fio_scsi_cmd_from_scmd st sc
      in Option.bind (fio_scsi_lu_from_scmd sc st) (\<lambda>(lu, st).
         if h = NULL \<or> cmd = NULL \<or> lu = fio_scsi_unhooked_lu \<or> lu \<noteq> cmd_lu cmd \<or> fio_port_scsi_host_from_scmd st sc = NULL
         then Some (FAILED, st)
         else Some (if abort_rc = 0 then SUCCESS else FAILED,
                    upd_stats h (\<lambda>s. s\<lparr>tot_aborts := tot_aborts s + 1\<rparr>) st)))"

text \<open>\<open>reset_rc\<close> is the result of \<open>kfio_scsi_lu_reset_all_in_target\<close> for a target.\<close>

definition fio_shost_reset_all_lus :: "(u32 \<Rightarrow> int) \<Rightarrow> addr \<Rightarrow> scsi_cmd_state \<Rightarrow> int" where
  "fio_shost_reset_all_lus reset_rc sc st = reset_rc (sdev_id (sdevs (base st) (device (scmds st sc))))"

definition count_reset ::
  "(fio_port_scsi_host_stats \<Rightarrow> fio_port_scsi_host_stats) \<Rightarrow> (u32 \<Rightarrow> int) \<Rightarrow> addr \<Rightarrow> scsi_cmd_state \<Rightarrow> (int \<times> scsi_cmd_state) option" where
  "count_reset f reset_rc sc st =
     (let h = fio_port_scsi_host_from_scmd st sc
      in if h = NULL then None
         else let st = upd_stats h f st
              in Some (if fio_shost_reset_all_lus reset_rc sc st = 0 then SUCCESS else FAILED, st))"

definition fio_shost_device_reset :: "(u32 \<Rightarrow> int) \<Rightarrow> addr \<Rightarrow> scsi_cmd_state \<Rightarrow> (int \<times> scsi_cmd_state) option" where
  "fio_shost_device_reset = count_reset (\<lambda>s. s\<lparr>tot_device_resets := tot_device_resets s + 1\<rparr>)"

definition fio_shost_bus_reset :: "(u32 \<Rightarrow> int) \<Rightarrow> addr \<Rightarrow> scsi_cmd_state \<Rightarrow> (int \<times> scsi_cmd_state) option" where
  "fio_shost_bus_reset = count_reset (\<lambda>s. s\<lparr>tot_bus_resets := tot_bus_resets s + 1\<rparr>)"

definition fio_shost_host_reset :: "(u32 \<Rightarrow> int) \<Rightarrow> addr \<Rightarrow> scsi_cmd_state \<Rightarrow> (int \<times> scsi_cmd_state) option" where
  "fio_shost_host_reset = count_reset (\<lambda>s. s\<lparr>tot_host_resets := tot_host_resets s + 1\<rparr>)"

subsection \<open>Completion\<close>

text \<open>The residual of the midlayer is an \<open>int\<close>: widening copies its sign.\<close>

definition fio_scmd_update_resid :: "u64 \<Rightarrow> scsi_cmnd \<Rightarrow> scsi_cmnd" where
  "fio_scmd_update_resid bytes_xfer c =
     (let r = scast (resid c) :: u64;
          r = (if r = 0 then ucast (bufflen c) else r)
      in c\<lparr>resid := ucast (r - bytes_xfer)\<rparr>)"

definition completion_host_status :: "u8 list \<Rightarrow> fio_scsi_cmd_status \<Rightarrow> int \<Rightarrow> u32" where
  "completion_host_status sense status driver_error =
     (if driver_error \<noteq> 0 then (if driver_error = - EAGAIN then DID_TIME_OUT else DID_NO_CONNECT)
      else if status = FIO_SCSI_CMD_STAT_CHECK
      then
        if sense ! 0 AND 0x7f = 0x70
        then (if sense ! 2 AND 0xf = HARDWARE_ERROR then DID_BAD_TARGET else DID_OK)
        else DID_NO_CONNECT
      else DID_OK)"

definition kfio_port_scsi_cmd_completor :: "addr \<Rightarrow> u64 \<Rightarrow> fio_scsi_cmd_status \<Rightarrow> int \<Rightarrow> scsi_cmd_state \<Rightarrow> scsi_cmd_state" where
  "kfio_port_scsi_cmd_completor sc bytes_xferred status driver_error st =
     (let h = fio_port_scsi_host_from_scmd st sc
      in if h = NULL then st
         else if fio_scsi_cmd_from_scmd st sc = NULL then st
         else
           let st = upd_scmd sc (\<lambda>c. c\<lparr>host_scribble := NULL\<rparr>) st;
               st = upd_stats h (\<lambda>s. s\<lparr>tot_cmds_completed := tot_cmds_completed s + 1\<rparr>) st;
               st = upd_scmd sc (\<lambda>c. c\<lparr>result := status_byte status\<rparr>) st;
               host_status = completion_host_status (sense_buffer (scmds st sc)) status driver_error;
               st = (if host_status \<noteq> DID_OK \<or> status \<noteq> FIO_SCSI_CMD_STAT_GOOD
                     then upd_stats h (\<lambda>s. s\<lparr>tot_cmds_completed_err := tot_cmds_completed_err s + 1\<rparr>) st else st);
               st = (if host_status \<noteq> DID_OK then upd_scmd sc (set_host_byte host_status) st
                     else if status = FIO_SCSI_CMD_STAT_CHECK then upd_scmd sc (set_driver_byte DRIVER_SENSE) st
                     else st);
               st = (if bytes_xferred > 0 then upd_scmd sc (fio_scmd_update_resid bytes_xferred) st else st)
           in if driver_error \<noteq> - ENOMEM then upd_scmd sc (\<lambda>c. c\<lparr>scsi_done := scsi_done c + 1\<rparr>) st else st)"

text \<open>The sense buffer of a command and its length; a null pointer is an argument that is not wanted.\<close>

definition SCSI_SENSE_BUFFERSIZE :: u32 where
  "SCSI_SENSE_BUFFERSIZE = 96"

definition kfio_port_scsi_cmd_get_sense_buffer :: "scsi_cmnd \<Rightarrow> bool \<Rightarrow> bool \<Rightarrow> u8 list option \<times> u32 option" where
  "kfio_port_scsi_cmd_get_sense_buffer c want_buffer want_length =
     (if want_buffer then Some (sense_buffer c) else None, if want_length then Some SCSI_SENSE_BUFFERSIZE else None)"

subsection \<open>The data of a command\<close>

text \<open>\<open>copied\<close> is the number of bytes the midlayer copied.\<close>

definition kfio_port_scsi_cmd_copy_to_sg :: "(u8 list \<Rightarrow> u32 \<Rightarrow> u32) \<Rightarrow> u8 list \<Rightarrow> u32 \<Rightarrow> int" where
  "kfio_port_scsi_cmd_copy_to_sg copied src len = (let n = copied src len in if n = len then 0 else - EIO)"

definition kfio_port_scsi_cmd_copy_from_sg :: "(u32 \<Rightarrow> u8 list \<times> u32) \<Rightarrow> u32 \<Rightarrow> int \<times> u8 list" where
  "kfio_port_scsi_cmd_copy_from_sg copied len = (let (dst, n) = copied len in (if n = len then 0 else - EIO, dst))"

fun kfio_port_scsi_cmd_map_kfio_bio :: "scatterlist list \<Rightarrow> linux_sgl \<Rightarrow> int \<times> linux_sgl" where
  "kfio_port_scsi_cmd_map_kfio_bio [] fbio_sgl = (0, fbio_sgl)"
| "kfio_port_scsi_cmd_map_kfio_bio (sg # sgs) fbio_sgl =
     (let (ret, fbio_sgl) = kfio_sgl_map_page fbio_sgl (sg_page sg) (sg_offset sg) (sg_length sg)
      in if ret \<noteq> 0 then (ret, fbio_sgl) else kfio_port_scsi_cmd_map_kfio_bio sgs fbio_sgl)"

definition completes :: "scsi_cmd_state \<Rightarrow> addr \<Rightarrow> bool" where
  "completes st sc \<longleftrightarrow> fio_port_scsi_host_from_scmd st sc \<noteq> NULL \<and> host_scribble (scmds st sc) \<noteq> NULL"

text \<open>The effect on the command alone.\<close>

definition completed :: "u64 \<Rightarrow> fio_scsi_cmd_status \<Rightarrow> int \<Rightarrow> scsi_cmnd \<Rightarrow> scsi_cmnd" where
  "completed n status err c =
     (let hs = completion_host_status (sense_buffer c) status err;
          c = c\<lparr>host_scribble := NULL, result := status_byte status\<rparr>;
          c = (if hs \<noteq> DID_OK then set_host_byte hs c else if status = FIO_SCSI_CMD_STAT_CHECK then set_driver_byte DRIVER_SENSE c else c);
          c = (if n > 0 then fio_scmd_update_resid n c else c)
      in if err \<noteq> - ENOMEM then c\<lparr>scsi_done := scsi_done c + 1\<rparr> else c)"

text \<open>What the queueing function relies on in the core's command layer.\<close>

definition core_ok :: "scsi_core \<Rightarrow> addr \<Rightarrow> bool" where
  "core_ok core sc \<longleftrightarrow>
     (\<forall>lu. case kfio_scsi_cmd_alloc core lu sc of (ret, cmd) \<Rightarrow> ret = 0 \<and> cmd \<noteq> NULL \<or> ret = - ENOMEM \<or> ret = - ENOENT) \<and>
     (\<forall>cmd st. case kfio_scsi_cmd_rcvd core cmd st of (s, st') \<Rightarrow>
        fio_port_scsi_host_from_scmd st' sc = fio_port_scsi_host_from_scmd st sc \<and>
        (s = 1 \<and> scmds st' sc = scmds st sc \<or>
         s = 0 \<and> scsi_done (scmds st' sc) = scsi_done (scmds st sc) + 1 \<or>
         s = - ENOMEM \<and> scsi_done (scmds st' sc) = scsi_done (scmds st sc)))"

text \<open>The three ends of a queued command.\<close>

definition queued_once :: "scsi_cmnd \<Rightarrow> int \<Rightarrow> scsi_cmnd \<Rightarrow> bool" where
  "queued_once c rc c' \<longleftrightarrow>
     rc = SCSI_MLQUEUE_HOST_BUSY \<and> scsi_done c' = scsi_done c \<or>
     rc = 0 \<and> scsi_done c' = scsi_done c + 1 \<or>
     rc = 0 \<and> scsi_done c' = scsi_done c \<and> host_scribble c' \<noteq> NULL \<and> result c' = 0"

text \<open>A core that leaves every command pending.\<close>

definition pending_core :: scsi_core where
  "pending_core = \<lparr>kfio_scsi_lu_lookup_from_tid_lun = \<lambda>_ _. 100, kfio_scsi_cmd_alloc = \<lambda>_ _. (0, 500),
     kfio_scsi_cmd_rcvd = \<lambda>_ st. (1, st), scsi_queue_depth = 256\<rparr>"

definition one_cmd :: scsi_cmd_state where
  "one_cmd = \<lparr>base = \<lparr>hosts = [16 \<mapsto> \<lparr>shost = 16, lu_refs = 1, target_id = 5, stats = no_stats\<rparr>], port_hosts = [16],
       sdevs = \<lambda>_. \<lparr>sdev_host = 16, sdev_id = 5, sdev_lun = 0, hostdata = NULL\<rparr>, port_lu = \<lambda>_. NULL, scsi_log = []\<rparr>,
     scmds = \<lambda>_. \<lparr>device = 32, host_scribble = NULL, result = 7, resid = 0, bufflen = 512, sense_buffer = replicate 96 0, scsi_done = 0\<rparr>,
     queue_depth = \<lambda>_. 0\<rparr>"

definition sg_vec :: "scatterlist \<Rightarrow> bio_vec" where
  "sg_vec s = \<lparr>bv_page = sg_page s, bv_offset = sg_offset s, bv_len = sg_length s\<rparr>"

subsection \<open>What the updates leave alone\<close>

lemma upd_scmd_frame [frame_simps]: "base (upd_scmd sc f st) = base st" "scmds (upd_scmd sc f st) = (scmds st)(sc := f (scmds st sc))"
  by (simp_all add: upd_scmd_def)

lemma upd_stats_scmds [frame_simps]: "scmds (upd_stats h f st) = scmds st" "sdevs (base (upd_stats h f st)) = sdevs (base st)"
  by (simp_all add: upd_stats_def set_host_def)

lemma upd_stats_shost [frame_simps]: "shost (port_host (base (upd_stats h f st)) x) = shost (port_host (base st) x)"
  by (simp add: upd_stats_def set_host_def port_host_def)

lemma from_scmd_cong:
  assumes "device (scmds st' sc) = device (scmds st sc)" and "sdev_host (sdevs (base st') (device (scmds st sc))) = sdev_host (sdevs (base st) (device (scmds st sc)))"
    and "\<And>x. shost (port_host (base st') x) = shost (port_host (base st) x)"
  shows "fio_port_scsi_host_from_scmd st' sc = fio_port_scsi_host_from_scmd st sc"
  using assms by (simp add: fio_port_scsi_host_from_scmd_def fio_port_scsi_host_from_shost_def)

lemma bytes_frame [frame_simps]:
  "device (set_host_byte b c) = device c" "device (set_driver_byte b c) = device c" "device (fio_scmd_update_resid n c) = device c"
  "host_scribble (set_host_byte b c) = host_scribble c" "host_scribble (set_driver_byte b c) = host_scribble c"
  "host_scribble (fio_scmd_update_resid n c) = host_scribble c"
  "scsi_done (set_host_byte b c) = scsi_done c" "scsi_done (set_driver_byte b c) = scsi_done c"
  "scsi_done (fio_scmd_update_resid n c) = scsi_done c" "result (fio_scmd_update_resid n c) = result c"
  by (simp_all add: set_host_byte_def set_driver_byte_def fio_scmd_update_resid_def Let_def)

subsection \<open>Completion\<close>

lemma completor_skips: "\<not> completes st sc \<Longrightarrow> kfio_port_scsi_cmd_completor sc n status err st = st"
  by (auto simp: completes_def kfio_port_scsi_cmd_completor_def fio_scsi_cmd_from_scmd_def Let_def)

lemma completor_scmds:
  assumes "completes st sc"
  shows "scmds (kfio_port_scsi_cmd_completor sc n status err st) = (scmds st)(sc := completed n status err (scmds st sc))"
  using assms unfolding kfio_port_scsi_cmd_completor_def completed_def completes_def
  by (simp add: Let_def frame_simps fio_scsi_cmd_from_scmd_def)

lemma completor_base:
  "sdevs (base (kfio_port_scsi_cmd_completor sc n status err st)) = sdevs (base st)"
  "shost (port_host (base (kfio_port_scsi_cmd_completor sc n status err st)) x) = shost (port_host (base st) x)"
  by (simp_all add: kfio_port_scsi_cmd_completor_def Let_def frame_simps)

lemma completed_fields:
  "device (completed n status err c) = device c" "host_scribble (completed n status err c) = NULL"
  "scsi_done (completed n status err c) = scsi_done c + (if err = - ENOMEM then 0 else 1)"
  by (simp_all add: completed_def Let_def frame_simps)

lemma completor_host: "fio_port_scsi_host_from_scmd (kfio_port_scsi_cmd_completor sc n status err st) sc = fio_port_scsi_host_from_scmd st sc"
proof (cases "completes st sc")
  case True
  show ?thesis by (rule from_scmd_cong) (simp_all add: completor_base completor_scmds [OF True] completed_fields)
qed (simp add: completor_skips)

lemma status_byte_masks: "status_byte status AND 0xff00ffff = status_byte status" "status_byte status AND 0x00ffffff = status_byte status"
  by (cases status; simp)+

lemma completed_result:
  "result (completed n status err c) =
    (let hs = completion_host_status (sense_buffer c) status err
     in status_byte status OR push_bit 16 hs OR (if hs = DID_OK \<and> status = FIO_SCSI_CMD_STAT_CHECK then push_bit 24 DRIVER_SENSE else 0))"
  by (auto simp: completed_def Let_def frame_simps set_host_byte_def set_driver_byte_def status_byte_masks)

text \<open>
  A command is completed once.  The first completion that finds the command on a registered host clears the
  command's link, sets its result from the SCSI status, the error of the driver and the sense data, and calls
  \<open>scsi_done\<close> once, unless the driver was out of memory, when the queueing function reports the host busy; no other
  command changes.  Any further completion of the command, with whatever arguments, changes nothing.
\<close>

lemma scsi_completed_once:
  "let st' = kfio_port_scsi_cmd_completor sc n status err st;
       c = scmds st sc; c' = scmds st' sc;
       hs = completion_host_status (sense_buffer c) status err
   in kfio_port_scsi_cmd_completor sc n2 status2 err2 st' = st' \<and>
      (if fio_port_scsi_host_from_scmd st sc = NULL \<or> host_scribble c = NULL then st' = st
       else host_scribble c' = NULL \<and> scsi_done c' = scsi_done c + (if err = - ENOMEM then 0 else 1) \<and>
         result c' = (status_byte status OR push_bit 16 hs OR
           (if hs = DID_OK \<and> status = FIO_SCSI_CMD_STAT_CHECK then push_bit 24 DRIVER_SENSE else 0)) \<and>
         scmds st' = (scmds st)(sc := c'))"
proof (cases "completes st sc")
  case True
  have "\<not> completes (kfio_port_scsi_cmd_completor sc n status err st) sc"
    by (simp add: completes_def completor_scmds [OF True] completed_fields)
  then show ?thesis
    using True completor_skips
    by (simp add: completes_def completor_scmds [OF True] completed_fields completed_result Let_def)
next
  case False
  then show ?thesis using completor_skips by (auto simp: completes_def Let_def)
qed

subsection \<open>Queueing\<close>

lemma immediate_error:
  "scsi_done (scmds (fio_scmd_immediate_error b sc st) sc) = scsi_done (scmds st sc) + 1"
  "result (scmds (fio_scmd_immediate_error b sc st) sc) = push_bit 16 b"
  by (simp_all add: fio_scmd_immediate_error_def frame_simps set_host_byte_def)

lemma lu_from_sdev_frame:
  "hosts (snd (fio_scsi_lu_from_sdev_locked sd b)) = hosts b"
  "sdev_host (sdevs (snd (fio_scsi_lu_from_sdev_locked sd b)) x) = sdev_host (sdevs b x)"
  by (simp_all add: fio_scsi_lu_from_sdev_locked_def set_hostdata_def Let_def)

lemma bus_name_some:
  assumes "fio_port_scsi_host_from_scmd st sc \<noteq> NULL"
  shows "\<exists>st'. fio_scsi_bus_name_from_scmd sc st = Some st' \<and> scmds st' = scmds st"
  using assms by (simp add: fio_scsi_bus_name_from_scmd_def fio_scsi_lu_from_scmd_def split_beta)

lemma core_alloc:
  "core_ok core sc \<Longrightarrow> kfio_scsi_cmd_alloc core lu sc = (ret, cmd) \<Longrightarrow> ret = 0 \<and> cmd \<noteq> NULL \<or> ret = - ENOMEM \<or> ret = - ENOENT"
  unfolding core_ok_def by (drule conjunct1, drule spec [of _ lu], simp)

lemma core_rcvd:
  assumes "core_ok core sc" and "kfio_scsi_cmd_rcvd core cmd st = (s, st')"
  shows "fio_port_scsi_host_from_scmd st' sc = fio_port_scsi_host_from_scmd st sc"
    and "s = 1 \<and> scmds st' sc = scmds st sc \<or> s = 0 \<and> scsi_done (scmds st' sc) = scsi_done (scmds st sc) + 1 \<or>
      s = - ENOMEM \<and> scsi_done (scmds st' sc) = scsi_done (scmds st sc)"
proof -
  have "case kfio_scsi_cmd_rcvd core cmd st of (s, st') \<Rightarrow>
        fio_port_scsi_host_from_scmd st' sc = fio_port_scsi_host_from_scmd st sc \<and>
        (s = 1 \<and> scmds st' sc = scmds st sc \<or>
         s = 0 \<and> scsi_done (scmds st' sc) = scsi_done (scmds st sc) + 1 \<or>
         s = - ENOMEM \<and> scsi_done (scmds st' sc) = scsi_done (scmds st sc))"
    by (rule assms(1) [unfolded core_ok_def, THEN conjunct2, THEN spec [of _ cmd], THEN spec [of _ st]])
  then show "fio_port_scsi_host_from_scmd st' sc = fio_port_scsi_host_from_scmd st sc"
    "s = 1 \<and> scmds st' sc = scmds st sc \<or> s = 0 \<and> scsi_done (scmds st' sc) = scsi_done (scmds st sc) + 1 \<or>
      s = - ENOMEM \<and> scsi_done (scmds st' sc) = scsi_done (scmds st sc)"
    unfolding assms(2) prod.case by (rule conjunct1, rule conjunct2)
qed

lemma received_outcomes:
  assumes ok: "core_ok core sc" and h: "fio_port_scsi_host_from_scmd st sc \<noteq> NULL"
    and a: "kfio_scsi_cmd_alloc core lu sc = (0, cmd)" "cmd \<noteq> NULL"
  shows "\<exists>rc st'. submit_cmd core sc lu st = Some (rc, st') \<and> queued_once (scmds st sc) rc (scmds st' sc)"
proof -
  let ?st = "upd_scmd sc (\<lambda>c. c\<lparr>host_scribble := cmd\<rparr>) st"
  obtain s st1 where r: "kfio_scsi_cmd_rcvd core cmd ?st = (s, st1)" by (cases "kfio_scsi_cmd_rcvd core cmd ?st")
  have sub: "submit_cmd core sc lu st =
      (if s = - ENOMEM then map_option (\<lambda>st. (SCSI_MLQUEUE_HOST_BUSY, st)) (fio_scsi_bus_name_from_scmd sc st1)
       else Some (0, if s = 1 then upd_scmd sc (\<lambda>c. c\<lparr>result := 0\<rparr>) st1 else st1))"
    by (simp add: submit_cmd_def a(1) r)
  have "fio_port_scsi_host_from_scmd ?st sc = fio_port_scsi_host_from_scmd st sc"
    by (rule from_scmd_cong) (simp_all add: frame_simps)
  then have h1: "fio_port_scsi_host_from_scmd st1 sc \<noteq> NULL" using core_rcvd(1) [OF ok r] h by simp
  from core_rcvd(2) [OF ok r] show ?thesis
  proof (elim disjE conjE)
    assume "s = 1" "scmds st1 sc = scmds ?st sc"
    then show ?thesis using a(2) by (simp add: sub queued_once_def frame_simps)
  next
    assume "s = 0" "scsi_done (scmds st1 sc) = scsi_done (scmds ?st sc) + 1"
    then show ?thesis by (simp add: sub queued_once_def frame_simps)
  next
    assume "s = - ENOMEM" "scsi_done (scmds st1 sc) = scsi_done (scmds ?st sc)"
    then show ?thesis using bus_name_some [OF h1] by (auto simp: sub queued_once_def frame_simps)
  qed
qed

lemma submit_outcomes:
  assumes ok: "core_ok core sc" and h: "fio_port_scsi_host_from_scmd st sc \<noteq> NULL"
  shows "\<exists>rc st'. submit_cmd core sc lu st = Some (rc, st') \<and> queued_once (scmds st sc) rc (scmds st' sc)"
proof -
  obtain ret cmd where a: "kfio_scsi_cmd_alloc core lu sc = (ret, cmd)" by (cases "kfio_scsi_cmd_alloc core lu sc")
  from core_alloc [OF ok a] show ?thesis
  proof (elim disjE conjE)
    assume "ret = - ENOMEM"
    then show ?thesis using a bus_name_some [OF h] by (auto simp: submit_cmd_def queued_once_def)
  next
    assume "ret = - ENOENT"
    then show ?thesis using a by (simp add: submit_cmd_def queued_once_def immediate_error)
  qed (use received_outcomes [OF ok h] a in blast)
qed

lemma hooked_inv:
  "fst (fio_scsi_lu_from_sdev_locked sd b) \<noteq> fio_scsi_unhooked_lu \<Longrightarrow> port_lu b (fst (fio_scsi_lu_from_sdev_locked sd b)) = sd"
  by (simp add: fio_scsi_lu_from_sdev_locked_def Let_def split: if_splits)

lemma lu_one_device:
  "fst (fio_scsi_lu_from_sdev_locked sd b) = lu \<Longrightarrow> fst (fio_scsi_lu_from_sdev_locked sd2 b) = lu \<Longrightarrow> lu \<noteq> fio_scsi_unhooked_lu \<Longrightarrow> sd = sd2"
  using hooked_inv by metis

text \<open>
  A queued command is never lost and never completed twice.  Queueing returns; a command for a host that is not
  registered or of another target is completed with DID\_NO\_CONNECT, and otherwise the midlayer is told that the host is
  busy and keeps the command, or the command has been completed once, or it is with the core, which will complete it.
\<close>

lemma scsi_queuecommand_outcomes:
  assumes "core_ok core sc" and "fio_port_scsi_host_from_scmd st sc = h" and "lu_refs (port_host (base st) h) \<noteq> 0"
  shows "\<exists>rc st'. fio_shost_queuecommand core sc st = Some (rc, st') \<and>
    (let c = scmds st sc; c' = scmds st' sc
     in if h = NULL \<or> sdev_id (sdevs (base st) (device c)) \<noteq> target_id (port_host (base st) h)
        then rc = 0 \<and> scsi_done c' = scsi_done c + 1 \<and> result c' = push_bit 16 DID_NO_CONNECT
        else rc = SCSI_MLQUEUE_HOST_BUSY \<and> scsi_done c' = scsi_done c \<or>
          rc = 0 \<and> scsi_done c' = scsi_done c + 1 \<or>
          rc = 0 \<and> scsi_done c' = scsi_done c \<and> host_scribble c' \<noteq> NULL \<and> result c' = 0)"
proof (cases "h = NULL \<or> sdev_id (sdevs (base st) (device (scmds st sc))) \<noteq> target_id (port_host (base st) h)")
  case True
  have "fio_shost_queuecommand core sc st = Some (0, fio_scmd_immediate_error DID_NO_CONNECT sc st)"
    using True assms(2) by (auto simp: fio_shost_queuecommand_def fio_port_scsi_host_from_scmd_def Let_def)
  then show ?thesis using True by (simp add: immediate_error Let_def)
next
  case False
  let ?sd = "device (scmds st sc)"
  let ?l = "fio_scsi_lu_from_sdev_locked ?sd (base st)"
  let ?st = "st\<lparr>base := snd ?l\<rparr>"
  let ?lu = "kfio_scsi_lu_lookup_from_tid_lun core (sdev_id (sdevs (base st) ?sd)) (sdev_lun (sdevs (base st) ?sd))"
  have q: "fio_shost_queuecommand core sc st =
     (if fst ?l = NULL
      then if ?lu = NULL then Some (0, fio_scmd_immediate_error DID_TIME_OUT sc ?st)
           else Option.bind (hook_device core h ?sd ?lu ?st) (submit_cmd core sc ?lu)
      else submit_cmd core sc (fst ?l) ?st)"
    using False assms(2) by (simp add: fio_shost_queuecommand_def fio_port_scsi_host_from_scmd_def Let_def split_beta)
  have ph: "port_host (snd ?l) = port_host (base st)" by (rule ext) (simp add: port_host_def lu_from_sdev_frame)
  have h1: "fio_port_scsi_host_from_scmd ?st sc \<noteq> NULL"
    using False assms(2) from_scmd_cong [of ?st sc st] by (simp add: ph lu_from_sdev_frame)
  obtain st2 where hk: "hook_device core h ?sd ?lu ?st = Some st2" "scmds st2 = scmds st"
    "base st2 = kfio_scsi_lu_set_port_lu ?lu ?sd (set_hostdata ?sd ?lu (snd ?l))"
    using assms(3) by (simp add: hook_device_def Let_def ph)
  have h2: "fio_port_scsi_host_from_scmd st2 sc \<noteq> NULL"
    using h1 from_scmd_cong [of st2 sc ?st] hk(2,3)
    by (simp add: kfio_scsi_lu_set_port_lu_def set_hostdata_def port_host_def)
  have "\<exists>rc st'. fio_shost_queuecommand core sc st = Some (rc, st') \<and> queued_once (scmds st sc) rc (scmds st' sc)"
    using submit_outcomes [OF assms(1) h1] submit_outcomes [OF assms(1) h2] hk(1,2)
    by (auto simp: q queued_once_def immediate_error)
  then show ?thesis using False by (simp add: queued_once_def Let_def)
qed


lemma scsi_queuecommand_outcomes_example:
  "\<exists>rc st'. fio_shost_queuecommand pending_core 64 one_cmd = Some (rc, st') \<and> (rc = SCSI_MLQUEUE_HOST_BUSY \<or> rc = 0)"
proof -
  have "core_ok pending_core 64" by (simp add: core_ok_def pending_core_def)
  moreover have "fio_port_scsi_host_from_scmd one_cmd 64 = 16" "lu_refs (port_host (base one_cmd) 16) \<noteq> 0"
    by (simp_all add: one_cmd_def fio_port_scsi_host_from_scmd_def fio_port_scsi_host_from_shost_def port_host_def)
  ultimately show ?thesis
    using scsi_queuecommand_outcomes [of pending_core 64 one_cmd 16] unfolding Let_def by (auto split: if_splits)
qed

text \<open>A core that completes the command at once: its completion function gives the effect that the contract asks for.\<close>

lemma completor_contract:
  assumes "completes st sc"
  shows "fio_port_scsi_host_from_scmd (kfio_port_scsi_cmd_completor sc n status err st) sc = fio_port_scsi_host_from_scmd st sc \<and>
    scsi_done (scmds (kfio_port_scsi_cmd_completor sc n status err st) sc) = scsi_done (scmds st sc) + (if err = - ENOMEM then 0 else 1)"
  by (simp add: completor_host completor_scmds [OF assms] completed_fields)

text \<open>The count of units must not be 0 when a device is hooked up.\<close>

lemma hook_device_divides: "lu_refs (port_host (base st) h) = 0 \<longleftrightarrow> hook_device core h sd lu st = None"
  by (simp add: hook_device_def Let_def)

subsection \<open>Errors\<close>

text \<open>
  The abort handler asks for the unit of the command, which locks the host, before it tests whether there is a host; the
  reset handlers do not test at all.
\<close>

lemma handlers_need_host:
  assumes "fio_port_scsi_host_from_scmd st sc = NULL"
  shows "fio_shost_abort cmd_lu rc sc st = None" "fio_shost_device_reset rr sc st = None"
    "fio_shost_bus_reset rr sc st = None" "fio_shost_host_reset rr sc st = None"
  using assms by (simp_all add: fio_shost_abort_def fio_scsi_lu_from_scmd_def fio_shost_device_reset_def
      fio_shost_bus_reset_def fio_shost_host_reset_def count_reset_def)

subsection \<open>Residuals\<close>

lemma sint_of_nat_small32: "n < 2 ^ 31 \<Longrightarrow> sint (of_nat n :: u32) = int n"
proof -
  assume "n < 2 ^ 31"
  then have "int n < 2 ^ 31" by simp
  then show ?thesis by (simp add: signed_of_nat signed_take_bit_int_eq_self)
qed

lemma sint_small32: "unat w < 2 ^ 31 \<Longrightarrow> sint w = int (unat w)"
  for w :: u32
  using sint_of_nat_small32 [of "unat w"] by simp

lemma update_resid_step:
  assumes c: "unat (bufflen c) < 2 ^ 31" and r: "unat (resid c) = (if done_bytes = 0 then 0 else unat (bufflen c) - done_bytes)"
    and b: "0 < unat b" "done_bytes + unat b \<le> unat (bufflen c)"
  shows "unat (resid (fio_scmd_update_resid b c)) = unat (bufflen c) - (done_bytes + unat b)"
proof -
  let ?n = "unat (bufflen c)"
  have sr: "sint (resid c) = int (unat (resid c))"
    using r c by (intro sint_small32) (auto split: if_splits)
  have rr: "(if (scast (resid c) :: u64) = 0 then ucast (bufflen c) else scast (resid c)) = (of_nat (?n - done_bytes) :: u64)"
  proof (cases "done_bytes = 0")
    case True
    then have "resid c = 0" using r by (simp add: unat_eq_0)
    then show ?thesis using True by (simp add: unsigned_of_nat)
  next
    case False
    define m where "m = ?n - done_bytes"
    have m: "unat (resid c) = m" "m > 0" "m < 2 ^ 64" using r b c False by (simp_all add: m_def)
    have "(scast (resid c) :: u64) = of_nat m" by (simp add: scast_eq sr m(1))
    moreover have "unat (of_nat m :: u64) = m" using m(3) by (simp add: unat_of_nat take_bit_nat_eq_self)
    then have "(of_nat m :: u64) \<noteq> 0" using m(2) by (metis less_irrefl unat_0)
    ultimately show ?thesis unfolding m_def [symmetric] by simp
  qed
  have "(of_nat (?n - done_bytes) - b :: u64) = of_nat (?n - done_bytes - unat b)"
    using b by (simp add: of_nat_diff)
  then show ?thesis
    using c by (simp add: fio_scmd_update_resid_def Let_def rr unsigned_of_nat take_bit_nat_eq_self)
qed


text \<open>Transfers of one command, one after the other, count the residual down from the length of its buffer.\<close>

lemma resid_counts_down:
  assumes "unat (bufflen c) < 2 ^ 31" and "unat (resid c) = (if k = 0 then 0 else unat (bufflen c) - k)"
    and "\<forall>b\<in>set bs. 0 < unat b" and "k + sum_list (map unat bs) \<le> unat (bufflen c)" and "bs \<noteq> []"
  shows "unat (resid (fold fio_scmd_update_resid bs c)) = unat (bufflen c) - (k + sum_list (map unat bs))"
  using assms
proof (induction bs arbitrary: c k)
  case (Cons b bs)
  let ?c = "fio_scmd_update_resid b c"
  have r: "unat (resid ?c) = unat (bufflen c) - (k + unat b)"
    using update_resid_step [OF Cons.prems(1,2)] Cons.prems(3,4) by simp
  have l: "bufflen ?c = bufflen c" by (simp add: fio_scmd_update_resid_def Let_def)
  show ?case
  proof (cases "bs = []")
    case False
    then show ?thesis using Cons.IH [of ?c "k + unat b"] Cons.prems r l by (simp add: add.assoc)
  qed (use r in simp)
qed simp

subsection \<open>Mapping the data of a command\<close>

lemma sg_vec_ok: "in_page s \<Longrightarrow> vec_ok (sg_vec s)" "vec_bytes (sg_vec s) = entry_bytes s"
  by (simp_all add: vec_ok_def sg_vec_def in_page_def vec_bytes_def entry_bytes_def sg_page_def and.assoc)

lemma map_page_step:
  assumes "sgl_wf lsg" and "in_page s" and "num_entries lsg < max_entries lsg"
  shows "kfio_sgl_map_page lsg (sg_page s) (sg_offset s) (sg_length s) = (0, append_vec lsg (sg_vec s))"
  using assms vec_ok_span [OF sg_vec_ok(1) [OF assms(2)]]
  by (simp add: kfio_sgl_map_page_def append_vec_def sg_vec_def not_le)

lemma append_room:
  assumes "num_entries lsg < max_entries lsg"
  shows "unat (num_entries (append_vec lsg v)) = unat (num_entries lsg) + 1" "max_entries (append_vec lsg v) = max_entries lsg"
  using num_less(2) [OF assms] by (simp_all add: append_vec_def add_entry_def Let_def)

text \<open>
  The scatter list of a command, whose entries each lie in one page, becomes the list of the request.  The mapping
  succeeds just when there is room for every entry, and then the bytes of the command follow those the list had; without
  room it fails with -EINVAL, with the entries that did fit left in a list that is still well formed.
\<close>

lemma scsi_map_exact:
  assumes "sgl_wf lsg" and "\<forall>s\<in>set sgs. in_page s"
  shows "case kfio_port_scsi_cmd_map_kfio_bio sgs lsg of (rc, lsg') \<Rightarrow>
    let room = unat (max_entries lsg) - unat (num_entries lsg)
    in sgl_wf lsg' \<and> rc = (if length sgs \<le> room then 0 else - EINVAL) \<and>
       sgl_bytes lsg' = sgl_bytes lsg @ concat (map entry_bytes (take room sgs))"
  using assms
proof (induction sgs arbitrary: lsg)
  case (Cons s sgs)
  show ?case
  proof (cases "num_entries lsg < max_entries lsg")
    case True
    let ?l = "append_vec lsg (sg_vec s)"
    have s: "in_page s" and ss: "\<forall>s\<in>set sgs. in_page s" using Cons.prems(2) by simp_all
    note w = append_wf [OF Cons.prems(1) True sg_vec_ok(1) [OF s], unfolded sg_vec_ok(2)]
    have run: "kfio_port_scsi_cmd_map_kfio_bio (s # sgs) lsg = kfio_port_scsi_cmd_map_kfio_bio sgs ?l"
      using map_page_step [OF Cons.prems(1) s True] by simp
    obtain m where m: "unat (max_entries lsg) - unat (num_entries lsg) = Suc m" "unat (max_entries ?l) - unat (num_entries ?l) = m"
      using True append_room [OF True, of "sg_vec s"] by (auto simp: word_less_nat_alt intro!: that)
    show ?thesis using Cons.IH [OF conjunct1 [OF w] ss] w unfolding run m by (simp add: split_beta Let_def)
  next
    case False
    then have "unat (max_entries lsg) - unat (num_entries lsg) = 0" by (simp add: word_less_nat_alt not_less)
    then show ?thesis using False Cons.prems(1) by (simp add: kfio_sgl_map_page_def not_less)
  qed
qed simp

lemma scsi_map_exact_example:
  "fst (kfio_port_scsi_cmd_map_kfio_bio (replicate 3 \<lparr>page_link = 0x4000, sg_offset = 512, sg_length = 512, dma_address = 0\<rparr>) empty_sgl) =
    (if 3 \<le> unat (max_entries empty_sgl) - unat (num_entries empty_sgl) then 0 else - EINVAL)"
  using scsi_map_exact [OF empty_sgl_wf, of "replicate 3 \<lparr>page_link = 0x4000, sg_offset = 512, sg_length = 512, dma_address = 0\<rparr>"]
  by (simp add: in_page_def split_beta Let_def)

end
