(* ===== verification/Kcondvar.thy ===== *)
theory Kcondvar
  imports Prelude
begin

text \<open>
  Spinlocks and condition variables: the spinlocks of \<open>kfio.c\<close> and \<open>kcondvar.c\<close>.

  One lock, one condition variable and any number of threads, each on its own processor.  A spinlock remembers the
  interrupt flags of its holder in the lock itself.  The kernel's primitives are modelled as documented: a waiter is
  queued behind the others before it releases the lock, a wakeup makes the first sleeping waiter runnable and takes it off the
  queue, and \<open>schedule\<close> returns only to a runnable thread, which a signal or a timeout may also make it.  The wait functions are
  split at every one of these points.

  The lemmas show that no wakeup is lost under any interleaving, and that locks and waits restore the interrupt flags.
\<close>

datatype task_state = TASK_RUNNING | TASK_INTERRUPTIBLE | TASK_UNINTERRUPTIBLE

text \<open>
  Where a thread is.  The first value says whether the lock was taken with the flags saved, the second whether
  interrupts were enabled when the thread took it.
\<close>

datatype cv_pc =
    Out
  | Holds bool bool
  | Prepared bool bool
  | Asleep bool bool
  | Relock bool bool
  | Finishing bool bool

record cv_sys =
  owner :: "nat option"
  lk_flags :: u64
  irqs :: "nat \<Rightarrow> bool"
  waitq :: "nat list"
  tstate :: "nat \<Rightarrow> task_state"
  pc :: "nat \<Rightarrow> cv_pc"

subsection \<open>Interrupt flags\<close>

definition FUSION_SPINLOCK_NOT_IRQSAVED :: u64 where
  "FUSION_SPINLOCK_NOT_IRQSAVED = NOT 0"

text \<open>The bit of the flags register that enables interrupts; the other bits do not matter here.\<close>

definition irq_flags :: "bool \<Rightarrow> u64" where
  "irq_flags on = (if on then 0x200 else 0)"

definition flags_irq :: "u64 \<Rightarrow> bool" where
  "flags_irq f \<longleftrightarrow> f AND 0x200 \<noteq> 0"

subsection \<open>Spinlocks\<close>

text \<open>A lock function is None while the thread spins.\<close>

definition fusion_spin_lock :: "nat \<Rightarrow> cv_sys \<Rightarrow> cv_sys option" where
  "fusion_spin_lock t s =
     (if owner s \<noteq> None then None else Some (s\<lparr>owner := Some t, lk_flags := FUSION_SPINLOCK_NOT_IRQSAVED\<rparr>))"

definition fusion_spin_is_locked :: "cv_sys \<Rightarrow> bool" where
  "fusion_spin_is_locked s \<longleftrightarrow> owner s \<noteq> None"

definition fusion_spin_lock_irqdisabled :: "nat \<Rightarrow> cv_sys \<Rightarrow> cv_sys option" where
  "fusion_spin_lock_irqdisabled t s = (if owner s \<noteq> None then None else Some (s\<lparr>owner := Some t\<rparr>))"

definition fusion_spin_trylock :: "nat \<Rightarrow> cv_sys \<Rightarrow> bool \<times> cv_sys" where
  "fusion_spin_trylock t s =
     (if owner s \<noteq> None then (False, s)
      else (True, s\<lparr>owner := Some t, lk_flags := FUSION_SPINLOCK_NOT_IRQSAVED\<rparr>))"

definition fusion_spin_unlock :: "cv_sys \<Rightarrow> cv_sys" where
  "fusion_spin_unlock s = s\<lparr>owner := None\<rparr>"

definition fusion_spin_lock_irqsave :: "nat \<Rightarrow> cv_sys \<Rightarrow> cv_sys option" where
  "fusion_spin_lock_irqsave t s =
     (if owner s \<noteq> None then None
      else let f = irq_flags (irqs s t); s = s\<lparr>irqs := (irqs s)(t := False), owner := Some t\<rparr> in Some (s\<lparr>lk_flags := f\<rparr>))"

definition fusion_spin_lock_irq :: "nat \<Rightarrow> cv_sys \<Rightarrow> cv_sys option" where
  "fusion_spin_lock_irq t s =
     (if owner s \<noteq> None then None else Some (s\<lparr>irqs := (irqs s)(t := False), owner := Some t\<rparr>))"

definition fusion_spin_trylock_irqsave :: "nat \<Rightarrow> cv_sys \<Rightarrow> bool \<times> cv_sys" where
  "fusion_spin_trylock_irqsave t s =
     (if owner s \<noteq> None then (False, s)
      else let f = irq_flags (irqs s t); s = s\<lparr>irqs := (irqs s)(t := False), owner := Some t\<rparr> in (True, s\<lparr>lk_flags := f\<rparr>))"

definition fusion_spin_unlock_irqrestore :: "nat \<Rightarrow> cv_sys \<Rightarrow> cv_sys" where
  "fusion_spin_unlock_irqrestore t s = s\<lparr>owner := None, irqs := (irqs s)(t := flags_irq (lk_flags s))\<rparr>"

definition fusion_spin_unlock_irq :: "nat \<Rightarrow> cv_sys \<Rightarrow> cv_sys" where
  "fusion_spin_unlock_irq t s = s\<lparr>owner := None, irqs := (irqs s)(t := True)\<rparr>"

definition fusion_spin_is_irqsaved :: "cv_sys \<Rightarrow> bool" where
  "fusion_spin_is_irqsaved s \<longleftrightarrow> lk_flags s \<noteq> FUSION_SPINLOCK_NOT_IRQSAVED"

subsection \<open>Condition variables\<close>

definition fusion_condvar_init :: "cv_sys \<Rightarrow> cv_sys" where
  "fusion_condvar_init s = s\<lparr>waitq := []\<rparr>"

definition sleepers :: "cv_sys \<Rightarrow> nat list" where
  "sleepers s = filter (\<lambda>t. tstate s t \<noteq> TASK_RUNNING) (waitq s)"

definition wake :: "nat \<Rightarrow> cv_sys \<Rightarrow> cv_sys" where
  "wake t s = s\<lparr>tstate := (tstate s)(t := TASK_RUNNING), waitq := removeAll t (waitq s)\<rparr>"

definition fusion_condvar_signal :: "cv_sys \<Rightarrow> cv_sys" where
  "fusion_condvar_signal s = (case sleepers s of [] \<Rightarrow> s | t # _ \<Rightarrow> wake t s)"

definition fusion_condvar_broadcast :: "cv_sys \<Rightarrow> cv_sys" where
  "fusion_condvar_broadcast s = fold wake (sleepers s) s"

definition prepare_to_wait_exclusive :: "nat \<Rightarrow> task_state \<Rightarrow> cv_sys \<Rightarrow> cv_sys" where
  "prepare_to_wait_exclusive t ts s =
     s\<lparr>waitq := (if t \<in> set (waitq s) then waitq s else waitq s @ [t]), tstate := (tstate s)(t := ts)\<rparr>"

definition finish_wait :: "nat \<Rightarrow> cv_sys \<Rightarrow> cv_sys" where
  "finish_wait t s = s\<lparr>tstate := (tstate s)(t := TASK_RUNNING), waitq := removeAll t (waitq s)\<rparr>"

text \<open>The waits differ in the state in which the task sleeps.\<close>

definition condvar_wait_prepare :: "nat \<Rightarrow> cv_sys \<Rightarrow> cv_sys" where
  "condvar_wait_prepare t s = prepare_to_wait_exclusive t TASK_INTERRUPTIBLE s"

definition timedwait_prepare :: "bool \<Rightarrow> nat \<Rightarrow> cv_sys \<Rightarrow> cv_sys" where
  "timedwait_prepare interruptible t s =
     (if interruptible then prepare_to_wait_exclusive t TASK_INTERRUPTIBLE s else prepare_to_wait_exclusive t TASK_UNINTERRUPTIBLE s)"

definition fusion_condvar_timedwait_prepare :: "nat \<Rightarrow> cv_sys \<Rightarrow> cv_sys" where
  "fusion_condvar_timedwait_prepare = timedwait_prepare False"

definition fusion_condvar_timedwait_noload_prepare :: "nat \<Rightarrow> cv_sys \<Rightarrow> cv_sys" where
  "fusion_condvar_timedwait_noload_prepare = timedwait_prepare True"

text \<open>
  Releasing the lock before the sleep and taking it again after, in \<open>fusion_condvar_wait\<close> and in the timed waits.
\<close>

definition wait_unlock :: "nat \<Rightarrow> bool \<Rightarrow> cv_sys \<Rightarrow> cv_sys" where
  "wait_unlock t is_irqsaved s = (if is_irqsaved then fusion_spin_unlock_irqrestore t s else fusion_spin_unlock s)"

definition wait_relock :: "nat \<Rightarrow> bool \<Rightarrow> cv_sys \<Rightarrow> cv_sys option" where
  "wait_relock t is_irqsaved s = (if is_irqsaved then fusion_spin_lock_irqsave t s else fusion_spin_lock t s)"

text \<open>The result of a timed wait: \<open>remaining\<close> is the result of \<open>schedule_timeout\<close>, cut to an \<open>int\<close>.\<close>

abbreviation (input) FUSION_WAIT_TIMEDOUT :: int where "FUSION_WAIT_TIMEDOUT \<equiv> 0"
abbreviation (input) FUSION_WAIT_TRIGGERED :: int where "FUSION_WAIT_TRIGGERED \<equiv> 1"

definition timedwait_result :: "u64 \<Rightarrow> int" where
  "timedwait_result remaining =
     (let ret = ucast remaining :: u32 in if ret = 0 then FUSION_WAIT_TIMEDOUT else FUSION_WAIT_TRIGGERED)"

subsection \<open>Threads\<close>

definition set_pc :: "nat \<Rightarrow> cv_pc \<Rightarrow> cv_sys \<Rightarrow> cv_sys" where
  "set_pc t p s = s\<lparr>pc := (pc s)(t := p)\<rparr>"

inductive cv_step :: "cv_sys \<Rightarrow> cv_sys \<Rightarrow> bool" where
  interrupts: "pc s t = Out \<Longrightarrow> cv_step s (s\<lparr>irqs := (irqs s)(t := on)\<rparr>)"
| lock: "pc s t = Out \<Longrightarrow> fusion_spin_lock t s = Some s' \<Longrightarrow> cv_step s (set_pc t (Holds False (irqs s t)) s')"
| trylock: "pc s t = Out \<Longrightarrow> fusion_spin_trylock t s = (True, s') \<Longrightarrow> cv_step s (set_pc t (Holds False (irqs s t)) s')"
| lock_irqsave: "pc s t = Out \<Longrightarrow> fusion_spin_lock_irqsave t s = Some s' \<Longrightarrow> cv_step s (set_pc t (Holds True (irqs s t)) s')"
| trylock_irqsave: "pc s t = Out \<Longrightarrow> fusion_spin_trylock_irqsave t s = (True, s') \<Longrightarrow>
    cv_step s (set_pc t (Holds True (irqs s t)) s')"
| unlock: "pc s t = Holds False e \<Longrightarrow> cv_step s (set_pc t Out (fusion_spin_unlock s))"
| unlock_irqrestore: "pc s t = Holds True e \<Longrightarrow> cv_step s (set_pc t Out (fusion_spin_unlock_irqrestore t s))"
| signal: "cv_step s (fusion_condvar_signal s)"
| broadcast: "cv_step s (fusion_condvar_broadcast s)"
| wait_prepare: "pc s t = Holds b e \<Longrightarrow>
    s' \<in> {condvar_wait_prepare t s, fusion_condvar_timedwait_prepare t s, fusion_condvar_timedwait_noload_prepare t s} \<Longrightarrow>
    cv_step s (set_pc t (Prepared (fusion_spin_is_irqsaved s) e) s')"
| wait_release: "pc s t = Prepared b e \<Longrightarrow> cv_step s (set_pc t (Asleep b e) (wait_unlock t b s))"
| wait_timeout: "pc s t = Asleep b e \<Longrightarrow> cv_step s (s\<lparr>tstate := (tstate s)(t := TASK_RUNNING)\<rparr>)"
| wait_schedule: "pc s t = Asleep b e \<Longrightarrow> tstate s t = TASK_RUNNING \<Longrightarrow> cv_step s (set_pc t (Relock b e) s)"
| wait_acquire: "pc s t = Relock b e \<Longrightarrow> wait_relock t b s = Some s' \<Longrightarrow> cv_step s (set_pc t (Finishing b e) s')"
| wait_finish: "pc s t = Finishing b e \<Longrightarrow> cv_step s (set_pc t (Holds b e) (finish_wait t s))"

definition cv_start :: "(nat \<Rightarrow> bool) \<Rightarrow> cv_sys" where
  "cv_start on = \<lparr>owner = None, lk_flags = 0, irqs = on, waitq = [], tstate = \<lambda>_. TASK_RUNNING, pc = \<lambda>_. Out\<rparr>"

fun pc_ok :: "cv_pc \<Rightarrow> bool \<Rightarrow> u64 \<Rightarrow> bool \<Rightarrow> bool" where
  "pc_ok Out own f on \<longleftrightarrow> \<not> own"
| "pc_ok (Asleep b e) own f on \<longleftrightarrow> \<not> own \<and> on = e"
| "pc_ok (Relock b e) own f on \<longleftrightarrow> \<not> own \<and> on = e"
| "pc_ok (Holds b e) own f on \<longleftrightarrow> own \<and> f = (if b then irq_flags e else FUSION_SPINLOCK_NOT_IRQSAVED) \<and> on = (e \<and> \<not> b)"
| "pc_ok (Prepared b e) own f on \<longleftrightarrow> own \<and> f = (if b then irq_flags e else FUSION_SPINLOCK_NOT_IRQSAVED) \<and> on = (e \<and> \<not> b)"
| "pc_ok (Finishing b e) own f on \<longleftrightarrow> own \<and> f = (if b then irq_flags e else FUSION_SPINLOCK_NOT_IRQSAVED) \<and> on = (e \<and> \<not> b)"

definition locks_inv :: "cv_sys \<Rightarrow> bool" where
  "locks_inv s \<longleftrightarrow> (\<forall>t. pc_ok (pc s t) (owner s = Some t) (lk_flags s) (irqs s t))"

definition queue_inv :: "cv_sys \<Rightarrow> bool" where
  "queue_inv s \<longleftrightarrow> (\<forall>t. tstate s t \<noteq> TASK_RUNNING \<longrightarrow> t \<in> set (waitq s))"

definition cv_inv :: "cv_sys \<Rightarrow> bool" where
  "cv_inv s \<longleftrightarrow> locks_inv s \<and> queue_inv s"

text \<open>Taking the lock, by any of the functions, and giving it back.\<close>

definition taken :: "bool \<Rightarrow> nat \<Rightarrow> cv_sys \<Rightarrow> cv_sys" where
  "taken b t s = (if b then s\<lparr>irqs := (irqs s)(t := False), owner := Some t, lk_flags := irq_flags (irqs s t)\<rparr>
     else s\<lparr>owner := Some t, lk_flags := FUSION_SPINLOCK_NOT_IRQSAVED\<rparr>)"

text \<open>A run: thread 0 takes the lock with interrupts on, waits, and is woken by thread 1.\<close>

definition cv_waiting :: cv_sys where
  "cv_waiting = \<lparr>owner = None, lk_flags = 0x200, irqs = \<lambda>_. True, waitq = [0], tstate = (\<lambda>_. TASK_RUNNING)(0 := TASK_INTERRUPTIBLE),
     pc = (\<lambda>_. Out)(0 := Asleep True True)\<rparr>"

definition cv_back :: cv_sys where
  "cv_back = \<lparr>owner = Some 0, lk_flags = 0x200, irqs = (\<lambda>_. True)(0 := False), waitq = [], tstate = \<lambda>_. TASK_RUNNING,
     pc = (\<lambda>_. Out)(0 := Holds True True)\<rparr>"

subsection \<open>The invariant\<close>

lemma irq_flags_facts:
  "irq_flags e \<noteq> FUSION_SPINLOCK_NOT_IRQSAVED" "flags_irq (irq_flags e) = e"
  by (simp_all add: irq_flags_def flags_irq_def FUSION_SPINLOCK_NOT_IRQSAVED_def)

lemma pc_ok_free: "pc_ok p False f on \<Longrightarrow> pc_ok p False f' on"
  by (cases p) simp_all

text \<open>A step of thread \<open>t\<close>: the others see neither the lock nor their interrupts change.\<close>

lemma locks_inv_upd:
  assumes "locks_inv s" and "\<And>u. u \<noteq> t \<Longrightarrow> pc s' u = pc s u \<and> irqs s' u = irqs s u"
    and "\<And>u. u \<noteq> t \<Longrightarrow> owner s \<noteq> Some u" and "\<And>u. u \<noteq> t \<Longrightarrow> owner s' \<noteq> Some u"
    and "pc_ok (pc s' t) (owner s' = Some t) (lk_flags s') (irqs s' t)"
  shows "locks_inv s'"
  unfolding locks_inv_def
proof
  fix u
  show "pc_ok (pc s' u) (owner s' = Some u) (lk_flags s') (irqs s' u)"
  proof (cases "u = t")
    case False
    then have "pc_ok (pc s u) False (lk_flags s) (irqs s u)"
      using assms(1,3) unfolding locks_inv_def by (metis (full_types))
    then show ?thesis using pc_ok_free assms(2,4) False by simp
  qed (use assms(5) in simp)
qed

lemma locks_inv_same:
  "locks_inv s \<Longrightarrow> owner s' = owner s \<Longrightarrow> lk_flags s' = lk_flags s \<Longrightarrow> irqs s' = irqs s \<Longrightarrow> pc s' = pc s \<Longrightarrow> locks_inv s'"
  by (simp add: locks_inv_def)

lemma locks_inv_at: "locks_inv s \<Longrightarrow> pc s t = p \<Longrightarrow> pc_ok p (owner s = Some t) (lk_flags s) (irqs s t)"
  unfolding locks_inv_def by blast

lemma cv_inv_at: "cv_inv s \<Longrightarrow> pc s t = p \<Longrightarrow> pc_ok p (owner s = Some t) (lk_flags s) (irqs s t)"
  unfolding cv_inv_def by (blast intro: locks_inv_at)

lemma queue_inv_same: "queue_inv s \<Longrightarrow> tstate s' = tstate s \<Longrightarrow> waitq s' = waitq s \<Longrightarrow> queue_inv s'"
  by (simp add: queue_inv_def)

subsection \<open>Wakeups\<close>

lemma wake_frame [frame_simps]:
  "owner (wake t s) = owner s" "lk_flags (wake t s) = lk_flags s" "irqs (wake t s) = irqs s" "pc (wake t s) = pc s"
  by (simp_all add: wake_def)

lemma fold_wake_frame [frame_simps]:
  "owner (fold wake ts s) = owner s" "lk_flags (fold wake ts s) = lk_flags s" "irqs (fold wake ts s) = irqs s" "pc (fold wake ts s) = pc s"
  by (induction ts arbitrary: s) (simp_all add: frame_simps)

lemma wake_queue: "queue_inv s \<Longrightarrow> queue_inv (wake t s)"
  by (simp add: queue_inv_def wake_def)

lemma fold_wake_queue: "queue_inv s \<Longrightarrow> queue_inv (fold wake ts s)"
  by (induction ts arbitrary: s) (simp_all add: wake_queue)

lemma fold_wake_tstate: "tstate (fold wake ts s) t = (if t \<in> set ts then TASK_RUNNING else tstate s t)"
  by (induction ts arbitrary: s) (auto simp: wake_def)

lemma sleepers_all: "queue_inv s \<Longrightarrow> tstate s t \<noteq> TASK_RUNNING \<Longrightarrow> t \<in> set (sleepers s)"
  by (simp add: queue_inv_def sleepers_def)

lemma signal_inv: "cv_inv s \<Longrightarrow> cv_inv (fusion_condvar_signal s)"
  unfolding cv_inv_def fusion_condvar_signal_def
  by (auto simp: wake_queue frame_simps intro: locks_inv_same split: list.splits)

lemma broadcast_inv: "cv_inv s \<Longrightarrow> cv_inv (fusion_condvar_broadcast s)"
  unfolding cv_inv_def fusion_condvar_broadcast_def
  by (auto simp: fold_wake_queue frame_simps intro: locks_inv_same)

subsection \<open>Steps\<close>

lemma free_others: "owner s = None \<Longrightarrow> owner s \<noteq> Some u"
  by simp

lemma set_pc_frame [frame_simps]:
  "owner (set_pc t p s) = owner s" "lk_flags (set_pc t p s) = lk_flags s" "irqs (set_pc t p s) = irqs s"
  "pc (set_pc t p s) = (pc s)(t := p)" "tstate (set_pc t p s) = tstate s" "waitq (set_pc t p s) = waitq s"
  by (simp_all add: set_pc_def)

lemma takes:
  "fusion_spin_lock t s = Some s' \<Longrightarrow> owner s = None \<and> s' = taken False t s"
  "fusion_spin_trylock t s = (True, s') \<Longrightarrow> owner s = None \<and> s' = taken False t s"
  "fusion_spin_lock_irqsave t s = Some s' \<Longrightarrow> owner s = None \<and> s' = taken True t s"
  "fusion_spin_trylock_irqsave t s = (True, s') \<Longrightarrow> owner s = None \<and> s' = taken True t s"
  by (auto simp: fusion_spin_lock_def fusion_spin_trylock_def fusion_spin_lock_irqsave_def fusion_spin_trylock_irqsave_def
      taken_def Let_def split: if_splits)

lemma relock_takes: "wait_relock t b s = Some s' \<Longrightarrow> owner s = None \<and> s' = taken b t s"
  using takes(1,3) by (cases b) (simp_all add: wait_relock_def)

lemma taken_inv:
  assumes "cv_inv s" and "owner s = None \<and> s' = taken b t s"
    and "pc_ok p True (if b then irq_flags (irqs s t) else FUSION_SPINLOCK_NOT_IRQSAVED) (irqs s t \<and> \<not> b)"
  shows "cv_inv (set_pc t p s')"
proof -
  have "locks_inv (set_pc t p s')"
    by (rule locks_inv_upd [of s t]) (use assms in \<open>auto simp: cv_inv_def frame_simps taken_def split: if_splits\<close>)
  moreover have "tstate s' = tstate s" "waitq s' = waitq s" using assms(2) by (simp_all add: taken_def)
  then have "queue_inv (set_pc t p s')"
    using assms(1) queue_inv_same [of s "set_pc t p s'"] by (simp add: cv_inv_def frame_simps)
  ultimately show ?thesis by (simp add: cv_inv_def)
qed


lemma given_back_inv:
  assumes "cv_inv s" and "pc_ok (pc s t) True (lk_flags s) (irqs s t)" and "owner s = Some t"
    and "s' = s\<lparr>owner := None, irqs := (irqs s)(t := on)\<rparr>" and "pc_ok p False (lk_flags s) on"
  shows "cv_inv (set_pc t p s')"
proof -
  have "locks_inv (set_pc t p s')"
    by (rule locks_inv_upd [of s t]) (use assms in \<open>auto simp: cv_inv_def frame_simps\<close>)
  moreover have "tstate s' = tstate s" "waitq s' = waitq s" using assms(4) by simp_all
  then have "queue_inv (set_pc t p s')"
    using assms(1) queue_inv_same [of s "set_pc t p s'"] by (simp add: cv_inv_def frame_simps)
  ultimately show ?thesis by (simp add: cv_inv_def)
qed

lemma unlock_irqs: "fusion_spin_unlock s = s\<lparr>owner := None, irqs := (irqs s)(t := irqs s t)\<rparr>"
  by (simp add: fusion_spin_unlock_def)

text \<open>A thread that holds the lock moves on without touching it.\<close>

lemma holder_moves:
  assumes "locks_inv s" and "owner s = Some t" and "pc_ok p True (lk_flags s) (irqs s t)"
    and "owner s' = owner s" "lk_flags s' = lk_flags s" "irqs s' = irqs s" "pc s' = (pc s)(t := p)"
  shows "locks_inv s'"
  by (rule locks_inv_upd [OF assms(1), of t]) (use assms(2-) in auto)

lemma interrupts_inv: "cv_inv s \<Longrightarrow> pc s t = Out \<Longrightarrow> cv_inv (s\<lparr>irqs := (irqs s)(t := on)\<rparr>)"
proof -
  assume inv: "cv_inv s" and t: "pc s t = Out"
  have "pc_ok (pc s u) (owner s = Some u) (lk_flags s) (((irqs s)(t := on)) u)" for u
    using cv_inv_at [OF inv refl, of u] t by (cases "u = t") simp_all
  then show ?thesis using inv by (simp add: cv_inv_def locks_inv_def queue_inv_def)
qed

lemma unlock_inv: "cv_inv s \<Longrightarrow> pc s t = Holds False e \<Longrightarrow> cv_inv (set_pc t Out (fusion_spin_unlock s))"
  using cv_inv_at [of s t "Holds False e"] by (intro given_back_inv [OF _ _ _ unlock_irqs [of s t]]) simp_all

lemma unlock_irqrestore_inv:
  "cv_inv s \<Longrightarrow> pc s t = Holds True e \<Longrightarrow> cv_inv (set_pc t Out (fusion_spin_unlock_irqrestore t s))"
  using cv_inv_at [of s t "Holds True e"] by (intro given_back_inv [OF _ _ _ fusion_spin_unlock_irqrestore_def]) simp_all

lemma prepare_inv:
  assumes inv: "cv_inv s" and t: "pc s t = Holds b e"
  shows "cv_inv (set_pc t (Prepared (fusion_spin_is_irqsaved s) e) (prepare_to_wait_exclusive t ts s))"
proof -
  have p: "pc_ok (Holds b e) (owner s = Some t) (lk_flags s) (irqs s t)" by (rule cv_inv_at [OF inv t])
  then have b: "fusion_spin_is_irqsaved s = b" by (auto simp: fusion_spin_is_irqsaved_def irq_flags_facts split: if_splits)
  let ?s = "set_pc t (Prepared b e) (prepare_to_wait_exclusive t ts s)"
  have "locks_inv ?s"
    by (rule holder_moves [of s t "Prepared b e"]) (use inv p in \<open>simp_all add: cv_inv_def frame_simps prepare_to_wait_exclusive_def\<close>)
  moreover have "queue_inv ?s" using inv by (simp add: cv_inv_def queue_inv_def frame_simps prepare_to_wait_exclusive_def)
  ultimately show ?thesis unfolding b by (simp add: cv_inv_def)
qed

lemma prepares:
  "s' \<in> {condvar_wait_prepare t s, fusion_condvar_timedwait_prepare t s, fusion_condvar_timedwait_noload_prepare t s} \<Longrightarrow>
    \<exists>ts. s' = prepare_to_wait_exclusive t ts s"
  by (auto simp: condvar_wait_prepare_def fusion_condvar_timedwait_prepare_def fusion_condvar_timedwait_noload_prepare_def timedwait_prepare_def)

lemma prepares_inv:
  assumes "cv_inv s" and "pc s t = Holds b e"
    and "s' \<in> {condvar_wait_prepare t s, fusion_condvar_timedwait_prepare t s, fusion_condvar_timedwait_noload_prepare t s}"
  shows "cv_inv (set_pc t (Prepared (fusion_spin_is_irqsaved s) e) s')"
  using prepare_inv [OF assms(1,2)] prepares [OF assms(3)] by blast

lemma release_inv:
  assumes inv: "cv_inv s" and t: "pc s t = Prepared b e"
  shows "cv_inv (set_pc t (Asleep b e) (wait_unlock t b s))"
proof -
  have p: "pc_ok (Prepared b e) (owner s = Some t) (lk_flags s) (irqs s t)" by (rule cv_inv_at [OF inv t])
  have "wait_unlock t b s = s\<lparr>owner := None, irqs := (irqs s)(t := e)\<rparr>"
    using p by (cases b) (simp_all add: wait_unlock_def fusion_spin_unlock_irqrestore_def unlock_irqs [of s t] irq_flags_facts)
  from given_back_inv [OF inv _ _ this, of "Asleep b e"] show ?thesis using p t by simp
qed

lemma schedule_inv: "cv_inv s \<Longrightarrow> pc s t = Asleep b e \<Longrightarrow> cv_inv (set_pc t (Relock b e) s)"
  using cv_inv_at [of s t "Asleep b e"] by (simp add: cv_inv_def locks_inv_def queue_inv_def frame_simps)

lemma timeout_inv: "cv_inv s \<Longrightarrow> cv_inv (s\<lparr>tstate := (tstate s)(t := TASK_RUNNING)\<rparr>)"
  by (simp add: cv_inv_def locks_inv_def queue_inv_def)

lemma finish_inv:
  assumes inv: "cv_inv s" and t: "pc s t = Finishing b e"
  shows "cv_inv (set_pc t (Holds b e) (finish_wait t s))"
proof -
  have p: "pc_ok (Finishing b e) (owner s = Some t) (lk_flags s) (irqs s t)" by (rule cv_inv_at [OF inv t])
  let ?s = "set_pc t (Holds b e) (finish_wait t s)"
  have "locks_inv ?s"
    by (rule holder_moves [of s t "Holds b e"]) (use inv p in \<open>simp_all add: cv_inv_def frame_simps finish_wait_def\<close>)
  moreover have "queue_inv ?s" using inv by (simp add: cv_inv_def queue_inv_def frame_simps finish_wait_def)
  ultimately show ?thesis by (simp add: cv_inv_def)
qed

lemma acquire_inv:
  assumes "cv_inv s" and "pc s t = Relock b e" and "wait_relock t b s = Some s'"
  shows "cv_inv (set_pc t (Finishing b e) s')"
  by (rule taken_inv [OF assms(1) relock_takes [OF assms(3)]]) (use cv_inv_at [OF assms(1,2)] in simp)

lemma lock_inv:
  assumes "cv_inv s" and "owner s = None \<and> s' = taken b t s"
  shows "cv_inv (set_pc t (Holds b (irqs s t)) s')"
  by (rule taken_inv [OF assms]) simp

lemma cv_step_inv: "cv_step s s' \<Longrightarrow> cv_inv s \<Longrightarrow> cv_inv s'"
  by (induction rule: cv_step.induct)
    (simp_all add: interrupts_inv lock_inv [OF _ takes(1)] lock_inv [OF _ takes(2)] lock_inv [OF _ takes(3)] lock_inv [OF _ takes(4)]
      unlock_inv unlock_irqrestore_inv signal_inv broadcast_inv prepares_inv release_inv timeout_inv schedule_inv acquire_inv finish_inv)

interpretation condvar: transition_invariant cv_step cv_inv
  by unfold_locales (rule cv_step_inv)

lemma cv_start_inv: "cv_inv (cv_start on)"
  by (simp add: cv_inv_def locks_inv_def queue_inv_def cv_start_def)


text \<open>
  C33: Locks and waits keep the interrupts of their callers.  A thread that holds the lock, before or after any number of waits, is
  its only holder; the flags in the lock say how it was taken; interrupts are off just when they were saved or had been off before;
  and the matching release leaves them as they were when the thread took the lock.
\<close>

theorem condvar_restores_interrupts:
  assumes "reach cv_step (cv_start on) s" and "pc s t = Holds b e"
  shows "owner s = Some t \<and> fusion_spin_is_irqsaved s = b \<and> irqs s t = (e \<and> \<not> b) \<and>
    irqs (wait_unlock t (fusion_spin_is_irqsaved s) s) t = e"
proof -
  have "pc_ok (Holds b e) (owner s = Some t) (lk_flags s) (irqs s t)"
    by (rule cv_inv_at [OF condvar.reach_inv [OF assms(1) cv_start_inv] assms(2)])
  then show ?thesis
    by (auto simp: fusion_spin_is_irqsaved_def irq_flags_facts wait_unlock_def fusion_spin_unlock_irqrestore_def fusion_spin_unlock_def)
qed


lemmas cv_eval = cv_start_def cv_waiting_def set_pc_def fusion_spin_lock_irqsave_def irq_flags_def fusion_spin_is_irqsaved_def
  FUSION_SPINLOCK_NOT_IRQSAVED_def prepare_to_wait_exclusive_def condvar_wait_prepare_def wait_unlock_def fusion_spin_unlock_irqrestore_def flags_irq_def
  fusion_condvar_signal_def sleepers_def wake_def wait_relock_def finish_wait_def

lemma cv_waiting_reached: "reach cv_step (cv_start (\<lambda>_. True)) cv_waiting"
proof -
  let ?s = "cv_start (\<lambda>_. True)"
  let ?l = "set_pc 0 (Holds True True) (the (fusion_spin_lock_irqsave 0 ?s))"
  let ?p = "set_pc 0 (Prepared (fusion_spin_is_irqsaved ?l) True) (condvar_wait_prepare 0 ?l)"
  have "cv_step ?s ?l" using cv_step.lock_irqsave [of ?s 0] by (simp add: cv_start_def fusion_spin_lock_irqsave_def Let_def)
  moreover have "cv_step ?l ?p" by (rule cv_step.wait_prepare [of _ _ True]) (simp_all add: set_pc_def)
  moreover have "cv_step ?p cv_waiting"
    using cv_step.wait_release [of ?p 0 True True] by (simp add: cv_eval Let_def fun_upd_idem)
  ultimately show ?thesis by (meson reach.start reach.step)
qed


lemma cv_back_reached: "reach cv_step (cv_start (\<lambda>_. True)) cv_back"
proof -
  let ?w = "fusion_condvar_signal cv_waiting"
  let ?r = "set_pc 0 (Relock True True) ?w"
  let ?f = "set_pc 0 (Finishing True True) (the (wait_relock 0 True ?r))"
  have "cv_step cv_waiting ?w" by (rule cv_step.signal)
  moreover have "cv_step ?w ?r" by (rule cv_step.wait_schedule) (simp_all add: cv_eval)
  moreover have "cv_step ?r ?f" by (rule cv_step.wait_acquire) (simp_all add: cv_eval Let_def)
  moreover have "cv_step ?f cv_back"
    using cv_step.wait_finish [of ?f 0 True True] by (simp add: cv_eval cv_back_def Let_def fun_upd_idem)
  ultimately show ?thesis using cv_waiting_reached by (meson reach.step)
qed

theorem condvar_restores_interrupts_witness:
  "owner cv_back = Some 0 \<and> irqs (wait_unlock 0 (fusion_spin_is_irqsaved cv_back) cv_back) 0 = True"
proof -
  have "pc cv_back 0 = Holds True True" by (simp add: cv_back_def)
  then show ?thesis using condvar_restores_interrupts [OF cv_back_reached] by blast
qed

text \<open>
  The lock functions without flags leave those of an earlier holder in the lock: after \<open>fusion_spin_lock_irqdisabled\<close> the lock
  may say that flags were saved, and a wait would restore them.
\<close>

lemma irqdisabled_stale:
  "owner s = None \<Longrightarrow> map_option fusion_spin_is_irqsaved (fusion_spin_lock_irqdisabled t s) = Some (fusion_spin_is_irqsaved s)"
  by (simp add: fusion_spin_lock_irqdisabled_def fusion_spin_is_irqsaved_def)

text \<open>A wait that was triggered with a multiple of \<open>2 ^ 32\<close> ticks left is reported as timed out.\<close>

lemma timedwait_result_cut: "timedwait_result (2 ^ 32) = FUSION_WAIT_TIMEDOUT" "timedwait_result 1 = FUSION_WAIT_TRIGGERED"
  by (simp_all add: timedwait_result_def Let_def)

end
