(* ===== verification/Ktime.thy ===== *)
theory Ktime
  imports Prelude "HOL-Library.Log_Nat"
begin

text \<open>
  Time and small services: the conversions of \<open>ktime.c\<close>, the elapsed time of \<open>kcondvar.c\<close>, and the division and string
  functions of \<open>kfio_common.c\<close> and \<open>common-linux/div64.h\<close>.

  The tick rate HZ, the clock and \<open>jiffies_to_usecs (MAX_JIFFY_OFFSET)\<close>, an \<open>unsigned int\<close>, are arguments.

  The lemmas show that a timeout is rounded up to ticks and back without loss, what happens to long timeouts, when the clocks wrap,
  how far the 32-bit division is from the quotient, and that \<open>kfio_strncpy\<close> is \<open>strncpy\<close>.
\<close>

subsection \<open>Division\<close>

definition kfio_div64_64 :: "u64 \<Rightarrow> u64 \<Rightarrow> u64" where
  "kfio_div64_64 dividend divisor = dividend div divisor"

definition kfio_mod64_64 :: "u64 \<Rightarrow> u64 \<Rightarrow> u64" where
  "kfio_mod64_64 dividend divisor = dividend mod divisor"

text \<open>
  The functions of the 32-bit build.  \<open>do_div\<close> divides by a 32-bit number; None is a division by zero.  \<open>fls\<close> is the number of
  the highest set bit, counted from 1.
\<close>

definition do_div :: "u64 \<Rightarrow> u32 \<Rightarrow> (u64 \<times> u32) option" where
  "do_div n b = (if b = 0 then None else Some (n div ucast b, ucast (n mod ucast b)))"

definition fls :: "u32 \<Rightarrow> nat" where
  "fls w = floorlog 2 (unat w)"

definition div64_64_32bit :: "u64 \<Rightarrow> u64 \<Rightarrow> u64 option" where
  "div64_64_32bit dividend divisor =
     (let tmp_divisor = ucast divisor :: u32;
          upper = ucast (drop_bit 32 divisor) :: u32;
          (dividend, tmp_divisor) =
            (if upper \<noteq> 0 then (drop_bit (fls upper) dividend, ucast (drop_bit (fls upper) divisor)) else (dividend, tmp_divisor))
      in map_option fst (do_div dividend tmp_divisor))"

definition mod64_64_32bit :: "u64 \<Rightarrow> u64 \<Rightarrow> u64 option" where
  "mod64_64_32bit dividend divisor = map_option (ucast \<circ> snd) (do_div dividend (ucast divisor))"

subsection \<open>Clocks\<close>

definition MAX_JIFFY_OFFSET :: u64 where
  "MAX_JIFFY_OFFSET = 0x3ffffffffffffffe"

definition fusion_getnanotime :: "u64 \<Rightarrow> u64 \<Rightarrow> u64" where
  "fusion_getnanotime HZ lbolt = lbolt * 1000000000 div HZ"

definition fusion_getmicrotime :: "u64 \<Rightarrow> u64 \<Rightarrow> u64" where
  "fusion_getmicrotime HZ jiffies = jiffies * 1000000 div HZ"

definition kfio_get_seconds :: "u64 \<Rightarrow> u32" where
  "kfio_get_seconds real_seconds = ucast real_seconds"

definition fusion_usectohz :: "u64 \<Rightarrow> u32 \<Rightarrow> u64 \<Rightarrow> u64" where
  "fusion_usectohz HZ max_usecs u =
     (if u > ucast max_usecs then MAX_JIFFY_OFFSET
      else if HZ \<le> 1000000 \<and> 1000000 mod HZ = 0 then kfio_div64_64 (u + 1000000 div HZ - 1) (1000000 div HZ)
      else if HZ > 1000000 \<and> HZ mod 1000000 = 0 then u * (HZ div 1000000)
      else kfio_div64_64 (u * HZ + 1000000 - 1) 1000000)"

definition fusion_hztousec :: "u64 \<Rightarrow> u64 \<Rightarrow> u64" where
  "fusion_hztousec HZ hertz = hertz * (1000000 div HZ)"

text \<open>The result of \<open>fusion_condvar_timedwait_noload_elapsed\<close>: \<open>remaining\<close> is what \<open>schedule_timeout\<close> returns, cut to 32 bits.\<close>

definition timedwait_elapsed :: "u64 \<Rightarrow> u64 \<Rightarrow> u64 \<Rightarrow> u64" where
  "timedwait_elapsed HZ timeout_us remaining = timeout_us - fusion_hztousec HZ (ucast (ucast remaining :: u32))"

text \<open>The second sleep, for the milliseconds that an interrupted first one left; the result is the list of uninterrupted sleeps.\<close>

definition kfio_msleep_noload :: "(u32 \<Rightarrow> u64) \<Rightarrow> u32 \<Rightarrow> u32 list" where
  "kfio_msleep_noload msleep_interruptible millisecs =
     (let remainder = msleep_interruptible millisecs in if remainder \<noteq> 0 then [ucast remainder] else [])"

subsection \<open>Strings\<close>

text \<open>Memory behind a string is not looked at: a string is its characters up to the NUL.\<close>

fun strlen :: "u8 list \<Rightarrow> nat" where
  "strlen [] = 0"
| "strlen (c # s) = (if c = 0 then 0 else strlen s + 1)"

definition memcpy_and_pad :: "u8 list \<Rightarrow> nat \<Rightarrow> u8 list \<Rightarrow> nat \<Rightarrow> u8 \<Rightarrow> u8 list" where
  "memcpy_and_pad dst dest_len src count pad =
     (if dest_len > count then take count src @ replicate (dest_len - count) pad @ drop dest_len dst
      else take dest_len src @ drop dest_len dst)"

definition kfio_strncpy :: "u8 list \<Rightarrow> u8 list \<Rightarrow> nat \<Rightarrow> u8 list" where
  "kfio_strncpy dst src n =
     (let len = strlen src; len = (if len > n then n else len) in memcpy_and_pad dst n src len 0)"

text \<open>\<open>strncpy\<close> of the C library, character by character.\<close>

fun strncpy :: "u8 list \<Rightarrow> u8 list \<Rightarrow> nat \<Rightarrow> u8 list" where
  "strncpy dst src 0 = dst"
| "strncpy (d # dst) (c # src) (Suc n) = (if c = 0 then 0 # strncpy dst (c # src) n else c # strncpy dst src n)"
| "strncpy dst src (Suc n) = dst"

subsection \<open>Strings\<close>

lemma strncpy_split:
  assumes "n \<le> length dst" and "strlen src < length src"
  shows "strncpy dst src n = take (min (strlen src) n) src @ replicate (n - strlen src) 0 @ drop n dst"
  using assms
proof (induction dst src n rule: strncpy.induct)
  case (2 d dst c src n)
  show ?case
  proof (cases "c = 0")
    case True
    then show ?thesis using 2 by simp
  next
    case False
    then show ?thesis using 2 by (simp add: min_def)
  qed
qed simp_all

text \<open>
  \<open>kfio_strncpy\<close> is \<open>strncpy\<close>, as its comment demands: for a source that ends with a NUL character and a destination of at least
  n characters the two leave the same memory, padded with zeros when the source is shorter and without a NUL when it is not.
\<close>

lemma kfio_strncpy_is_strncpy:
  assumes "n \<le> length dst" and "strlen src < length src"
  shows "kfio_strncpy dst src n = strncpy dst src n"
  unfolding strncpy_split [OF assms] kfio_strncpy_def memcpy_and_pad_def Let_def by (auto simp: min_def)

lemma kfio_strncpy_is_strncpy_example:
  "kfio_strncpy (replicate 6 9) [65, 66, 0, 7] 4 = strncpy (replicate 6 9) [65, 66, 0, 7] 4"
  by (rule kfio_strncpy_is_strncpy) simp_all

subsection \<open>Division\<close>

lemma unat_drop: "unat (drop_bit n w) = unat w div 2 ^ n"
  for w :: "'a::len word"
  unfolding unat_drop_bit_eq by (rule drop_bit_eq_div)

lemma unat_cast32: "unat w < 2 ^ 32 \<Longrightarrow> unat (ucast w :: u32) = unat w"
  for w :: u64
  by (simp add: unsigned_ucast_eq take_bit_nat_eq_self)

lemma unat_widen: "unat (ucast w :: u64) = unat w"
  for w :: u32
  using unsigned_less [of w, where 'a = nat] by (simp add: unsigned_ucast_eq take_bit_nat_eq_self)

lemma cast32_back: "unat w < 2 ^ 32 \<Longrightarrow> ucast (ucast w :: u32) = w"
  for w :: u64
  by (simp only: word_unat_eq_iff unat_widen unat_cast32)

lemma fls_bounds:
  assumes "w \<noteq> 0"
  shows "2 ^ (fls w - 1) \<le> unat w \<and> unat w < 2 ^ fls w \<and> 0 < fls w"
proof -
  have "0 < unat w" using assms by (simp add: unat_gt_0)
  then have "2 ^ (fls w - 1) \<le> unat w \<and> unat w < 2 ^ fls w"
    using floorlog_bounds [of "unat w" 2] by (simp add: fls_def)
  then show ?thesis using \<open>0 < unat w\<close> by (cases "fls w") auto
qed

lemma fls_le: "fls w \<le> 32"
proof (cases "w = 0")
  case False
  then have "2 ^ (fls w - 1) \<le> unat w" using fls_bounds by blast
  also have "unat w < 2 ^ 32" using unsigned_less [of w, where 'a = nat] by simp
  finally have "fls w - 1 < 32" by (rule power_less_imp_less_exp [rotated]) simp
  then show ?thesis by simp
qed (simp add: fls_def floorlog_def)

text \<open>Dropping the low bits of both operands of a division.\<close>

lemma shifted_quotient:
  fixes N D M q :: nat
  assumes D: "2 ^ 31 * M \<le> D" and M: "M dvd 2 ^ 33" "2 \<le> M" and N: "N < 2 ^ 64"
  shows "N div D \<le> N div M div (D div M) \<and> N div M div (D div M) \<le> N div D + 1"
proof
  define q where "q = N div D"
  define e where "e = D mod M"
  define D' where "D' = D div M"
  define r where "r = N div M div D'"
  have De: "D = D' * M + e" "e < M" using M(2) by (simp_all add: D'_def e_def)
  have D0: "D > 0" using D M(2) by (metis gr0I le_zero_eq mult_is_0 not_numeral_le_zero numeral_eq_Suc power_not_zero zero_neq_numeral)
  have D'31: "2 ^ 31 \<le> D'" using D M(2) unfolding D'_def by (simp add: less_eq_div_iff_mult_less_eq)
  have "q * D \<le> N" by (simp add: q_def)
  then have "q * D' * M \<le> N" using De(1) by (simp add: algebra_simps)
  then have "q * D' \<le> N div M" using M(2) by (simp add: less_eq_div_iff_mult_less_eq)
  then show "N div D \<le> N div M div (D div M)"
    using D'31 unfolding q_def [symmetric] D'_def [symmetric] by (simp add: less_eq_div_iff_mult_less_eq)
  have "(q + 1) * e \<le> D' * M"
  proof -
    have "q * (2 ^ 31 * M) \<le> q * D" using D by (rule mult_le_mono2)
    also have "\<dots> < 2 ^ 64" using \<open>q * D \<le> N\<close> N by (rule le_less_trans)
    finally have "2 ^ 31 * (q * M) < 2 ^ 31 * 2 ^ 33" by (simp add: mult.left_commute)
    then have "q * M < 2 ^ 33" by (simp add: mult.commute)
    then have "q < 2 ^ 33 div M" using M by (metis dvd_div_mult_self mult_less_cancel2)
    then have "(q + 1) * M \<le> 2 ^ 33 div M * M" by (intro mult_le_mono1) simp
    then have qM: "(q + 1) * M \<le> 2 ^ 33" using M(1) by simp
    show ?thesis
    proof (cases "M = 2")
      case True
      then have "(q + 1) * e \<le> q + 1" using De(2) by (cases "e = 0") (auto simp: less_2_cases_iff)
      also have "\<dots> \<le> 2 ^ 32" using qM True by simp
      also have "\<dots> \<le> D' * M" using D'31 True by simp
      finally show ?thesis .
    next
      case False
      have "4 \<le> M"
      proof -
        have "\<not> 3 dvd (2::nat) ^ 33" by simp
        then have "M \<noteq> 3" using M(1) by blast
        then show ?thesis using False M(2) by simp
      qed
      have "(q + 1) * e \<le> (q + 1) * M" using De(2) by (intro mult_le_mono2) simp
      also have "\<dots> \<le> 2 ^ 31 * 4" using qM by simp
      also have "\<dots> \<le> D' * M" using D'31 \<open>4 \<le> M\<close> by (rule mult_le_mono)
      finally show ?thesis .
    qed
  qed
  moreover have "r * D' * M \<le> N"
    using div_times_less_eq_dividend [of "N div M" D'] div_times_less_eq_dividend [of N M]
    unfolding r_def by (meson le_trans mult_le_mono1)
  moreover have "N < (q + 1) * D" using D0 by (simp add: q_def dividend_less_div_times)
  ultimately have "r * (D' * M) < (q + 2) * (D' * M)" unfolding De(1) by (simp add: algebra_simps)
  then have "r < q + 2" by (metis mult_less_cancel2)
  then show "N div M div (D div M) \<le> N div D + 1"
    unfolding q_def [symmetric] D'_def [symmetric] r_def [symmetric] by simp
qed


lemma div64_wide:
  assumes "drop_bit 32 divisor \<noteq> 0"
  shows "\<exists>s. 0 < s \<and> s \<le> 32 \<and> 2 ^ 31 * 2 ^ s \<le> unat divisor \<and>
    div64_64_32bit dividend divisor = Some (drop_bit s dividend div drop_bit s divisor)"
proof -
  let ?u = "ucast (drop_bit 32 divisor) :: u32"
  have "unat divisor div 2 ^ 32 < 2 ^ 32" using unsigned_less [of divisor, where 'a = nat] by (simp add: less_mult_imp_div_less)
  then have U: "unat ?u = unat divisor div 2 ^ 32" using unat_cast32 [of "drop_bit 32 divisor"] by (simp only: unat_drop)
  then have u: "?u \<noteq> 0" using assms by (metis unat_0 unat_drop unat_eq_0)
  let ?s = "fls ?u"
  note b = fls_bounds [OF u, unfolded U]
  have "2 ^ (?s - 1) * 2 ^ 32 \<le> unat divisor" using b by (simp add: less_eq_div_iff_mult_less_eq)
  moreover have "(2::nat) ^ (?s - 1) * 2 ^ 32 = 2 ^ 31 * 2 ^ ?s" using b by (simp add: power_eq_if)
  ultimately have lo: "2 ^ 31 * 2 ^ ?s \<le> unat divisor" by simp
  have "unat divisor < 2 ^ ?s * 2 ^ 32" using b by (simp add: div_less_iff_less_mult)
  then have "unat divisor div 2 ^ ?s < 2 ^ 32" by (simp add: div_less_iff_less_mult mult.commute)
  then have d: "ucast (ucast (drop_bit ?s divisor) :: u32) = drop_bit ?s divisor" by (intro cast32_back) (simp only: unat_drop)
  have "2 ^ 31 \<le> unat divisor div 2 ^ ?s" using lo by (simp add: less_eq_div_iff_mult_less_eq)
  then have "unat (drop_bit ?s divisor) \<noteq> 0" unfolding unat_drop by (metis le_zero_eq power_not_zero zero_neq_numeral)
  then have "drop_bit ?s divisor \<noteq> 0" by (metis unat_0)
  then have "(ucast (drop_bit ?s divisor) :: u32) \<noteq> 0" using d by auto
  then have "div64_64_32bit dividend divisor = Some (drop_bit ?s dividend div drop_bit ?s divisor)"
    using u by (simp add: div64_64_32bit_def do_div_def d Let_def)
  then show ?thesis using lo fls_le [of ?u] b by (intro exI [of _ ?s]) simp
qed

text \<open>
  The division of the 32-bit build is exact for divisors below \<open>2 ^ 32\<close>.  For larger ones it drops low bits of both operands,
  and its result is the quotient or one more.
\<close>

lemma div64_64_within_one:
  assumes "divisor \<noteq> 0"
  shows "\<exists>r. div64_64_32bit dividend divisor = Some r \<and>
    (if divisor < 2 ^ 32 then unat r = unat dividend div unat divisor
     else unat dividend div unat divisor \<le> unat r \<and> unat r \<le> unat dividend div unat divisor + 1)"
proof (cases "divisor < 2 ^ 32")
  case True
  then have n: "unat divisor < 2 ^ 32" by (simp add: word_less_nat_alt)
  then have "unat (drop_bit 32 divisor) = 0" unfolding unat_drop by simp
  then have "drop_bit 32 divisor = 0" by (simp only: unat_eq_0)
  moreover have d: "ucast (ucast divisor :: u32) = divisor"
    using n by (rule cast32_back)
  moreover have "(ucast divisor :: u32) \<noteq> 0" using d assms by auto
  ultimately show ?thesis using True by (simp add: div64_64_32bit_def do_div_def unat_div Let_def)
next
  case False
  then have n: "2 ^ 32 \<le> unat divisor" by (simp add: word_less_nat_alt)
  then have "unat (drop_bit 32 divisor) \<noteq> 0" unfolding unat_drop by (simp add: div_eq_0_iff)
  then have "drop_bit 32 divisor \<noteq> 0" by (metis unat_0)
  from div64_wide [OF this] obtain s where s: "0 < s" "s \<le> 32" "2 ^ 31 * 2 ^ s \<le> unat divisor"
    "div64_64_32bit dividend divisor = Some (drop_bit s dividend div drop_bit s divisor)" by blast
  have "unat dividend < 2 ^ 64" using unsigned_less [of dividend, where 'a = nat] by simp
  moreover have "(2::nat) ^ s dvd 2 ^ 33" using s(2) by (intro le_imp_power_dvd) simp
  moreover have "2 \<le> (2::nat) ^ s" using s(1) by (metis One_nat_def Suc_leI power_increasing power_one_right one_le_numeral)
  ultimately show ?thesis
    using False s(4) shifted_quotient [OF s(3), of "unat dividend"] by (simp add: unat_div unat_drop)
qed


lemma div64_64_within_one_example:
  "\<exists>r. div64_64_32bit (2 ^ 32) (2 ^ 32 + 1) = Some r \<and> unat r \<le> 1"
  using div64_64_within_one [of "2 ^ 32 + 1" "2 ^ 32"] by (auto split: if_splits)

text \<open>The bound is met; and the remainder uses only the low 32 bits of the divisor, which may be 0.\<close>

lemma div64_64_one_more: "div64_64_32bit (2 ^ 32) (2 ^ 32 + 1) = Some 1" "kfio_div64_64 (2 ^ 32) (2 ^ 32 + 1) = 0"
  by code_simp+

lemma mod64_64_wide: "mod64_64_32bit 7 (2 ^ 32) = None" "mod64_64_32bit (2 ^ 32) (2 ^ 32 + 5) = Some 1"
  "kfio_mod64_64 (2 ^ 32) (2 ^ 32 + 5) = 2 ^ 32"
  by code_simp+

subsection \<open>Time\<close>

lemma round_up: "0 < k \<Longrightarrow> u \<le> (u + k - 1) div k * k \<and> (u + k - 1) div k * k < u + k"
  for u k :: nat
proof -
  assume k: "0 < k"
  have "(u + k - 1) div k * k + (u + k - 1) mod k = u + k - 1" by (rule div_mult_mod_eq)
  moreover have "(u + k - 1) mod k < k" using k by (rule mod_less_divisor)
  ultimately show ?thesis using k by linarith
qed

lemma usec_per_tick:
  fixes HZ :: u64
  assumes "unat HZ dvd 1000000"
  shows "unat (1000000 div HZ) = 1000000 div unat HZ" "0 < unat (1000000 div HZ)" "unat (1000000 div HZ) \<le> 1000000"
    "HZ \<le> 1000000" "1000000 mod HZ = 0"
proof -
  have h: "0 < unat HZ" "unat HZ \<le> 1000000" using assms by (auto intro: dvd_imp_le gr0I)
  show k: "unat (1000000 div HZ) = 1000000 div unat HZ" by (simp add: unat_div)
  show "0 < unat (1000000 div HZ)" unfolding k using h by (simp add: div_greater_zero_iff)
  show "unat (1000000 div HZ) \<le> 1000000" unfolding k by (rule div_le_dividend)
  show "HZ \<le> 1000000" using h by (simp add: word_le_nat_alt)
  have "unat (1000000 mod HZ) = 0" using assms by (simp add: unat_mod)
  then show "1000000 mod HZ = 0" by (simp add: unat_eq_0)
qed

lemma rounded_small: "a < 2 ^ 32 \<Longrightarrow> k \<le> 1000000 \<Longrightarrow> x < a + k \<Longrightarrow> x < (2 :: nat) ^ 64"
  by simp

lemma usectohz_ticks:
  assumes "unat HZ dvd 1000000" and "u \<le> ucast max_usecs"
  shows "unat u < 2 ^ 32"
    and "unat (fusion_usectohz HZ max_usecs u) = (unat u + 1000000 div unat HZ - 1) div (1000000 div unat HZ)"
proof -
  let ?k = "1000000 div HZ :: u64"
  note k = usec_per_tick [OF assms(1)]
  have "unat (ucast max_usecs :: u64) < 2 ^ 32" using unsigned_less [of max_usecs, where 'a = nat] by (simp add: unat_widen)
  then show u: "unat u < 2 ^ 32" using assms(2) unfolding word_le_nat_alt by simp
  have a: "unat (u + ?k) = unat u + unat ?k" using u k(3) by (intro unat_add_no_wrap) simp
  have n: "unat (u + ?k - 1) = unat u + unat ?k - 1"
    using a k(2) unat_decr [of "u + ?k"] by (metis add_is_0 less_irrefl unat_0)
  have "fusion_usectohz HZ max_usecs u = (u + ?k - 1) div ?k"
    using leD [OF assms(2)] k(4,5) by (simp add: fusion_usectohz_def kfio_div64_64_def)
  then show "unat (fusion_usectohz HZ max_usecs u) = (unat u + 1000000 div unat HZ - 1) div (1000000 div unat HZ)"
    unfolding k(1) [symmetric] by (simp only: unat_div n)
qed

lemma hztousec_no_wrap:
  assumes "unat HZ dvd 1000000" and "unat r * (1000000 div unat HZ) < 2 ^ 64"
  shows "unat (fusion_hztousec HZ r) = unat r * (1000000 div unat HZ)"
  using assms(2) unat_mult_lem [of r "1000000 div HZ"] by (simp add: fusion_hztousec_def usec_per_tick(1) [OF assms(1)])

text \<open>
  With a tick rate that divides a million, a timeout of up to \<open>max_usecs\<close> microseconds becomes the least number of ticks that is
  not shorter: converted back it is at most one tick longer.  Every longer timeout becomes MAX\_JIFFY\_OFFSET ticks, so in particular every
  timeout of \<open>2 ^ 32\<close> microseconds or more, because the limit is an \<open>unsigned int\<close>.
\<close>

lemma usectohz_rounds_up:
  assumes "unat HZ dvd 1000000"
  shows "if u \<le> ucast max_usecs
    then unat u \<le> unat (fusion_hztousec HZ (fusion_usectohz HZ max_usecs u)) \<and>
      unat (fusion_hztousec HZ (fusion_usectohz HZ max_usecs u)) < unat u + 1000000 div unat HZ
    else fusion_usectohz HZ max_usecs u = MAX_JIFFY_OFFSET"
proof (cases "u \<le> ucast max_usecs")
  case True
  note u = usectohz_ticks [OF assms True]
  have k: "0 < 1000000 div unat HZ" "1000000 div unat HZ \<le> 1000000" using usec_per_tick [OF assms] by simp_all
  note ru = round_up [OF k(1), of "unat u"]
  have "unat (fusion_usectohz HZ max_usecs u) * (1000000 div unat HZ) < 2 ^ 64" using ru rounded_small [OF u(1) k(2)] unfolding u(2) by blast
  then show ?thesis using True ru by (simp add: hztousec_no_wrap [OF assms] u(2))
next
  case False
  then have "u > ucast max_usecs" by (simp add: not_le)
  then show ?thesis using False by (simp add: fusion_usectohz_def)
qed

lemma usectohz_rounds_up_example:
  "unat (fusion_hztousec 250 (fusion_usectohz 250 0xffffe0c0 10001)) < 10001 + 4000"
  using usectohz_rounds_up [of 250 10001 "0xffffe0c0"] by (simp split: if_splits)

lemma long_timeout: "2 ^ 32 \<le> unat u \<Longrightarrow> fusion_usectohz HZ max_usecs u = MAX_JIFFY_OFFSET"
proof -
  assume "2 ^ 32 \<le> unat u"
  moreover have "unat (ucast max_usecs :: u64) < 2 ^ 32" using unsigned_less [of max_usecs, where 'a = nat] by (simp add: unat_widen)
  ultimately have "u > ucast max_usecs" unfolding word_less_nat_alt by simp
  then show ?thesis by (simp add: fusion_usectohz_def)
qed

text \<open>The clock in nanoseconds runs for \<open>2 ^ 64 div 10 ^ 9\<close> ticks and then jumps back.\<close>

lemma nanotime_mono:
  assumes "a \<le> b" and "unat b * 1000000000 < 2 ^ 64" and "HZ \<noteq> 0"
  shows "fusion_getnanotime HZ a \<le> fusion_getnanotime HZ b"
proof -
  have m: "unat (x * 1000000000) = unat x * 1000000000" if "x \<le> b" for x
    using assms(2) that by (subst unat_mult_lem [THEN iffD1]) (auto simp: word_le_nat_alt)
  have "unat a * 1000000000 div unat HZ \<le> unat b * 1000000000 div unat HZ"
    using assms(1) by (intro div_le_mono mult_le_mono1) (simp add: word_le_nat_alt)
  then show ?thesis using m [OF assms(1)] m [of b] by (simp add: fusion_getnanotime_def word_le_nat_alt unat_div)
qed

lemma nanotime_jumps_back: "fusion_getnanotime 250 18446744074 < fusion_getnanotime 250 18446744073"
  by code_simp

end
