(* ===== verification/Kmodule.thy ===== *)
theory Kmodule
  imports Prelude
begin

text \<open>
  The module and its surroundings: loading and unloading in \<open>main.c\<close> and \<open>kinit.c\<close>, the character devices of \<open>cdev.c\<close>, the sequence
  files of \<open>kfile.c\<close>, the error messages of \<open>errno.c\<close> the assembly of log messages in \<open>kmsg.c\<close> and the keys of \<open>sysrq.c\<close>.

  What the core and the kernel return is an argument, and calls that change something outside are recorded in a log.
  The text that \<open>vsnprintf\<close> would produce is an argument of the functions that print.

  The lemmas show that loading either registers everything or leaves nothing behind, and that unloading undoes it; that a sequence
  file holds all of its text or reports an overflow; how long the wait for a device lasts; and that every error number has a message.
\<close>

subsection \<open>Loading and unloading\<close>

datatype drv_event =
    Iodrive_init
  | Iodrive_cleanup
  | Pci_register
  | Pci_unregister
  | Sysrq_register
  | Sysrq_unregister
  | Attach_wait

record driver =
  fio_init_state :: u32
  auto_attach :: int
  drv_log :: "drv_event list"

definition FIO_INIT_STATE_IODRIVE :: u32 where "FIO_INIT_STATE_IODRIVE = 0x0002"
definition FIO_INIT_STATE_PCIDEV :: u32 where "FIO_INIT_STATE_PCIDEV = 0x0004"
definition FIO_INIT_STATE_SYSRQ :: u32 where "FIO_INIT_STATE_SYSRQ = 0x0008"

definition drv_emit :: "drv_event \<Rightarrow> driver \<Rightarrow> driver" where
  "drv_emit e st = st\<lparr>drv_log := drv_log st @ [e]\<rparr>"

definition set_init :: "u32 \<Rightarrow> driver \<Rightarrow> driver" where
  "set_init b st = st\<lparr>fio_init_state := fio_init_state st OR b\<rparr>"

definition fio_do_exit :: "driver \<Rightarrow> driver" where
  "fio_do_exit st =
     (let st = (if fio_init_state st AND FIO_INIT_STATE_SYSRQ \<noteq> 0 then drv_emit Sysrq_unregister st else st);
          st = (if fio_init_state st AND FIO_INIT_STATE_PCIDEV \<noteq> 0 then drv_emit Pci_unregister st else st);
          st = (if fio_init_state st AND FIO_INIT_STATE_IODRIVE \<noteq> 0 then drv_emit Iodrive_cleanup st else st)
      in st\<lparr>fio_init_state := 0\<rparr>)"

text \<open>The common error exit.\<close>

definition init_error_exit :: "int \<Rightarrow> driver \<Rightarrow> int \<times> driver" where
  "init_error_exit rc st = (let rc = (if rc > 0 then - rc else rc) in (rc, fio_do_exit st))"

text \<open>\<open>rc1\<close> and \<open>rc2\<close> are the results of \<open>iodrive_init\<close> and \<open>kfio_pci_register_driver\<close>.\<close>

definition fio_do_init :: "int \<Rightarrow> int \<Rightarrow> driver \<Rightarrow> int \<times> driver" where
  "fio_do_init rc1 rc2 st =
     (if rc1 \<noteq> 0 then init_error_exit rc1 st
      else
        let st = set_init FIO_INIT_STATE_IODRIVE (drv_emit Iodrive_init st)
        in if rc2 < 0 then init_error_exit (- ENODEV) (drv_emit Pci_unregister st)
           else
             let st = set_init FIO_INIT_STATE_PCIDEV (drv_emit Pci_register st);
                 st = set_init FIO_INIT_STATE_SYSRQ (drv_emit Sysrq_register st)
             in (0, st))"

definition USE_QUEUE_NONE_NR :: int where "USE_QUEUE_NONE_NR = 0"
definition USE_QUEUE_RQ_NR :: int where "USE_QUEUE_RQ_NR = 3"
definition USE_QUEUE_MQ_NR :: int where "USE_QUEUE_MQ_NR = 4"

text \<open>\<open>debug\<close> says whether FUSION\_DEBUG is defined.\<close>

definition init_fio_driver :: "bool \<Rightarrow> int \<Rightarrow> bool \<Rightarrow> int \<Rightarrow> int \<Rightarrow> driver \<Rightarrow> int \<times> driver" where
  "init_fio_driver debug use_workqueue iodrive_load_eb_map rc1 rc2 st =
     (if use_workqueue = USE_QUEUE_MQ_NR \<and> \<not> debug then (- 1, st)
      else if use_workqueue \<notin> {USE_QUEUE_MQ_NR, USE_QUEUE_RQ_NR, USE_QUEUE_NONE_NR} then (- 1, st)
      else
        let st = (if \<not> iodrive_load_eb_map then st\<lparr>auto_attach := 0\<rparr> else st);
            (rc, st) = fio_do_init rc1 rc2 st
        in if rc \<noteq> 0 then (rc, st) else (rc, drv_emit Attach_wait st))"

definition exit_fio_driver :: "driver \<Rightarrow> driver" where
  "exit_fio_driver st = fio_do_exit st"

text \<open>\<open>block\<close> and \<open>scsi\<close> are the results of the interfaces, None for one that is not compiled.\<close>

definition kfio_platform_init_storage_interface :: "int option \<Rightarrow> int option \<Rightarrow> int" where
  "kfio_platform_init_storage_interface block scsi =
     (case block of
        Some rc \<Rightarrow> if rc < 0 then rc else (case scsi of Some rc2 \<Rightarrow> rc2 | None \<Rightarrow> rc)
      | None \<Rightarrow> (case scsi of Some rc2 \<Rightarrow> rc2 | None \<Rightarrow> 0))"

definition kfio_platform_teardown_storage_interface :: "int option \<Rightarrow> int option \<Rightarrow> int" where
  "kfio_platform_teardown_storage_interface block scsi =
     (case scsi of
        Some rc \<Rightarrow> if rc < 0 then rc else (case block of Some rc2 \<Rightarrow> rc2 | None \<Rightarrow> rc)
      | None \<Rightarrow> (case block of Some rc2 \<Rightarrow> rc2 | None \<Rightarrow> 0))"

subsection \<open>Sequence files\<close>

record seq_file =
  sf_buf :: string
  sf_size :: u64
  sf_count :: u64

definition blit :: "string \<Rightarrow> nat \<Rightarrow> string \<Rightarrow> string" where
  "blit buf at xs = take at buf @ xs @ drop (at + length xs) buf"

text \<open>What \<open>vsnprintf\<close> leaves at \<open>at\<close> when \<open>n\<close> bytes are free: as much of the text as fits, and a NUL.\<close>

definition vsnprintf_at :: "string \<Rightarrow> nat \<Rightarrow> nat \<Rightarrow> string \<Rightarrow> string" where
  "vsnprintf_at buf at n txt = (if n = 0 then buf else blit buf at (take (n - 1) txt @ [CHR 0x00]))"

definition kfio_seq_printf :: "string \<Rightarrow> seq_file \<Rightarrow> int \<times> seq_file" where
  "kfio_seq_printf txt m =
     (if sf_count m < sf_size m
      then
        let m = m\<lparr>sf_buf := vsnprintf_at (sf_buf m) (unat (sf_count m)) (unat (sf_size m - sf_count m)) txt\<rparr>;
            len = of_nat (length txt)
        in if sf_count m + len < sf_size m then (0, m\<lparr>sf_count := sf_count m + len\<rparr>)
           else (- 1, m\<lparr>sf_count := sf_size m\<rparr>)
      else (- 1, m\<lparr>sf_count := sf_size m\<rparr>))"

text \<open>The offset of the free part of the buffer, None for a null pointer, and its length.\<close>

definition kfio_seq_get_buf :: "seq_file \<Rightarrow> u64 option \<times> u64" where
  "kfio_seq_get_buf m = (if sf_size m > sf_count m then (Some (sf_count m), sf_size m - sf_count m) else (None, 0))"

definition kfio_seq_commit :: "int \<Rightarrow> seq_file \<Rightarrow> seq_file" where
  "kfio_seq_commit num m = (if num < 0 then m\<lparr>sf_count := sf_size m\<rparr> else m\<lparr>sf_count := sf_count m + of_int num\<rparr>)"

subsection \<open>Character devices\<close>

definition POLLIN :: u32 where "POLLIN = 1"
definition POLLPRI :: u32 where "POLLPRI = 2"

definition coms_control_ioctl_poll :: "bool \<Rightarrow> u32" where
  "coms_control_ioctl_poll alerted = (if alerted then POLLIN OR POLLPRI else 0)"

record miscdevice =
  md_minor :: int
  md_name :: string

definition coms_port_cdev_has_minor :: "miscdevice option \<Rightarrow> int option \<Rightarrow> int" where
  "coms_port_cdev_has_minor md minor =
     (case (md, minor) of (Some d, Some n) \<Rightarrow> if md_minor d = n then 1 else 0 | _ \<Rightarrow> 0)"

text \<open>
  \<open>coms_port_cdev_enumerate\<close> of the core is an argument: it looks for the character device whose port device the test accepts,
  and returns its address, or NULL.  The result is the file's private data.
\<close>

definition coms_control_open :: "int \<Rightarrow> ((miscdevice option \<Rightarrow> int) \<Rightarrow> addr) \<Rightarrow> int \<Rightarrow> int \<Rightarrow> int + addr" where
  "coms_control_open MISC_MAJOR cdev_enumerate major minor =
     (if major \<noteq> MISC_MAJOR then Inl (- ENODEV)
      else let cdev = cdev_enumerate (\<lambda>md. coms_port_cdev_has_minor md (Some minor))
           in if cdev = NULL then Inl (- ENODEV) else Inr cdev)"

definition MISC_DYNAMIC_MINOR :: int where "MISC_DYNAMIC_MINOR = 255"

definition misc_dev_init :: "string \<Rightarrow> miscdevice" where
  "misc_dev_init dev_name = \<lparr>md_minor = MISC_DYNAMIC_MINOR, md_name = dev_name\<rparr>"

datatype cdev_event = Md_allocated | Md_freed | Md_registered string | Md_deregistered | Dev_waited string

text \<open>
  \<open>mem\<close> says whether memory was found, and \<open>reg\<close> is the result of the registration.  The allocation is not checked:
  None is the write through the null pointer.
\<close>

definition coms_port_cdev_create :: "bool \<Rightarrow> int \<Rightarrow> string \<Rightarrow> (int \<times> miscdevice option \<times> cdev_event list) option" where
  "coms_port_cdev_create mem reg nm =
     (if \<not> mem then None
      else
        let md = misc_dev_init nm
        in if reg < 0 then Some (reg, None, [Md_allocated, Md_freed])
           else Some (reg, Some md, [Md_allocated, Md_registered nm, Dev_waited nm]))"

definition coms_port_cdev_destroy :: "cdev_event list" where
  "coms_port_cdev_destroy = [Md_deregistered, Md_freed]"

text \<open>The loop: the i-th lookup of the path is tried before the limit is looked at.  The result is the number of sleeps.\<close>

function wait_dev_loop :: "(nat \<Rightarrow> int) \<Rightarrow> nat \<Rightarrow> nat \<Rightarrow> nat" where
  "wait_dev_loop path_lookup limit i = (if path_lookup i \<noteq> 0 \<and> i < limit then wait_dev_loop path_lookup limit (i + 1) else i)"
  by pat_completeness auto

termination by (relation "measure (\<lambda>(_, limit, i). limit - i)") auto

declare wait_dev_loop.simps [simp del]

text \<open>The number of sleeps, and whether the warning of a timeout is printed.\<close>

definition coms_wait_for_dev :: "(nat \<Rightarrow> int) \<Rightarrow> nat \<Rightarrow> nat \<times> bool" where
  "coms_wait_for_dev path_lookup timeout_secs =
     (let i = wait_dev_loop path_lookup (timeout_secs * 10) 0 in (i, i \<ge> timeout_secs * 10))"

subsection \<open>Error messages\<close>

record fio_strerror_entry =
  errno_num :: int
  errno_sym :: string
  errno_msg :: string

definition entry :: "int \<Rightarrow> string \<Rightarrow> string \<Rightarrow> fio_strerror_entry" where
  "entry n s msg = \<lparr>errno_num = n, errno_sym = s, errno_msg = msg\<rparr>"

definition fio_strerror_entries :: "fio_strerror_entry list" where
  "fio_strerror_entries =
    [entry 0 ''ENONE'' ''No error'',
     entry 1 ''EPERM'' ''Operation not permitted'',
     entry 2 ''ENOENT'' ''No such file or directory'',
     entry 3 ''ESRCH'' ''No such process'',
     entry 4 ''EINTR'' ''Interrupted system call'',
     entry 5 ''EIO'' ''I/O error'',
     entry 6 ''ENXIO'' ''No such device or address'',
     entry 7 ''E2BIG'' ''Argument list too long'',
     entry 8 ''ENOEXEC'' ''Exec format error'',
     entry 9 ''EBADF'' ''Bad file number'',
     entry 10 ''ECHILD'' ''No child processes'',
     entry 11 ''EAGAIN'' ''Try again'',
     entry 12 ''ENOMEM'' ''Out of memory'',
     entry 13 ''EACCES'' ''Permission denied'',
     entry 14 ''EFAULT'' ''Bad address'',
     entry 16 ''EBUSY'' ''Device or resource busy'',
     entry 17 ''EEXIST'' ''File exists'',
     entry 18 ''EXDEV'' ''Cross-device link'',
     entry 19 ''ENODEV'' ''No such device'',
     entry 20 ''ENOTDIR'' ''Not a directory'',
     entry 21 ''EISDIR'' ''Is a directory'',
     entry 22 ''EINVAL'' ''Invalid argument'',
     entry 23 ''ENFILE'' ''File table overflow'',
     entry 24 ''EMFILE'' ''Too many open files'',
     entry 25 ''ENOTTY'' ''Not a typewriter'',
     entry 27 ''EFBIG'' ''File too large'',
     entry 28 ''ENOSPC'' ''No space left on device'',
     entry 29 ''ESPIPE'' ''Illegal seek'',
     entry 30 ''EROFS'' ''Read-only file system'',
     entry 31 ''EMLINK'' ''Too many links'',
     entry 32 ''EPIPE'' ''Broken pipe'',
     entry 33 ''EDOM'' ''Math argument out of domain of func'',
     entry 34 ''ERANGE'' ''Math result not representable'',
     entry 95 ''ENOTSUP'' ''Function not supported'',
     entry 122 ''EDQUOT'' ''Attempt to write exceeded quota'',
     entry 1024 ''EUNCORRECTABLEECC'' ''Uncorrectable ECC error'',
     entry 1026 ''EECC_VALIDATION_FAIL'' ''ECC validation failure'',
     entry 1027 ''EDUPID'' ''Duplicated VSU UUID'',
     entry 1028 ''EERASED'' ''Erased space was read'',
     entry 1029 ''EVERRNG'' ''Version is out of range'',
     entry (- 1) ''EUNKNOWN'' ''Unknown error'']"

fun find_errno :: "fio_strerror_entry list \<Rightarrow> int \<Rightarrow> nat" where
  "find_errno [] errnum = 0"
| "find_errno (e # es) errnum = (if errno_num e = - 1 \<or> errnum = errno_num e then 0 else find_errno es errnum + 1)"

definition get_strerror_entries_index :: "int \<Rightarrow> nat" where
  "get_strerror_entries_index errnum =
     (let errnum = - errnum; errnum = (if errnum \<le> 0 then 0 else errnum) in find_errno fio_strerror_entries errnum)"

definition ifio_strerror :: "int \<Rightarrow> string" where
  "ifio_strerror errnum = errno_msg (fio_strerror_entries ! get_strerror_entries_index errnum)"

definition ifio_strerror_sym :: "int \<Rightarrow> string" where
  "ifio_strerror_sym errnum = errno_sym (fio_strerror_entries ! get_strerror_entries_index errnum)"

subsection \<open>Log messages\<close>

definition MSG_FMT_LEN_MAX :: nat where "MSG_FMT_LEN_MAX = 512"
definition MSG_ID_LEN_MAX :: nat where "MSG_ID_LEN_MAX = 7"
definition NO_MSG_ID :: int where "NO_MSG_ID = - 1"

text \<open>\<open>padded\<close> is the number printed with five digits and a blank; \<open>level\<close> the string of the level.  The result is the format.\<close>

definition kmsg_filter :: "(int \<Rightarrow> string) \<Rightarrow> string \<Rightarrow> string option \<Rightarrow> int \<Rightarrow> string \<Rightarrow> string" where
  "kmsg_filter padded level msg_ctx msg_id fmt =
     (let pad_id = (if msg_id \<noteq> NO_MSG_ID then take (MSG_ID_LEN_MAX - 1) (padded msg_id) else '''')
      in case msg_ctx of
           Some (c # ctx) \<Rightarrow> take (MSG_FMT_LEN_MAX - 1) (level @ '' '' @ (c # ctx) @ '': '' @ pad_id @ fmt)
         | _ \<Rightarrow> take (MSG_FMT_LEN_MAX - 1) (level @ '' '' @ pad_id @ fmt))"

text \<open>What is registered after a sequence of events.\<close>

fun registered :: "drv_event list \<Rightarrow> drv_event set \<Rightarrow> drv_event set" where
  "registered [] R = R"
| "registered (Iodrive_init # es) R = registered es (insert Iodrive_init R)"
| "registered (Iodrive_cleanup # es) R = registered es (R - {Iodrive_init})"
| "registered (Pci_register # es) R = registered es (insert Pci_register R)"
| "registered (Pci_unregister # es) R = registered es (R - {Pci_register})"
| "registered (Sysrq_register # es) R = registered es (insert Sysrq_register R)"
| "registered (Sysrq_unregister # es) R = registered es (R - {Sysrq_register})"
| "registered (Attach_wait # es) R = registered es R"

definition unloaded :: driver where
  "unloaded = \<lparr>fio_init_state = 0, auto_attach = 1, drv_log = []\<rparr>"

definition seq_wf :: "seq_file \<Rightarrow> bool" where
  "seq_wf m \<longleftrightarrow> length (sf_buf m) = unat (sf_size m) \<and> sf_count m \<le> sf_size m \<and> unat (sf_size m) < 2 ^ 63"

definition seq_text :: "seq_file \<Rightarrow> string" where
  "seq_text m = take (unat (sf_count m)) (sf_buf m)"

fun seq_prints :: "string list \<Rightarrow> seq_file \<Rightarrow> int list \<times> seq_file" where
  "seq_prints [] m = ([], m)"
| "seq_prints (s # ss) m = (let (rc, m) = kfio_seq_printf s m; (rcs, m) = seq_prints ss m in (rc # rcs, m))"

definition empty_seq :: seq_file where
  "empty_seq = \<lparr>sf_buf = replicate 8 CHR 0x00, sf_size = 8, sf_count = 0\<rparr>"

subsection \<open>Loading and unloading\<close>

lemmas driver_defs = init_fio_driver_def fio_do_init_def init_error_exit_def fio_do_exit_def drv_emit_def set_init_def
  FIO_INIT_STATE_IODRIVE_def FIO_INIT_STATE_PCIDEV_def FIO_INIT_STATE_SYSRQ_def Let_def

text \<open>
  C34: Loading the module registers everything or leaves nothing behind.  When it succeeds, the core, the PCI driver and the SysRq keys
  are registered and the wait for attached cards has begun; when it fails, for whatever reason, nothing is registered, the state says
  so and the result is negative.  Unloading afterwards leaves nothing registered in either case, and a second time does nothing.
\<close>

theorem driver_life_cycle:
  "let (rc, st) = init_fio_driver debug uw load_eb_map rc1 rc2 unloaded
   in rc \<le> 0 \<and>
      (if rc = 0 then registered (drv_log st) {} = {Iodrive_init, Pci_register, Sysrq_register} \<and> Attach_wait \<in> set (drv_log st)
       else registered (drv_log st) {} = {} \<and> fio_init_state st = 0 \<and> Attach_wait \<notin> set (drv_log st)) \<and>
      registered (drv_log (exit_fio_driver st)) {} = {} \<and> fio_init_state (exit_fio_driver st) = 0 \<and>
      exit_fio_driver (exit_fio_driver st) = exit_fio_driver st"
proof (cases "uw = USE_QUEUE_MQ_NR \<and> \<not> debug \<or> uw \<notin> {USE_QUEUE_MQ_NR, USE_QUEUE_RQ_NR, USE_QUEUE_NONE_NR}")
  case True
  then have "init_fio_driver debug uw load_eb_map rc1 rc2 unloaded = (- 1, unloaded)" by (auto simp: init_fio_driver_def)
  then show ?thesis by (simp add: exit_fio_driver_def unloaded_def driver_defs)
next
  case False
  let ?st = "if load_eb_map then unloaded else unloaded\<lparr>auto_attach := 0\<rparr>"
  have r: "init_fio_driver debug uw load_eb_map rc1 rc2 unloaded =
      (let (rc, st) = fio_do_init rc1 rc2 ?st in if rc \<noteq> 0 then (rc, st) else (rc, drv_emit Attach_wait st))"
    using False by (auto simp: init_fio_driver_def Let_def)
  consider "rc1 > 0" | "rc1 < 0" | "rc1 = 0" "rc2 < 0" | "rc1 = 0" "rc2 \<ge> 0" by linarith
  then show ?thesis unfolding r
    by cases (simp_all add: exit_fio_driver_def unloaded_def driver_defs insert_commute insert_Diff_if)
qed

text \<open>When the PCI driver cannot be registered it is unregistered all the same.\<close>

lemma unregister_unregistered:
  "rc2 < 0 \<Longrightarrow> drv_log (snd (fio_do_init 0 rc2 unloaded)) = [Iodrive_init, Pci_unregister, Iodrive_cleanup]"
  by (simp add: unloaded_def driver_defs)

subsection \<open>Sequence files\<close>

lemma blit_length: "at + length xs \<le> length buf \<Longrightarrow> length (blit buf at xs) = length buf"
  by (simp add: blit_def)

lemma seq_printf_fits:
  assumes wf: "seq_wf m" and len: "unat (sf_count m) + length s < unat (sf_size m)"
  shows "\<exists>m'. kfio_seq_printf s m = (0, m') \<and> seq_wf m' \<and> seq_text m' = seq_text m @ s \<and> sf_size m' = sf_size m \<and>
    unat (sf_count m') = unat (sf_count m) + length s"
proof -
  let ?c = "unat (sf_count m)" and ?n = "unat (sf_size m)"
  have w: "length (sf_buf m) = ?n" "?n < 2 ^ 63" using wf by (simp_all add: seq_wf_def)
  have lt: "sf_count m < sf_size m" using len by (simp add: word_less_nat_alt)
  have l: "unat (of_nat (length s) :: u64) = length s" using len w(2) by (simp add: unat_of_nat take_bit_nat_eq_self)
  have c: "unat (sf_count m + of_nat (length s)) = ?c + length s"
    using unat_add_no_wrap [of "sf_count m" "of_nat (length s)"] l len w(2) by simp
  then have lt2: "sf_count m + of_nat (length s) < sf_size m" using len by (simp add: word_less_nat_alt)
  have d: "unat (sf_size m - sf_count m) = ?n - ?c" using lt by (intro unat_sub_le) simp
  let ?b = "blit (sf_buf m) ?c (s @ [CHR 0x00])"
  have v: "vsnprintf_at (sf_buf m) ?c (?n - ?c) s = ?b" using len by (simp add: vsnprintf_at_def)
  have "length ?b = ?n" using blit_length [of ?c "s @ [CHR 0x00]" "sf_buf m"] len w(1) by simp
  moreover have "take (?c + length s) ?b = seq_text m @ s"
    using len w(1) by (simp add: blit_def seq_text_def)
  ultimately show ?thesis
    using lt lt2 w(2) c by (simp add: kfio_seq_printf_def Let_def d v seq_wf_def seq_text_def)
qed

lemma seq_printf_full:
  assumes "seq_wf m" and "unat (sf_size m) \<le> unat (sf_count m) + length s" and "length s < 2 ^ 62"
  shows "\<exists>m'. kfio_seq_printf s m = (- 1, m') \<and> sf_count m' = sf_size m' \<and> sf_size m' = sf_size m"
proof -
  have c: "unat (sf_count m) \<le> unat (sf_size m)" "unat (sf_size m) < 2 ^ 63" using assms(1) by (simp_all add: seq_wf_def word_le_nat_alt)
  have "unat (of_nat (length s) :: u64) = length s" using assms(3) by (simp add: unat_of_nat take_bit_nat_eq_self)
  then have "unat (sf_count m + of_nat (length s)) = unat (sf_count m) + length s"
    using unat_add_no_wrap [of "sf_count m" "of_nat (length s)"] assms(3) c by simp
  then have "\<not> sf_count m + of_nat (length s) < sf_size m" using assms(2) by (simp add: word_less_nat_alt)
  then show ?thesis by (simp add: kfio_seq_printf_def Let_def)
qed

lemma seq_prints_stay_full: "sf_count m = sf_size m \<Longrightarrow> sf_count (snd (seq_prints ss m)) = sf_size m"
proof (induction ss arbitrary: m)
  case (Cons s ss)
  have "kfio_seq_printf s m = (- 1, m)" using Cons.prems by (simp add: kfio_seq_printf_def)
  then show ?case using Cons by (simp add: split_beta Let_def)
qed simp

text \<open>
  A sequence file holds all of its text or reports an overflow.  Prints one after the other append their texts, each with result 0,
  as long as a byte is left over; when the texts do not fit, the count is the size of the buffer at the end, which tells the kernel to come back
  with a larger one, and it stays so whatever is printed after.
\<close>

lemma seq_printf_all_or_overflow:
  assumes "seq_wf m" and "\<forall>s\<in>set ss. length s < 2 ^ 62"
  shows "case seq_prints ss m of (rcs, m') \<Rightarrow>
    if unat (sf_count m) + sum_list (map length ss) < unat (sf_size m)
    then seq_text m' = seq_text m @ concat ss \<and> rcs = map (\<lambda>_. 0) ss
    else sf_count m' = sf_size m"
  using assms
proof (induction ss arbitrary: m)
  case Nil
  have "sf_count m = sf_size m" if "\<not> unat (sf_count m) < unat (sf_size m)"
    using Nil(1) that by (simp add: seq_wf_def word_le_nat_alt word_unat_eq_iff)
  then show ?case by simp
next
  case (Cons s ss)
  show ?case
  proof (cases "unat (sf_count m) + length s < unat (sf_size m)")
    case True
    obtain m' where m': "kfio_seq_printf s m = (0, m')" "seq_wf m'" "seq_text m' = seq_text m @ s" "sf_size m' = sf_size m"
      "unat (sf_count m') = unat (sf_count m) + length s"
      using seq_printf_fits [OF Cons.prems(1) True] by blast
    show ?thesis using Cons.IH [OF m'(2)] Cons.prems(2) m' by (simp add: split_beta Let_def add.assoc split: if_splits)
  next
    case False
    obtain m' where m': "kfio_seq_printf s m = (- 1, m')" "sf_count m' = sf_size m'" "sf_size m' = sf_size m"
      using seq_printf_full [OF Cons.prems(1), of s] False Cons.prems(2) by auto
    then show ?thesis using seq_prints_stay_full [OF m'(2), of ss] False by (simp add: split_beta Let_def)
  qed
qed

subsection \<open>Waiting for a device\<close>

lemma wait_dev_loop_result:
  "i \<le> limit \<Longrightarrow> wait_dev_loop f limit i \<le> limit \<and> i \<le> wait_dev_loop f limit i \<and>
    (\<forall>k. i \<le> k \<and> k < wait_dev_loop f limit i \<longrightarrow> f k \<noteq> 0) \<and>
    (wait_dev_loop f limit i < limit \<longrightarrow> f (wait_dev_loop f limit i) = 0)"
proof (induction f limit i rule: wait_dev_loop.induct)
  case (1 f limit i)
  show ?case
  proof (cases "f i \<noteq> 0 \<and> i < limit")
    case True
    then have w: "wait_dev_loop f limit i = wait_dev_loop f limit (i + 1)" by (simp add: wait_dev_loop.simps [of f limit i])
    have "\<forall>k. i \<le> k \<and> k < wait_dev_loop f limit (i + 1) \<longrightarrow> f k \<noteq> 0"
      using 1(1) [OF True] True by (metis Suc_eq_plus1 Suc_leI le_neq_implies_less)
    then show ?thesis using 1(1) [OF True] True unfolding w by simp
  next
    case False
    then have "wait_dev_loop f limit i = i" by (subst wait_dev_loop.simps) auto
    then show ?thesis using 1(2) False by auto
  qed
qed

text \<open>
  The wait sleeps until the device is there, at most ten times a second for the configured time, and a warning is printed just when
  it was not there before the last sleep was over; a device found by the very last lookup is reported as missing.
\<close>

lemma coms_wait_for_dev_bounded:
  "fst (coms_wait_for_dev f secs) \<le> secs * 10 \<and>
   (snd (coms_wait_for_dev f secs) \<longleftrightarrow> (\<forall>k. k < secs * 10 \<longrightarrow> f k \<noteq> 0))"
  using wait_dev_loop_result [of 0 "secs * 10" f]
  by (auto simp: coms_wait_for_dev_def Let_def not_le)
    (metis le_neq_implies_less less_eq_nat.simps(1))

lemma last_lookup_unseen: "coms_wait_for_dev (\<lambda>i. if i < 10 then - ENOENT else 0) 1 = (10, True)"
  by code_simp

subsection \<open>Error messages\<close>

lemma find_errno_found:
  "\<exists>e\<in>set es. errno_num e = - 1 \<Longrightarrow> find_errno es n < length es \<and>
    (errno_num (es ! find_errno es n) = n \<or> errno_num (es ! find_errno es n) = - 1)"
  by (induction es) auto

lemma strerror_table: "\<exists>e\<in>set fio_strerror_entries. errno_num e = - 1"
  "distinct (map errno_num fio_strerror_entries)" "errno_num (last fio_strerror_entries) = - 1"
  by (simp_all add: fio_strerror_entries_def entry_def)

text \<open>Every error number is translated: by the entry that has it, or by the last one.\<close>

lemma strerror_total:
  "get_strerror_entries_index n < length fio_strerror_entries \<and>
   (errno_num (fio_strerror_entries ! get_strerror_entries_index n) = (if n < 0 then - n else 0) \<or>
    errno_num (fio_strerror_entries ! get_strerror_entries_index n) = - 1)"
  using find_errno_found [OF strerror_table(1)] by (auto simp: get_strerror_entries_index_def Let_def)

lemma strerror_examples:
  "ifio_strerror (- ENOMEM) = ''Out of memory''" "ifio_strerror ENOMEM = ''No error''" "ifio_strerror (- 15) = ''Unknown error''"
  by code_simp+

subsection \<open>Log messages\<close>

text \<open>A long format is cut, in the middle of a conversion if need be.\<close>

lemma kmsg_filter_cut: "length (kmsg_filter padded level ctx msg_id fmt) < MSG_FMT_LEN_MAX"
  by (auto simp: kmsg_filter_def MSG_FMT_LEN_MAX_def Let_def split: option.split list.split)


lemma seq_printf_all_or_overflow_example: "seq_text (snd (seq_prints [''ab'', ''cde''] empty_seq)) = ''abcde''"
  using seq_printf_all_or_overflow [of empty_seq "[''ab'', ''cde'']"]
  by (simp add: empty_seq_def seq_wf_def seq_text_def split_beta)

subsection \<open>Keys for the system request menu\<close>

text \<open>
  \<open>register_sysrq_key\<close> and \<open>unregister_sysrq_key\<close> are the kernel's: a key that is taken stays as it is, and only the operation that was
  registered is removed.  Their results are ignored.
\<close>

definition SYSRQ_SOFTWARE :: char where "SYSRQ_SOFTWARE = CHR ''x''"
definition SYSRQ_CSR :: char where "SYSRQ_CSR = CHR ''y''"

datatype sysrq_dump = Iodrive_dump_all | Iodrive_dump_all_software_state

definition iodrive_handle_sysrq :: "char \<Rightarrow> sysrq_dump list" where
  "iodrive_handle_sysrq key =
     (if key = SYSRQ_CSR then [Iodrive_dump_all]
      else if key = SYSRQ_SOFTWARE then [Iodrive_dump_all_software_state] else [])"

record sysrq_key_op =
  help_msg :: string
  action_msg :: string
  enable_mask :: int

definition csr_key_op :: sysrq_key_op where
  "csr_key_op = \<lparr>help_msg = ''ioDrive CSR (z)'', action_msg = ''ioDrive CSR status:'', enable_mask = 0\<rparr>"

definition software_key_op :: sysrq_key_op where
  "software_key_op = \<lparr>help_msg = ''ioDrive software (l)'', action_msg = ''ioDrive Software status:'', enable_mask = 0\<rparr>"

definition register_sysrq_key :: "char \<Rightarrow> 'op \<Rightarrow> (char \<rightharpoonup> 'op) \<Rightarrow> (char \<rightharpoonup> 'op)" where
  "register_sysrq_key key op m = (if m key = None then m(key \<mapsto> op) else m)"

definition unregister_sysrq_key :: "char \<Rightarrow> 'op \<Rightarrow> (char \<rightharpoonup> 'op) \<Rightarrow> (char \<rightharpoonup> 'op)" where
  "unregister_sysrq_key key op m = (if m key = Some op then m(key := None) else m)"

definition kfio_iodrive_sysrq_keys :: "(char \<rightharpoonup> sysrq_key_op) \<Rightarrow> (char \<rightharpoonup> sysrq_key_op)" where
  "kfio_iodrive_sysrq_keys m = register_sysrq_key SYSRQ_SOFTWARE software_key_op (register_sysrq_key SYSRQ_CSR csr_key_op m)"

definition kfio_iodrive_unreg_sysrq_keys :: "(char \<rightharpoonup> sysrq_key_op) \<Rightarrow> (char \<rightharpoonup> sysrq_key_op)" where
  "kfio_iodrive_unreg_sysrq_keys m = unregister_sysrq_key SYSRQ_SOFTWARE software_key_op (unregister_sysrq_key SYSRQ_CSR csr_key_op m)"

text \<open>Loading and unloading leave the keys of others alone, also when one of the two was taken.\<close>

lemma sysrq_keys_restored:
  assumes "m SYSRQ_CSR \<noteq> Some csr_key_op" and "m SYSRQ_SOFTWARE \<noteq> Some software_key_op"
  shows "kfio_iodrive_unreg_sysrq_keys (kfio_iodrive_sysrq_keys m) = m"
proof
  fix key
  have "SYSRQ_SOFTWARE \<noteq> SYSRQ_CSR" by (simp add: SYSRQ_SOFTWARE_def SYSRQ_CSR_def)
  then show "kfio_iodrive_unreg_sysrq_keys (kfio_iodrive_sysrq_keys m) key = m key"
    using assms by (auto simp: kfio_iodrive_unreg_sysrq_keys_def kfio_iodrive_sysrq_keys_def register_sysrq_key_def unregister_sysrq_key_def)
qed

end
