(* ===== verification/Kinfo_Seq.thy ===== *)
theory Kinfo_Seq
  imports Kinfo_Os Kmodule
begin

text \<open>
  Sequence files of information nodes: the callbacks of \<open>kinfo.c\<close> between the kernel's sequence files, of \<open>Kmodule\<close>, and the data handles
  of \<open>Kinfo_Data\<close>.

  The private pointer of the file is the node outside of a pass and the data handle inside; a callback that finds the
  wrong one has None as its result.  The buffer of the handle is the free part of the file's buffer, so what is written to the handle
  appears in the file.  A pass of the kernel's reader calls \<open>start\<close>, then \<open>show\<close> and \<open>next\<close> until the
  items end, an error is reported or the buffer is full, and \<open>stop\<close> in every case.  The items are the show functions of the node's
  owner in the order of \<open>seq_next\<close>.

  The lemmas show what a pass leaves in the file, and what happens when \<open>start\<close> finds no memory.
\<close>

datatype seq_priv = Priv_node addr | Priv_handle kfio_info_data

record seq_session =
  sfile :: seq_file
  priv :: seq_priv
  sbase :: nat
  live_handles :: nat

text \<open>\<open>p\<close> is what \<open>kfio_malloc\<close> returns for the handle.  The first result says whether there is a handle.\<close>

definition kfio_info_linux_seq_start :: "addr \<Rightarrow> seq_session \<Rightarrow> (bool \<times> seq_session) option" where
  "kfio_info_linux_seq_start p s =
     (case priv s of
        Priv_handle h \<Rightarrow> None
      | Priv_node nd \<Rightarrow>
          let (buf, sz) = kfio_seq_get_buf (sfile s);
              off = (case buf of Some b \<Rightarrow> unat b | None \<Rightarrow> 0)
          in case kfio_info_alloc_data_handle p nd (take (unat sz) (drop off (sf_buf (sfile s)))) sz of
               Inl e \<Rightarrow> Some (False, s)
             | Inr h \<Rightarrow> Some (True, s\<lparr>priv := Priv_handle h, sbase := off, live_handles := live_handles s + 1\<rparr>))"

text \<open>The next item is asked for by node; the owner's function is the order of the items.\<close>

definition kfio_info_linux_seq_next :: "seq_session \<Rightarrow> addr option" where
  "kfio_info_linux_seq_next s = (case priv s of Priv_node nd \<Rightarrow> None | Priv_handle h \<Rightarrow> Some (data_node h))"

definition kfio_info_linux_seq_stop :: "seq_session \<Rightarrow> seq_session option" where
  "kfio_info_linux_seq_stop s =
     (case priv s of
        Priv_node nd \<Rightarrow> None
      | Priv_handle h \<Rightarrow> Some (s\<lparr>priv := Priv_node (data_node h), live_handles := live_handles s - 1\<rparr>))"

text \<open>The amount committed is an \<open>int\<close>.\<close>

definition c_int :: "int \<Rightarrow> int" where
  "c_int n = sint (word_of_int n :: 32 word)"

definition seq_show :: "(kfio_info_data \<Rightarrow> int \<times> kfio_info_data) \<Rightarrow> seq_session \<Rightarrow> (int \<times> seq_session) option" where
  "seq_show f s =
     (case priv s of
        Priv_node nd \<Rightarrow> None
      | Priv_handle h \<Rightarrow>
          let (rc, num, h) = kfio_info_linux_seq_show f h;
              m = (sfile s)\<lparr>sf_buf := overwrite (sf_buf (sfile s)) (sbase s) (buffer h)\<rparr>
          in Some (rc, s\<lparr>priv := Priv_handle h, sfile := kfio_seq_commit (c_int num) m\<rparr>))"

subsection \<open>A pass of the reader\<close>

fun seq_items :: "(kfio_info_data \<Rightarrow> int \<times> kfio_info_data) list \<Rightarrow> seq_session \<Rightarrow> seq_session option" where
  "seq_items [] s = Some s"
| "seq_items (f # fs) s =
     (case seq_show f s of
        None \<Rightarrow> None
      | Some (rc, s) \<Rightarrow>
          if rc < 0 \<or> sf_count (sfile s) = sf_size (sfile s) then Some s
          else case kfio_info_linux_seq_next s of None \<Rightarrow> None | Some nd \<Rightarrow> seq_items fs s)"

definition seq_pass :: "addr \<Rightarrow> (kfio_info_data \<Rightarrow> int \<times> kfio_info_data) list \<Rightarrow> seq_session \<Rightarrow> seq_session option" where
  "seq_pass p fs s =
     Option.bind (kfio_info_linux_seq_start p s) (\<lambda>(started, s).
       Option.bind (if started then seq_items fs s else Some s) kfio_info_linux_seq_stop)"

text \<open>An item that writes and prints.\<close>

definition item :: "data_op list \<Rightarrow> kfio_info_data \<Rightarrow> int \<times> kfio_info_data" where
  "item xs h = (0, fold data_step xs h)"

definition item_text :: "data_op list \<Rightarrow> string" where
  "item_text xs = concat (map op_text xs)"

subsection \<open>Opening a file\<close>

text \<open>\<open>rc\<close> is the result of \<open>seq_open\<close>, which makes \<open>fresh\<close> the private data of the file.\<close>

definition kfio_info_seqf_open :: "int \<Rightarrow> seq_session \<Rightarrow> addr \<Rightarrow> int \<times> seq_session option" where
  "kfio_info_seqf_open rc fresh inode_data = (if rc = 0 then (rc, Some (fresh\<lparr>priv := Priv_node inode_data\<rparr>)) else (rc, None))"

subsection \<open>The tables of operations\<close>

datatype file_handler = H_type_write | H_type_read | H_seqf_open | H_text_open | H_seq_read | H_seq_lseek | H_seq_release | H_text_release

record file_ops =
  f_owned :: bool
  f_open :: "file_handler option"
  f_read :: "file_handler option"
  f_write :: "file_handler option"
  f_llseek :: "file_handler option"
  f_release :: "file_handler option"

datatype seq_handler = H_seq_start | H_seq_next | H_seq_stop | H_seq_show

record seq_ops =
  so_start :: "seq_handler option"
  so_next :: "seq_handler option"
  so_stop :: "seq_handler option"
  so_show :: "seq_handler option"

datatype proc_event = Proc_mkdir string | Proc_remove string

record os_kinfo =
  kfio_info_type_fops :: file_ops
  kfio_info_seqf_fops :: file_ops
  kfio_info_text_fops :: file_ops
  kfio_info_linux_seq_ops :: seq_ops
  fusion_parent_dir :: addr
  proc_log :: "proc_event list"

definition UFIO_KINFO_ROOT :: string where "UFIO_KINFO_ROOT = ''fusion''"

text \<open>The setters of \<open>kfile.c\<close>.\<close>

definition kfio_set_seq_ops_start_handler :: "seq_handler \<Rightarrow> seq_ops \<Rightarrow> seq_ops" where
  "kfio_set_seq_ops_start_handler h sops = sops\<lparr>so_start := Some h\<rparr>"

definition kfio_set_seq_ops_stop_handler :: "seq_handler \<Rightarrow> seq_ops \<Rightarrow> seq_ops" where
  "kfio_set_seq_ops_stop_handler h sops = sops\<lparr>so_stop := Some h\<rparr>"

definition kfio_set_seq_ops_next_handler :: "seq_handler \<Rightarrow> seq_ops \<Rightarrow> seq_ops" where
  "kfio_set_seq_ops_next_handler h sops = sops\<lparr>so_next := Some h\<rparr>"

definition kfio_set_seq_ops_show_handler :: "seq_handler \<Rightarrow> seq_ops \<Rightarrow> seq_ops" where
  "kfio_set_seq_ops_show_handler h sops = sops\<lparr>so_show := Some h\<rparr>"

definition kfio_set_file_ops_owner :: "file_ops \<Rightarrow> file_ops" where
  "kfio_set_file_ops_owner fops = fops\<lparr>f_owned := True\<rparr>"

definition kfio_set_file_ops_llseek_handler :: "file_handler \<Rightarrow> file_ops \<Rightarrow> file_ops" where
  "kfio_set_file_ops_llseek_handler h fops = fops\<lparr>f_llseek := Some h\<rparr>"

definition kfio_set_file_ops_read_handler :: "file_handler \<Rightarrow> file_ops \<Rightarrow> file_ops" where
  "kfio_set_file_ops_read_handler h fops = fops\<lparr>f_read := Some h\<rparr>"

definition kfio_set_file_ops_write_handler :: "file_handler \<Rightarrow> file_ops \<Rightarrow> file_ops" where
  "kfio_set_file_ops_write_handler h fops = fops\<lparr>f_write := Some h\<rparr>"

definition kfio_set_file_ops_open_handler :: "file_handler \<Rightarrow> file_ops \<Rightarrow> file_ops" where
  "kfio_set_file_ops_open_handler h fops = fops\<lparr>f_open := Some h\<rparr>"

definition kfio_set_file_ops_release_handler :: "file_handler \<Rightarrow> file_ops \<Rightarrow> file_ops" where
  "kfio_set_file_ops_release_handler h fops = fops\<lparr>f_release := Some h\<rparr>"

text \<open>\<open>proc_ops\<close> is the configuration KFIOC\_X\_PROC\_CREATE\_DATA\_WANTS\_PROC\_OPS, in which the tables have no owner; \<open>dir\<close> is the result of \<open>kfio_proc_mkdir\<close>.\<close>

definition kfio_info_os_driver_init :: "bool \<Rightarrow> addr \<Rightarrow> os_kinfo \<Rightarrow> int \<times> os_kinfo" where
  "kfio_info_os_driver_init proc_ops dir st =
     (let own = (if proc_ops then id else kfio_set_file_ops_owner);
          type_fops = own (kfio_info_type_fops st);
          seqf_fops = own (kfio_info_seqf_fops st);
          text_fops = own (kfio_info_text_fops st);
          type_fops = kfio_set_file_ops_write_handler H_type_write type_fops;
          type_fops = kfio_set_file_ops_read_handler H_type_read type_fops;
          seqf_fops = kfio_set_file_ops_open_handler H_seqf_open seqf_fops;
          seqf_fops = kfio_set_file_ops_read_handler H_seq_read seqf_fops;
          seqf_fops = kfio_set_file_ops_llseek_handler H_seq_lseek seqf_fops;
          seqf_fops = kfio_set_file_ops_release_handler H_seq_release seqf_fops;
          text_fops = kfio_set_file_ops_open_handler H_text_open text_fops;
          text_fops = kfio_set_file_ops_read_handler H_seq_read text_fops;
          text_fops = kfio_set_file_ops_llseek_handler H_seq_lseek text_fops;
          text_fops = kfio_set_file_ops_release_handler H_text_release text_fops;
          linux_seq_ops = kfio_set_seq_ops_start_handler H_seq_start (kfio_info_linux_seq_ops st);
          linux_seq_ops = kfio_set_seq_ops_next_handler H_seq_next linux_seq_ops;
          linux_seq_ops = kfio_set_seq_ops_stop_handler H_seq_stop linux_seq_ops;
          linux_seq_ops = kfio_set_seq_ops_show_handler H_seq_show linux_seq_ops;
          st = st\<lparr>kfio_info_type_fops := type_fops, kfio_info_seqf_fops := seqf_fops, kfio_info_text_fops := text_fops,
                  kfio_info_linux_seq_ops := linux_seq_ops, fusion_parent_dir := dir,
                  proc_log := proc_log st @ [Proc_mkdir UFIO_KINFO_ROOT]\<rparr>
      in if fusion_parent_dir st = NULL then (- ENOMEM, st) else (0, st))"

definition kfio_info_os_driver_fini :: "os_kinfo \<Rightarrow> os_kinfo" where
  "kfio_info_os_driver_fini st =
     (if fusion_parent_dir st \<noteq> NULL then st\<lparr>fusion_parent_dir := NULL, proc_log := proc_log st @ [Proc_remove UFIO_KINFO_ROOT]\<rparr> else st)"

text \<open>
  In the middle of a pass: \<open>out\<close> is what the items have produced, and the handle's buffer lies in the file's buffer at the place
  where the pass began.
\<close>

definition in_pass :: "seq_session \<Rightarrow> kfio_info_data \<Rightarrow> string \<Rightarrow> seq_session \<Rightarrow> bool" where
  "in_pass s0 h out s \<longleftrightarrow> priv s = Priv_handle h \<and> data_ok h \<and> unat (max_size h) = unat (sf_size (sfile s0)) - unat (sf_count (sfile s0)) \<and>
     unat (cur_size h) = length out \<and> unat (tot_size h) = length out \<and> take (length out) (buffer h) = out \<and>
     sbase s = unat (sf_count (sfile s0)) \<and> sf_size (sfile s) = sf_size (sfile s0) \<and>
     unat (sf_count (sfile s)) = unat (sf_count (sfile s0)) + length out \<and>
     sf_buf (sfile s) = overwrite (sf_buf (sfile s0)) (sbase s) (buffer h)"

lemma c_int_small: "0 \<le> n \<Longrightarrow> n < 2 ^ 31 \<Longrightarrow> c_int n = n"
  by (simp add: c_int_def signed_of_int signed_take_bit_int_eq_self)

lemma overwrite_twice:
  "off + length xs \<le> length buf \<Longrightarrow> length ys = length xs \<Longrightarrow> overwrite (overwrite buf off xs) off ys = overwrite buf off ys"
  by (simp add: overwrite_def)

lemma fold_data_node: "data_node (fold data_step xs h) = data_node h"
proof (induction xs arbitrary: h)
  case (Cons x xs)
  have "data_node (data_step x h) = data_node h"
    by (cases x) (simp_all add: kfio_info_printf_def kfio_info_write_def Let_def)
  then show ?case using Cons by simp
qed simp

lemma show_in_pass:
  assumes wf: "seq_wf (sfile s0)" and sz: "unat (sf_size (sfile s0)) < 2 ^ 31" and i: "in_pass s0 h out s"
    and fits: "unat (sf_count (sfile s0)) + length (out @ item_text xs) < unat (sf_size (sfile s0))"
  shows "\<exists>s'. seq_show (item xs) s = Some (0, s') \<and> in_pass s0 (fold data_step xs h) (out @ item_text xs) s' \<and>
    sf_count (sfile s') \<noteq> sf_size (sfile s') \<and> live_handles s' = live_handles s"
proof -
  let ?h = "fold data_step xs h" and ?c0 = "unat (sf_count (sfile s0))" and ?n = "unat (sf_size (sfile s0))"
  let ?t = "item_text xs"
  have h: "priv s = Priv_handle h" "data_ok h" "unat (max_size h) = ?n - ?c0" "unat (cur_size h) = length out"
    "unat (tot_size h) = length out" "take (length out) (buffer h) = out" "sbase s = ?c0"
    "sf_size (sfile s) = sf_size (sfile s0)" "unat (sf_count (sfile s)) = ?c0 + length out"
    "sf_buf (sfile s) = overwrite (sf_buf (sfile s0)) (sbase s) (buffer h)"
    using i by (simp_all add: in_pass_def)
  have c0: "?c0 \<le> ?n" "length (sf_buf (sfile s0)) = ?n" using wf by (simp_all add: seq_wf_def word_le_nat_alt)
  have l: "length out + length ?t < ?n - ?c0" using fits by simp
  have small: "length (concat (map op_text xs)) < 2 ^ 63" using l sz by (simp add: item_text_def)
  have f: "data_ok ?h" "max_size ?h = max_size h" "unat (tot_size ?h) = length out + length ?t"
    "unat (cur_size ?h) = length out + length ?t"
    using steps_sizes [OF h(2), of xs] h(3,4,5) l sz by (simp_all add: item_text_def)
  have tx: "take (length out + length ?t) (buffer ?h) = out @ ?t"
    using steps_text [OF h(2) small] f(4) h(3,4,6) l by (simp add: item_text_def)
  have lb: "length (buffer ?h) = length (buffer h)" "?c0 + length (buffer h) \<le> length (sf_buf (sfile s0))"
    using f(1,2) h(2,3) c0 by (simp_all add: data_ok_def)
  have num: "unat (cur_size ?h - cur_size h) = length ?t" using f(4) h(4) by (subst unat_sub_le) (simp_all add: word_le_nat_alt)
  have num': "uint (cur_size ?h - cur_size h) = int (length ?t)" unfolding uint_nat num ..
  have ci: "c_int (int (length ?t)) = int (length ?t)" using l sz by (intro c_int_small) simp_all
  let ?m = "(sfile s)\<lparr>sf_buf := overwrite (sf_buf (sfile s0)) ?c0 (buffer ?h)\<rparr>"
  let ?s = "s\<lparr>priv := Priv_handle ?h, sfile := kfio_seq_commit (int (length ?t)) ?m\<rparr>"
  have "seq_show (item xs) s = Some (0, ?s)"
    using overwrite_twice [OF lb(2) lb(1)] by (simp add: seq_show_def h kfio_info_linux_seq_show_def item_def Let_def num' ci)
  moreover have "unat (of_nat (length ?t) :: u64) = length ?t" using l sz by (simp add: unat_of_nat take_bit_nat_eq_self)
  then have cnt: "unat (sf_count (sfile s) + of_nat (length ?t)) = ?c0 + length out + length ?t"
    using unat_add_no_wrap [of "sf_count (sfile s)" "of_nat (length ?t)"] h(9) l sz by simp
  moreover have "in_pass s0 ?h (out @ ?t) ?s"
    using f h(3,7,8) tx cnt by (simp add: in_pass_def kfio_seq_commit_def)
  moreover have "sf_count (sfile ?s) \<noteq> sf_size (sfile ?s)"
    using cnt h(8) l by (auto simp: kfio_seq_commit_def)
  ultimately show ?thesis by (intro exI [of _ ?s]) simp
qed

lemma items_in_pass:
  assumes wf: "seq_wf (sfile s0)" and sz: "unat (sf_size (sfile s0)) < 2 ^ 31"
  shows "in_pass s0 h out s \<Longrightarrow> unat (sf_count (sfile s0)) + length (out @ concat (map item_text xss)) < unat (sf_size (sfile s0)) \<Longrightarrow>
    \<exists>s' h'. seq_items (map item xss) s = Some s' \<and> in_pass s0 h' (out @ concat (map item_text xss)) s' \<and> data_node h' = data_node h \<and>
      live_handles s' = live_handles s"
proof (induction xss arbitrary: s h out)
  case (Cons xs xss)
  have fits: "unat (sf_count (sfile s0)) + length (out @ item_text xs) < unat (sf_size (sfile s0))" using Cons.prems(2) by simp
  obtain s1 where s1: "seq_show (item xs) s = Some (0, s1)" "in_pass s0 (fold data_step xs h) (out @ item_text xs) s1"
    "sf_count (sfile s1) \<noteq> sf_size (sfile s1)" "live_handles s1 = live_handles s"
    using show_in_pass [OF wf sz Cons.prems(1) fits] by blast
  have "kfio_info_linux_seq_next s1 \<noteq> None" using s1(2) by (simp add: in_pass_def kfio_info_linux_seq_next_def)
  then have "seq_items (map item (xs # xss)) s = seq_items (map item xss) s1" using s1(1,3) by (auto simp: kfio_info_linux_seq_next_def)
  then show ?case using Cons.IH [OF s1(2)] Cons.prems(2) s1(4) by (simp add: fold_data_node)
qed auto

text \<open>Every table is complete for its purpose whatever it held before, and owned exactly where the kernel asks for an owner.\<close>

lemmas setter_defs = kfio_set_seq_ops_start_handler_def kfio_set_seq_ops_stop_handler_def kfio_set_seq_ops_next_handler_def
  kfio_set_seq_ops_show_handler_def kfio_set_file_ops_owner_def kfio_set_file_ops_llseek_handler_def kfio_set_file_ops_read_handler_def
  kfio_set_file_ops_write_handler_def kfio_set_file_ops_open_handler_def kfio_set_file_ops_release_handler_def

lemma kinfo_os_tables:
  assumes "kfio_info_os_driver_init proc_ops dir st = (rc, st1)"
  shows "kfio_info_linux_seq_ops st1 =
      \<lparr>so_start = Some H_seq_start, so_next = Some H_seq_next, so_stop = Some H_seq_stop, so_show = Some H_seq_show\<rparr>"
    and "\<forall>t\<in>{kfio_info_seqf_fops st1, kfio_info_text_fops st1}.
      f_open t \<noteq> None \<and> f_read t = Some H_seq_read \<and> f_llseek t = Some H_seq_lseek \<and> f_release t \<noteq> None"
    and "f_read (kfio_info_type_fops st1) = Some H_type_read \<and> f_write (kfio_info_type_fops st1) = Some H_type_write"
    and "\<not> proc_ops \<longrightarrow> (\<forall>t\<in>{kfio_info_type_fops st1, kfio_info_seqf_fops st1, kfio_info_text_fops st1}. f_owned t)"
  using assms by (auto simp: kfio_info_os_driver_init_def setter_defs Let_def split: if_splits)

lemma kinfo_os_life_cycle:
  assumes "kfio_info_os_driver_init proc_ops dir st = (rc, st1)"
  shows "rc = 0 \<longleftrightarrow> dir \<noteq> NULL"
    and "proc_log (kfio_info_os_driver_fini st1) = proc_log st @ Proc_mkdir UFIO_KINFO_ROOT # (if rc = 0 then [Proc_remove UFIO_KINFO_ROOT] else [])"
    and "kfio_info_os_driver_fini (kfio_info_os_driver_fini st1) = kfio_info_os_driver_fini st1"
  using assms by (auto simp: kfio_info_os_driver_init_def kfio_info_os_driver_fini_def Let_def split: if_splits)

text \<open>
  C35: A pass of the reader over a sequence node appends the text of every item, in order, to the file, when the buffer has room for it
  and a byte more; it gives back the data handle it allocated and leaves the node as the file's private pointer, ready for
  the next pass.  When there is no memory for the handle, \<open>start\<close> leaves the node in place and \<open>stop\<close>, which the reader calls all the same,
  takes the node for a data handle.
\<close>

theorem kfio_info_seq_pass:
  assumes "seq_wf (sfile s)" and "unat (sf_size (sfile s)) < 2 ^ 31" and "priv s = Priv_node nd"
    and "unat (sf_count (sfile s)) + length (concat (map item_text xss)) < unat (sf_size (sfile s))"
  shows "case seq_pass p (map item xss) s of
      Some s' \<Rightarrow> p \<noteq> NULL \<and> seq_text (sfile s') = seq_text (sfile s) @ concat (map item_text xss) \<and>
        priv s' = Priv_node nd \<and> live_handles s' = live_handles s
    | None \<Rightarrow> p = NULL"
proof (cases "p = NULL")
  case True
  then show ?thesis
    by (simp add: seq_pass_def kfio_info_linux_seq_start_def assms(3) kfio_info_alloc_data_handle_def kfio_info_linux_seq_stop_def split_beta Let_def)
next
  case False
  let ?m = "sfile s"
  let ?c = "unat (sf_count ?m)" and ?n = "unat (sf_size ?m)" and ?sz = "sf_size ?m - sf_count ?m"
  have w: "?c \<le> ?n" "length (sf_buf ?m) = ?n" "?c < ?n" using assms(1,4) by (simp_all add: seq_wf_def word_le_nat_alt)
  then have lt: "sf_count ?m < sf_size ?m" by (simp add: word_less_nat_alt)
  have z: "unat ?sz = ?n - ?c" using w(1) by (intro unat_sub_le) (simp add: word_le_nat_alt)
  let ?h = "kfio_info_reset_data_handle nd (take (unat ?sz) (drop ?c (sf_buf ?m))) ?sz"
  let ?s = "s\<lparr>priv := Priv_handle ?h, sbase := ?c, live_handles := live_handles s + 1\<rparr>"
  have st: "kfio_info_linux_seq_start p s = Some (True, ?s)"
    using False lt by (simp add: kfio_info_linux_seq_start_def assms(3) kfio_seq_get_buf_def kfio_info_alloc_data_handle_def Let_def)
  have "overwrite (sf_buf ?m) ?c (take (unat ?sz) (drop ?c (sf_buf ?m))) = sf_buf ?m" using w z by (simp add: overwrite_def)
  then have i: "in_pass s ?h [] ?s"
    using w z assms(2) by (simp add: in_pass_def data_ok_def kfio_info_reset_data_handle_def)
  have dn: "data_node ?h = nd" by (simp add: kfio_info_reset_data_handle_def)
  have fits: "?c + length ([] @ concat (map item_text xss)) < ?n" using assms(4) by simp
  obtain s' h' where s': "seq_items (map item xss) ?s = Some s'" "in_pass s h' (concat (map item_text xss)) s'"
    "data_node h' = nd" "live_handles s' = live_handles s + 1"
    using items_in_pass [OF assms(1,2) i fits] dn by auto
  have p: "priv s' = Priv_handle h'" "unat (sf_count (sfile s')) = ?c + length (concat (map item_text xss))"
    "sf_buf (sfile s') = overwrite (sf_buf ?m) ?c (buffer h')" "take (length (concat (map item_text xss))) (buffer h') = concat (map item_text xss)"
    "length (buffer h') = ?n - ?c"
    using s'(2) by (simp_all add: in_pass_def data_ok_def)
  let ?f = "s'\<lparr>priv := Priv_node nd, live_handles := live_handles s' - 1\<rparr>"
  have "seq_pass p (map item xss) s = Some ?f"
    unfolding seq_pass_def st by (simp only: bind.simps prod.case if_True s'(1)) (simp add: kfio_info_linux_seq_stop_def p(1) s'(3))
  moreover have "seq_text (sfile s') = seq_text ?m @ concat (map item_text xss)"
    using w p(4,5) assms(4) by (simp add: seq_text_def p(2,3) overwrite_def)
  ultimately show ?thesis using False s'(4) by simp
qed

theorem kfio_info_seq_pass_witness:
  "case seq_pass 64 (map item [[Printf ''ab''], [Write ''c'']]) \<lparr>sfile = empty_seq, priv = Priv_node 16, sbase = 0, live_handles = 0\<rparr> of
    Some s' \<Rightarrow> seq_text (sfile s') = ''abc'' | None \<Rightarrow> False"
  using kfio_info_seq_pass [of "\<lparr>sfile = empty_seq, priv = Priv_node 16, sbase = 0, live_handles = 0\<rparr>" 16 "[[Printf ''ab''], [Write ''c'']]" 64]
  by (simp add: empty_seq_def seq_wf_def item_text_def seq_text_def split: option.splits)

end
