(* ===== verification/Kcsr.thy ===== *)
theory Kcsr
  imports Bitops
begin

text \<open>
  The card's registers (\<open>kcsr.c\<close>) and the byte order macros of \<open>byteswap.h\<close>.

  The registers are bytes at addresses.  A raw access moves a word with the bytes in the order of the host, which is a parameter; the
  card keeps the low byte first.  The lemmas show that the card sees the same bytes on every host, and that a register reads as it was
  written, at both widths.
\<close>

datatype byte_order = FUSION_LITTLE_ENDIAN | FUSION_BIG_ENDIAN

subsection \<open>Byte order\<close>

definition le64toh :: "byte_order \<Rightarrow> u64 \<Rightarrow> u64" where
  "le64toh host x = (case host of FUSION_LITTLE_ENDIAN \<Rightarrow> x | FUSION_BIG_ENDIAN \<Rightarrow> fusion_bswap64 x)"
definition htole64 :: "byte_order \<Rightarrow> u64 \<Rightarrow> u64" where
  "htole64 host x = (case host of FUSION_LITTLE_ENDIAN \<Rightarrow> x | FUSION_BIG_ENDIAN \<Rightarrow> fusion_bswap64 x)"
definition le32toh :: "byte_order \<Rightarrow> u32 \<Rightarrow> u32" where
  "le32toh host x = (case host of FUSION_LITTLE_ENDIAN \<Rightarrow> x | FUSION_BIG_ENDIAN \<Rightarrow> fusion_bswap32 x)"
definition htole32 :: "byte_order \<Rightarrow> u32 \<Rightarrow> u32" where
  "htole32 host x = (case host of FUSION_LITTLE_ENDIAN \<Rightarrow> x | FUSION_BIG_ENDIAN \<Rightarrow> fusion_bswap32 x)"
definition le16toh :: "byte_order \<Rightarrow> u16 \<Rightarrow> u16" where
  "le16toh host x = (case host of FUSION_LITTLE_ENDIAN \<Rightarrow> x | FUSION_BIG_ENDIAN \<Rightarrow> fusion_bswap16 x)"
definition htole16 :: "byte_order \<Rightarrow> u16 \<Rightarrow> u16" where
  "htole16 host x = (case host of FUSION_LITTLE_ENDIAN \<Rightarrow> x | FUSION_BIG_ENDIAN \<Rightarrow> fusion_bswap16 x)"

definition be64toh :: "byte_order \<Rightarrow> u64 \<Rightarrow> u64" where
  "be64toh host x = (case host of FUSION_LITTLE_ENDIAN \<Rightarrow> fusion_bswap64 x | FUSION_BIG_ENDIAN \<Rightarrow> x)"
definition htobe64 :: "byte_order \<Rightarrow> u64 \<Rightarrow> u64" where
  "htobe64 host x = (case host of FUSION_LITTLE_ENDIAN \<Rightarrow> fusion_bswap64 x | FUSION_BIG_ENDIAN \<Rightarrow> x)"
definition be32toh :: "byte_order \<Rightarrow> u32 \<Rightarrow> u32" where
  "be32toh host x = (case host of FUSION_LITTLE_ENDIAN \<Rightarrow> fusion_bswap32 x | FUSION_BIG_ENDIAN \<Rightarrow> x)"
definition htobe32 :: "byte_order \<Rightarrow> u32 \<Rightarrow> u32" where
  "htobe32 host x = (case host of FUSION_LITTLE_ENDIAN \<Rightarrow> fusion_bswap32 x | FUSION_BIG_ENDIAN \<Rightarrow> x)"
definition be16toh :: "byte_order \<Rightarrow> u16 \<Rightarrow> u16" where
  "be16toh host x = (case host of FUSION_LITTLE_ENDIAN \<Rightarrow> fusion_bswap16 x | FUSION_BIG_ENDIAN \<Rightarrow> x)"
definition htobe16 :: "byte_order \<Rightarrow> u16 \<Rightarrow> u16" where
  "htobe16 host x = (case host of FUSION_LITTLE_ENDIAN \<Rightarrow> fusion_bswap16 x | FUSION_BIG_ENDIAN \<Rightarrow> x)"

definition fusion_card_to_host64 :: "byte_order \<Rightarrow> u64 \<Rightarrow> u64" where "fusion_card_to_host64 = le64toh"
definition host_to_fusion_card64 :: "byte_order \<Rightarrow> u64 \<Rightarrow> u64" where "host_to_fusion_card64 = htole64"
definition fusion_card_to_host32 :: "byte_order \<Rightarrow> u32 \<Rightarrow> u32" where "fusion_card_to_host32 = le32toh"
definition host_to_fusion_card32 :: "byte_order \<Rightarrow> u32 \<Rightarrow> u32" where "host_to_fusion_card32 = htole32"

subsection \<open>Raw access\<close>

text \<open>A word as its bytes in memory, lowest address first, and back.\<close>

definition in_order :: "byte_order \<Rightarrow> u8 list \<Rightarrow> u8 list" where
  "in_order host bs = (case host of FUSION_LITTLE_ENDIAN \<Rightarrow> bs | FUSION_BIG_ENDIAN \<Rightarrow> rev bs)"

definition raw_readl :: "byte_order \<Rightarrow> (addr \<Rightarrow> u8) \<Rightarrow> addr \<Rightarrow> u32" where
  "raw_readl host m a = ucast (of_bytes (in_order host (memcpy_out m a 4)))"

definition raw_writel :: "byte_order \<Rightarrow> u32 \<Rightarrow> addr \<Rightarrow> (addr \<Rightarrow> u8) \<Rightarrow> (addr \<Rightarrow> u8)" where
  "raw_writel host v a m = memcpy_in m a (in_order host (bytes_of 4 (ucast v)))"

definition raw_readq :: "byte_order \<Rightarrow> (addr \<Rightarrow> u8) \<Rightarrow> addr \<Rightarrow> u64" where
  "raw_readq host m a = of_bytes (in_order host (memcpy_out m a 8))"

definition raw_writeq :: "byte_order \<Rightarrow> u64 \<Rightarrow> addr \<Rightarrow> (addr \<Rightarrow> u8) \<Rightarrow> (addr \<Rightarrow> u8)" where
  "raw_writeq host v a m = memcpy_in m a (in_order host (bytes_of 8 v))"

subsection \<open>Registers\<close>

definition kfio_csr_read_direct :: "byte_order \<Rightarrow> (addr \<Rightarrow> u8) \<Rightarrow> addr \<Rightarrow> u32" where
  "kfio_csr_read_direct host m a = (let v = raw_readl host m a; v = fusion_card_to_host32 host v in v)"

definition kfio_csr_read_direct_64 :: "byte_order \<Rightarrow> (addr \<Rightarrow> u8) \<Rightarrow> addr \<Rightarrow> u64" where
  "kfio_csr_read_direct_64 host m a = (let v = raw_readq host m a; v = fusion_card_to_host64 host v in v)"

definition kfio_csr_write_nobarrier :: "byte_order \<Rightarrow> u32 \<Rightarrow> addr \<Rightarrow> (addr \<Rightarrow> u8) \<Rightarrow> (addr \<Rightarrow> u8)" where
  "kfio_csr_write_nobarrier host val a m = (let val = host_to_fusion_card32 host val in raw_writel host val a m)"

text \<open>The barrier behind the writes orders them with later accesses, as the model does.\<close>

definition kfio_csr_write :: "byte_order \<Rightarrow> u32 \<Rightarrow> addr \<Rightarrow> (addr \<Rightarrow> u8) \<Rightarrow> (addr \<Rightarrow> u8)" where
  "kfio_csr_write host val a m = kfio_csr_write_nobarrier host val a m"

definition kfio_csr_write_64 :: "byte_order \<Rightarrow> u64 \<Rightarrow> addr \<Rightarrow> (addr \<Rightarrow> u8) \<Rightarrow> (addr \<Rightarrow> u8)" where
  "kfio_csr_write_64 host val a m = (let val = host_to_fusion_card64 host val in raw_writeq host val a m)"

subsection \<open>Lemmas\<close>

lemma bytes_of_byte_at64: "bytes_of 8 v = map (\<lambda>i. byte_at i v) [0..<8]"
  by (simp add: bytes_of_def byte_at_def)

lemma bytes_of_byte_at32: "bytes_of 4 (ucast v) = map (\<lambda>i. byte_at i v) [0..<4]" for v :: u32
proof -
  have "(ucast (drop_bit (8 * i) (ucast v :: u64)) :: u8) = byte_at i v" for i
    by (rule bit_eqI) (auto simp: byte_at_def bit_ucast_iff bit_drop_bit_eq dest: bit_imp_le_length)
  then show ?thesis by (simp add: bytes_of_def)
qed

lemma rev_map_upt: "rev (map f [0..<n]) = map (\<lambda>i. f (n - 1 - i)) [0..<n]"
  by (rule nth_equalityI) (simp_all add: rev_nth)

lemma swap_stores_reversed:
  "rev (bytes_of 8 (fusion_bswap64 v)) = bytes_of 8 v"
  "rev (bytes_of 4 (ucast (fusion_bswap32 w))) = bytes_of 4 (ucast w)"
  unfolding bytes_of_byte_at64 bytes_of_byte_at32 rev_map_upt
  by (rule map_cong, simp, simp add: bswap64_byte bswap32_byte)+

lemma card_bytes32: "kfio_csr_write host val a m = memcpy_in m a (bytes_of 4 (ucast val))"
  by (cases host) (simp_all add: kfio_csr_write_def kfio_csr_write_nobarrier_def raw_writel_def in_order_def
      host_to_fusion_card32_def htole32_def swap_stores_reversed)

lemma card_bytes64: "kfio_csr_write_64 host val a m = memcpy_in m a (bytes_of 8 val)"
  by (cases host) (simp_all add: kfio_csr_write_64_def raw_writeq_def in_order_def host_to_fusion_card64_def htole64_def
      swap_stores_reversed)

lemma bytes_of_of:
  assumes "n \<le> 8" and "length bs = n"
  shows "bytes_of n (of_bytes bs) = bs"
proof (rule nth_equalityI)
  show "length (bytes_of n (of_bytes bs)) = length bs" by (simp add: bytes_of_def assms(2))
  fix i assume "i < length (bytes_of n (of_bytes bs))"
  then have i: "i < n" by (simp add: bytes_of_def)
  show "bytes_of n (of_bytes bs) ! i = bs ! i"
  proof (rule bit_eqI)
    fix j assume "possible_bit TYPE(u8) j"
    then have "j < 8" by simp
    then show "bit (bytes_of n (of_bytes bs) ! i) j = bit (bs ! i) j"
      using i assms by (simp add: bytes_of_def bit_ucast_iff bit_drop_bit_eq bit_of_bytes)
  qed
qed

lemma whole_word: "take_bit 64 w = w" for w :: u64
  by (rule bit_eqI) (simp add: bit_take_bit_iff)

lemma narrow_take: "(ucast (take_bit 32 w) :: u32) = ucast w" "ucast (ucast w :: u32) = take_bit 32 w" for w :: u64
  by (rule bit_eqI, auto simp: bit_take_bit_iff bit_ucast_iff)+

lemma narrow_widen: "ucast (ucast v :: u64) = v" for v :: u32
  by (rule bit_eqI) (auto simp: bit_ucast_iff)

lemma of_bytes_rev64:
  assumes "length bs = 8"
  shows "fusion_bswap64 (of_bytes (rev bs)) = of_bytes bs"
proof -
  have "rev bs = bytes_of 8 (fusion_bswap64 (of_bytes bs))"
    using swap_stores_reversed(1) [of "fusion_bswap64 (of_bytes bs)"] bytes_of_of [of 8 bs] assms by (simp add: bswap_involution)
  then have "of_bytes (rev bs) = fusion_bswap64 (of_bytes bs)" by (simp add: of_bytes_of whole_word)
  then show ?thesis by (simp add: bswap_involution)
qed

lemma of_bytes_rev32:
  assumes "length bs = 4"
  shows "fusion_bswap32 (ucast (of_bytes (rev bs))) = ucast (of_bytes bs)"
proof -
  let ?w = "ucast (of_bytes bs) :: u32"
  have "ucast ?w = of_bytes bs"
    using assms bytes_of_of [of 4 bs] of_bytes_of [of 4 "of_bytes bs"] by (simp add: narrow_take)
  then have b: "bytes_of 4 (ucast ?w) = bs" using bytes_of_of [of 4 bs] assms by simp
  then have "rev bs = bytes_of 4 (ucast (fusion_bswap32 ?w))"
    using swap_stores_reversed(2) [of "fusion_bswap32 ?w"] by (simp add: bswap_involution)
  then have "of_bytes (rev bs) = take_bit 32 (ucast (fusion_bswap32 ?w))" by (simp add: of_bytes_of)
  then have "(ucast (of_bytes (rev bs)) :: u32) = fusion_bswap32 ?w" by (simp add: narrow_take narrow_widen)
  then show ?thesis by (simp add: bswap_involution)
qed

text \<open>Every host reads the bytes of the card in the card's order.\<close>

lemma card_reads:
  "kfio_csr_read_direct host m a = get_unaligned32 m a"
  "kfio_csr_read_direct_64 host m a = get_unaligned64 m a"
  by (cases host; simp add: kfio_csr_read_direct_def kfio_csr_read_direct_64_def raw_readl_def raw_readq_def in_order_def
      fusion_card_to_host32_def fusion_card_to_host64_def le32toh_def le64toh_def get_unaligned32_def get_unaligned64_def
      of_bytes_rev32 of_bytes_rev64)+

text \<open>
  What one host writes to a register every host reads, and a write leaves the bytes outside of the register alone.
\<close>

lemma csr_roundtrip:
  "kfio_csr_read_direct host (kfio_csr_write host' v a m) a = v"
  "kfio_csr_read_direct_64 host (kfio_csr_write_64 host' w a m) a = w"
  unfolding card_reads card_bytes32 card_bytes64 get_unaligned32_def get_unaligned64_def
  by (simp_all add: unaligned_get_put narrow_take narrow_widen whole_word)

lemma csr_frame:
  "(\<And>i. i < 4 \<Longrightarrow> b \<noteq> a + of_nat i) \<Longrightarrow> kfio_csr_write host v a m b = m b"
  "(\<And>i. i < 8 \<Longrightarrow> b \<noteq> a + of_nat i) \<Longrightarrow> kfio_csr_write_64 host w a m b = m b"
  by (unfold card_bytes32 card_bytes64, (rule memcpy_in_other, simp add: unaligned_bytes)+)

text \<open>The macros undo each other.\<close>

lemma byte_order_inverse:
  "le64toh h (htole64 h x) = x" "be64toh h (htobe64 h x) = x" "le32toh h (htole32 h y) = y" "be32toh h (htobe32 h y) = y"
  "le16toh h (htole16 h z) = z" "be16toh h (htobe16 h z) = z"
  by (cases h; simp add: le64toh_def htole64_def be64toh_def htobe64_def le32toh_def htole32_def be32toh_def htobe32_def
      le16toh_def htole16_def be16toh_def htobe16_def bswap_involution)+

end
