(* ===== verification/Kwait.thy ===== *)
theory Kwait
  imports Kcondvar Ktime
begin

text \<open>
  Timed waits and delays: \<open>kcondvar.c\<close> on the conversions of \<open>ktime.c\<close>, delayed work of \<open>sched.c\<close> and the time stamp counters of
  \<open>tsc.h\<close>.

  The sections of a wait that take and release its lock are in \<open>Kcondvar\<close>; here is what a wait returns.  \<open>schedule_timeout\<close>
  is the kernel's: it gets the ticks to sleep and returns the ticks left.

  The lemmas show that an elapsed time is right to a tick when at least one tick has passed and can be negative, hence close to
  \<open>2 ^ 64\<close>, when none has.
\<close>

definition timedwait_value :: "u64 \<Rightarrow> u32 \<Rightarrow> (u64 \<Rightarrow> u64) \<Rightarrow> u64 \<Rightarrow> int" where
  "timedwait_value HZ max_usecs schedule_timeout timeout_us =
     (let tmo = fusion_usectohz HZ max_usecs timeout_us in timedwait_result (schedule_timeout tmo))"

definition fusion_condvar_timedwait_noload_elapsed :: "u64 \<Rightarrow> u32 \<Rightarrow> (u64 \<Rightarrow> u64) \<Rightarrow> u64 \<Rightarrow> u64" where
  "fusion_condvar_timedwait_noload_elapsed HZ max_usecs schedule_timeout timeout_us =
     (let tmo = fusion_usectohz HZ max_usecs timeout_us; ret = schedule_timeout tmo in timedwait_elapsed HZ timeout_us ret)"

text \<open>\<open>schedule_delayed_work\<close> gets the work item and a number of ticks.\<close>

definition fusion_schedule_delayed_work :: "u64 \<Rightarrow> u32 \<Rightarrow> ('w \<Rightarrow> u64 \<Rightarrow> 'r) \<Rightarrow> 'w \<Rightarrow> u64 \<Rightarrow> 'r" where
  "fusion_schedule_delayed_work HZ max_usecs schedule_delayed_work wq sleep_time =
     schedule_delayed_work wq (fusion_usectohz HZ max_usecs sleep_time)"

text \<open>The counters of all processors are taken to be synchronous: FIO\_TSC\_CORES\_NOT\_SYNCED is 0.\<close>

definition fio_tsc_diff :: "u64 \<Rightarrow> u64 \<Rightarrow> u64" where
  "fio_tsc_diff t1 t2 = (let diff = t2 - t1 in if sint diff > 0 then diff else 0)"

definition fio_tsc_diff_from_now :: "u64 \<Rightarrow> u64 \<Rightarrow> u64" where
  "fio_tsc_diff_from_now rdtsc tsc1 = fio_tsc_diff tsc1 rdtsc"

lemma tsc_diff_forward: "unat d < 2 ^ 63 \<Longrightarrow> fio_tsc_diff t (t + d) = d"
  by (simp add: fio_tsc_diff_def Let_def sint_small del: of_nat_unat) (simp add: unat_eq_0)

lemma tsc_diff_back:
  assumes "unat d < 2 ^ 63"
  shows "fio_tsc_diff (t + d) t = 0"
proof -
  have u: "sint d = uint d" "uint d < 2 ^ 63" using sint_small [OF assms] assms by (simp_all add: uint_nat del: of_nat_unat)
  have "sint (- d) = signed_take_bit 63 (- uint d)" by (simp add: sint_word_minus u(1))
  also have "\<dots> = - uint d" using u(2) uint_ge_0 [of d] by (intro signed_take_bit_int_eq_self) linarith+
  finally show ?thesis by (simp add: fio_tsc_diff_def Let_def)
qed

lemma rounded_difference:
  "t \<le> A \<Longrightarrow> A < t + k \<Longrightarrow> k \<le> B \<Longrightarrow> B \<le> A \<Longrightarrow> A - B \<le> t \<and> t - (A - B) \<le> B \<and> B < t - (A - B) + k" for t A B k :: nat
  by linarith

lemma wrapped_difference: "x < t + k \<Longrightarrow> k \<le> 1000000 \<Longrightarrow> 2 ^ 64 - k < t + 2 ^ 64 - x" for t k x :: nat
  by simp

lemma elapsed_arith:
  fixes t N p k :: nat
  assumes "t \<le> N * k" "N * k < t + k" "p \<le> N"
  shows "if p = 0 then (N - p) * k = N * k else (N - p) * k \<le> t \<and> t - (N - p) * k \<le> p * k \<and> p * k < t - (N - p) * k + k"
proof (cases "p = 0")
  case False
  have e: "(N - p) * k = N * k - p * k" by (rule diff_mult_distrib)
  have "k \<le> p * k" "p * k \<le> N * k" using False assms(3) by simp_all
  then show ?thesis using rounded_difference [OF assms(1,2)] False unfolding e by presburger
qed simp

lemma exact_ticks:
  fixes N t k :: nat
  assumes "t \<le> N * k" "N * k < t + k" "t mod k = 0"
  shows "N * k = t"
proof -
  obtain q where q: "t = k * q" using assms(3) by (auto simp: mod_eq_0_iff_dvd)
  then have "q * k \<le> N * k" "N * k < Suc q * k" using assms(1,2) by (simp_all add: mult.commute)
  then have "N = q" by (auto simp del: mult_Suc)
  then show ?thesis using q by (simp add: mult.commute)
qed

lemma ticks_le: "N \<le> t" if "0 < k" "N * k < t + k" for N t k :: nat
proof (rule ccontr)
  assume "\<not> N \<le> t"
  then have "Suc t * k \<le> N * k" by (intro mult_le_mono1) simp
  moreover have "t \<le> t * k" using that(1) by simp
  ultimately show False using that(2) by simp
qed

text \<open>
  C37: With a tick rate that divides a million and a timeout that is not too long, a wait of which \<open>p\<close> ticks have passed reports an elapsed time of
  \<open>p\<close> ticks or at most one tick less, except when it is woken within the first tick and the timeout is not a whole
  number of ticks: the rounded-up timeout is then longer than the one asked for, and the difference, a negative number, is returned as
  a time of almost \<open>2 ^ 64\<close> microseconds.
\<close>

theorem timedwait_elapsed_exact:
  assumes "unat HZ dvd 1000000" and "t \<le> ucast max_usecs" and "p \<le> fusion_usectohz HZ max_usecs t"
    and "schedule_timeout (fusion_usectohz HZ max_usecs t) = fusion_usectohz HZ max_usecs t - p"
  shows "let e = unat (fusion_condvar_timedwait_noload_elapsed HZ max_usecs schedule_timeout t); k = 1000000 div unat HZ
    in if p = 0 \<and> unat t mod k \<noteq> 0 then 2 ^ 64 - k < e else e \<le> unat p * k \<and> unat p * k < e + k"
proof -
  let ?k = "1000000 div unat HZ" and ?N = "unat (fusion_usectohz HZ max_usecs t)"
  note u = usectohz_ticks [OF assms(1,2)]
  have k: "0 < ?k" "?k \<le> 1000000" using usec_per_tick [OF assms(1)] by simp_all
  have ru: "unat t \<le> ?N * ?k" "?N * ?k < unat t + ?k" using round_up [OF k(1), of "unat t"] by (simp_all add: u(2))
  have p: "unat p \<le> ?N" using assms(3) by (simp add: word_le_nat_alt)
  let ?r = "fusion_usectohz HZ max_usecs t - p"
  have r: "unat ?r = ?N - unat p" using assms(3) by (rule unat_sub_le)
  have "?N \<le> unat t" using ticks_le [OF k(1) ru(2)] .
  then have "unat ?r < 2 ^ 32" using u(1) r by simp
  then have c: "ucast (ucast ?r :: u32) = ?r" by (rule cast32_back)
  have "(?N - unat p) * ?k < unat t + ?k" using ru(2) by (rule le_less_trans [rotated]) simp
  then have b: "(?N - unat p) * ?k < 2 ^ 64" by (rule rounded_small [OF u(1) k(2)])
  have h: "unat (fusion_hztousec HZ ?r) = (?N - unat p) * ?k" using hztousec_no_wrap [OF assms(1), of ?r] b by (simp add: r)
  have e: "fusion_condvar_timedwait_noload_elapsed HZ max_usecs schedule_timeout t = t - fusion_hztousec HZ ?r"
    by (simp add: fusion_condvar_timedwait_noload_elapsed_def timedwait_elapsed_def assms(4) Let_def c)
  note ar = elapsed_arith [OF ru p]
  show ?thesis
  proof (cases "p = 0")
    case True
    then have h0: "unat (fusion_hztousec HZ ?r) = ?N * ?k" using h by simp
    show ?thesis
    proof (cases "unat t mod ?k = 0")
      case True
      have "?N * ?k = unat t" using ru True by (rule exact_ticks)
      then have "fusion_hztousec HZ ?r = t" using h0 by (simp add: word_unat_eq_iff)
      then show ?thesis using True \<open>p = 0\<close> k(1) unfolding e by simp
    next
      case False
      then have lt: "unat t < ?N * ?k" using ru(1) by (metis le_neq_implies_less mod_mult_self2_is_0)
      then have "unat (t - fusion_hztousec HZ ?r) = unat t + 2 ^ 64 - ?N * ?k"
        using h0 by (simp add: unat_sub_if')
      then show ?thesis using False \<open>p = 0\<close> wrapped_difference [OF ru(2) k(2)] unfolding e by simp
    qed
  next
    case False
    then have p0: "unat p \<noteq> 0" by (simp add: unat_eq_0)
    then have "fusion_hztousec HZ ?r \<le> t" using ar h by (simp add: word_le_nat_alt)
    then have "unat (t - fusion_hztousec HZ ?r) = unat t - (?N - unat p) * ?k" unfolding h [symmetric] by (rule unat_sub_le)
    then show ?thesis using False ar p0 unfolding e by (simp only: Let_def simp_thms if_False)
  qed
qed

theorem timedwait_elapsed_exact_witness:
  "2 ^ 64 - 4000 < unat (fusion_condvar_timedwait_noload_elapsed 250 0xffffe0c0 (\<lambda>ticks. ticks) 1000)"
  using timedwait_elapsed_exact [of 250 1000 "0xffffe0c0" 0 "\<lambda>ticks. ticks"] by simp

end
