(* ===== verification/Kblock_Plug.thy ===== *)
theory Kblock_Plug
  imports Kblock_Bio "HOL-Library.Multiset"
begin

text \<open>
  Unplug callbacks of the block device (\<open>kblock.c\<close>): the flush of a plug by a task that sleeps, which leaves the work to the kernel's
  block worker; the test whether callbacks run with interrupts off; queues; and the entry points of atomic writes.

  A plug that is flushed by the scheduler waits on the worker's queue as a work item; the queue is first in, first out.  The
  lemmas show that under every order of flushes and work each bio of every plug is accounted for once.
\<close>

record plug_sys =
  pblk :: blk_state
  kblockd :: "kfio_plug list"

definition kfio_unplug_cb :: "nat \<Rightarrow> blk_env \<Rightarrow> kfio_plug \<Rightarrow> bool \<Rightarrow> plug_sys \<Rightarrow> plug_sys option" where
  "kfio_unplug_cb fuel env plug from_schedule s =
     (if from_schedule then Some (s\<lparr>kblockd := kblockd s @ [plug]\<rparr>)
      else map_option (\<lambda>st. s\<lparr>pblk := st\<rparr>) (kfio_unplug_do_cb fuel env plug (pblk s)))"

text \<open>The worker takes the first item.\<close>

definition kblockd_work :: "nat \<Rightarrow> blk_env \<Rightarrow> plug_sys \<Rightarrow> plug_sys option" where
  "kblockd_work fuel env s =
     (case kblockd s of
        [] \<Rightarrow> Some s
      | p # ps \<Rightarrow> map_option (\<lambda>st. s\<lparr>pblk := st, kblockd := ps\<rparr>) (kfio_unplug_do_cb fuel env p (pblk s)))"

datatype plug_act = Unplug kfio_plug bool | Work

fun do_act :: "nat \<Rightarrow> blk_env \<Rightarrow> plug_act \<Rightarrow> plug_sys \<Rightarrow> plug_sys option" where
  "do_act fuel env (Unplug p from_schedule) s = kfio_unplug_cb fuel env p from_schedule s"
| "do_act fuel env Work s = kblockd_work fuel env s"

fun plug_run :: "nat \<Rightarrow> blk_env \<Rightarrow> plug_act list \<Rightarrow> plug_sys \<Rightarrow> plug_sys option" where
  "plug_run fuel env [] s = Some s"
| "plug_run fuel env (x # xs) s = Option.bind (do_act fuel env x s) (plug_run fuel env xs)"

fun unplugged :: "plug_act list \<Rightarrow> kfio_plug list" where
  "unplugged [] = []"
| "unplugged (Unplug p b # xs) = p # unplugged xs"
| "unplugged (Work # xs) = unplugged xs"

subsection \<open>The test of the callbacks\<close>

text \<open>\<open>irqs_disabled\<close> is the state of the interrupts at each call of the callback, in order: the kernel may call it or not.\<close>

definition safe_unplug_cb :: "bool \<Rightarrow> int \<Rightarrow> int" where
  "safe_unplug_cb irqs_disabled safe = (if irqs_disabled then 0 else 1)"

definition test_safe_plugging :: "bool list \<Rightarrow> int \<Rightarrow> int" where
  "test_safe_plugging irqs_disabled dangerous_plugging_callback =
     (if dangerous_plugging_callback \<noteq> - 1 then dangerous_plugging_callback
      else let safe = fold safe_unplug_cb irqs_disabled (- 1) in if safe = 0 then 1 else 0)"

record 'd request_queue =
  queuedata :: "'d option"
  rq_make_request :: bool

text \<open>
  \<open>rq\<close> is the result of the kernel's allocation; the lock word of the queue is copied to the disk.  \<open>make_request\<close> is
  KFIOC\_X\_HAS\_MAKE\_REQUEST\_FN.  The result has the new value of \<open>dangerous_plugging_callback\<close> and, when there is a queue, the
  queue and the disk's lock.
\<close>

definition kfio_alloc_queue ::
  "bool \<Rightarrow> bool list \<Rightarrow> int \<Rightarrow> ('d request_queue \<times> 'l) option \<Rightarrow> 'd \<Rightarrow> int \<times> ('d request_queue \<times> 'l) option" where
  "kfio_alloc_queue make_request irqs_disabled dangerous rq dp =
     (let dangerous = test_safe_plugging irqs_disabled dangerous
      in case rq of
           None \<Rightarrow> (dangerous, None)
         | Some (q, lk) \<Rightarrow> (dangerous, Some (q\<lparr>queuedata := Some dp, rq_make_request := (make_request \<or> rq_make_request q)\<rparr>, lk)))"

subsection \<open>Entry points\<close>

definition FIO_ATOMIC_WRITE_USER_PAGES :: u32 where "FIO_ATOMIC_WRITE_USER_PAGES = 0x01"

text \<open>\<open>private_data\<close> is the device behind \<open>linux_bdev\<close>, None when \<open>linux_bdev\<close> is NULL; the core's functions return their result and the count.\<close>

definition kfio_vectored_atomic :: "bool \<Rightarrow> ('b \<Rightarrow> 'v \<Rightarrow> u32 \<Rightarrow> u32 \<Rightarrow> int \<times> u32) \<Rightarrow> 'b option \<Rightarrow> 'v option \<Rightarrow> u32 \<Rightarrow> bool \<Rightarrow> int" where
  "kfio_vectored_atomic supported kfio_handle_atomic private_data iov iovcnt user_pages =
     (if \<not> supported then - EIO
      else case (private_data, iov) of
             (Some d, Some v) \<Rightarrow>
               let (retval, sectors_written) = kfio_handle_atomic d v iovcnt (if user_pages then FIO_ATOMIC_WRITE_USER_PAGES else 0)
               in if retval = 0 then sint sectors_written else retval
           | _ \<Rightarrow> - EFAULT)"

definition kfio_count_sectors_inuse :: "('b \<Rightarrow> u64 \<Rightarrow> u64 \<Rightarrow> int \<times> u64) \<Rightarrow> 'b option \<Rightarrow> u64 \<Rightarrow> u64 \<Rightarrow> int \<times> u64 option" where
  "kfio_count_sectors_inuse fio_bdev_sectors_inuse private_data start len =
     (case private_data of
        None \<Rightarrow> (- EFAULT, None)
      | Some d \<Rightarrow> let (rc, n) = fio_bdev_sectors_inuse d start len in (rc, Some n))"

text \<open>
  \<open>chain p\<close> lists the bios of plug \<open>p\<close>.  The plugs that are still to be run, queued ones first, are as they were at the
  start.
\<close>

definition plugs_ok :: "(kfio_plug \<Rightarrow> addr list) \<Rightarrow> (addr \<Rightarrow> bio) \<Rightarrow> kfio_plug list \<Rightarrow> bool" where
  "plugs_ok chain h ps \<longleftrightarrow> distinct (concat (map chain ps)) \<and> (\<forall>p\<in>set ps. plugged h p (chain p) \<and> (\<forall>x\<in>set (chain p). bio_ok (h x)))"

text \<open>What a run has done, as in the theorem below.\<close>

definition all_accounted :: "nat \<Rightarrow> blk_env \<Rightarrow> (kfio_plug \<Rightarrow> addr list) \<Rightarrow> plug_act list \<Rightarrow> plug_sys \<Rightarrow> bool" where
  "all_accounted fuel env chain acts s \<longleftrightarrow>
     (\<exists>s' evs gs. plug_run fuel env acts s = Some s' \<and> events (pblk s') = events (pblk s) @ evs \<and>
      list_all2 (accounts env (bios (pblk s))) evs gs \<and> plugs_ok chain (bios (pblk s')) (kblockd s') \<and>
      mset (concat gs) + mset (concat (map chain (kblockd s'))) = mset (concat (map chain (kblockd s @ unplugged acts))))"

definition may_run :: "nat \<Rightarrow> (kfio_plug \<Rightarrow> addr list) \<Rightarrow> plug_act list \<Rightarrow> plug_sys \<Rightarrow> bool" where
  "may_run fuel chain acts s \<longleftrightarrow>
     plugs_ok chain (bios (pblk s)) (kblockd s @ unplugged acts) \<and> (\<forall>p\<in>set (kblockd s @ unplugged acts). length (chain p) \<le> fuel)"

definition ex_plug2 :: kfio_plug where
  "ex_plug2 = \<lparr>cb_is_kfio = True, plug_disk = 7, bio_head = 48, bio_tail = 48\<rparr>"

definition ex_chain :: "kfio_plug \<Rightarrow> addr list" where
  "ex_chain p = (if bio_head p = 16 then [16, 32] else [48])"

lemma contiguous_cong: "(\<And>a. a \<in> set g \<Longrightarrow> h' a = h a) \<Longrightarrow> contiguous d h' s g t = contiguous d h s g t"
  by (induction g arbitrary: s) auto

lemma describes_cong:
  assumes "\<And>a. a \<in> set g \<Longrightarrow> h' a = h a"
  shows "describes env h' f g = describes env h f g"
proof -
  have "map (\<lambda>a. bio_bytes (h' a)) g = map (\<lambda>a. bio_bytes (h a)) g" using assms by simp
  moreover have "contiguous d h' s g t = contiguous d h s g t" for d s t using assms by (rule contiguous_cong)
  moreover have "(\<forall>a\<in>set g. bio_cmd c (h' a) = k) = (\<forall>a\<in>set g. bio_cmd c (h a) = k)" for c k using assms by auto
  ultimately show ?thesis unfolding describes_def by (simp only:)
qed

lemma accounts_cong: "(\<And>a. a \<in> set g \<Longrightarrow> h' a = h a) \<Longrightarrow> accounts env h' e g = accounts env h e g"
  using describes_cong [of g h' h env] by (cases e) simp_all

lemma accounts_all_cong:
  assumes "list_all2 (accounts env h') evs gs" and "\<And>a. a \<in> set (concat gs) \<Longrightarrow> h' a = h a"
  shows "list_all2 (accounts env h) evs gs"
  using assms
proof (induction rule: list_all2_induct)
  case (Cons e evs g gs)
  have "accounts env h e g" using Cons.hyps(1) accounts_cong [of g h' h] Cons.prems by auto
  then show ?case using Cons.IH Cons.prems by simp
qed simp

lemma unplug_do_cb_frame:
  assumes "fresh_alloc env" and "plugged (bios st) plug xs" and "distinct xs"
    and "\<forall>x\<in>set xs. bio_ok (bios st x)" and "length xs \<le> fuel"
  obtains st' evs gs where "kfio_unplug_do_cb fuel env plug st = Some st'" "events st' = events st @ evs"
    "list_all2 (accounts env (bios st)) evs gs" "concat gs = xs" "\<forall>y. y \<notin> set xs \<longrightarrow> bios st' y = bios st y"
proof (cases "xs = []")
  case True
  then have "kfio_unplug_do_cb fuel env plug st = Some st" using assms(2) by (simp add: plugged_def kfio_unplug_do_cb_def)
  then show ?thesis using that [of st "[]" "[]"] True by simp
next
  case False
  have ch: "chained (bios st) (bio_head plug) xs" using assms(2) by (simp add: plugged_def)
  then have "bio_head plug \<noteq> NULL" using False by (cases xs) auto
  then have k: "kfio_unplug_do_cb fuel env plug st = kickoff_loop fuel env (bio_head plug) None NULL st"
    by (simp add: kfio_unplug_do_cb_def kfio_kickoff_plugged_io_def)
  have "same_payload (bios st) (bios st)" by (simp add: same_payload_def)
  from kickoff_loop_accounts [OF assms(1) this assms(4) ch False, of None NULL "[]" fuel] assms(3,5) that k
  show ?thesis by (auto simp: open_request_def)
qed

lemma plugs_ok_rest:
  assumes "plugs_ok chain h (ps @ p # qs)" and "\<forall>y. y \<notin> set (chain p) \<longrightarrow> h' y = h y"
  shows "plugs_ok chain h' (ps @ qs)"
proof -
  have out: "h' y = h y" if "q \<in> set (ps @ qs)" "y \<in> set (chain q)" for q y
    using that assms by (auto simp: plugs_ok_def)
  then have "plugged h' q (chain q) = plugged h q (chain q)" if "q \<in> set (ps @ qs)" for q
    using that chained_cong [of "chain q" h' h] by (simp add: plugged_def)
  then show ?thesis using assms(1) out by (auto simp: plugs_ok_def)
qed

lemma run_plug:
  assumes "fresh_alloc env" and ok: "plugs_ok chain (bios st) (ps @ p # qs)" and "length (chain p) \<le> fuel"
  obtains st' evs gs where "kfio_unplug_do_cb fuel env p st = Some st'" "events st' = events st @ evs"
    "list_all2 (accounts env (bios st)) evs gs" "concat gs = chain p" "plugs_ok chain (bios st') (ps @ qs)"
    "\<forall>y\<in>set (concat (map chain (ps @ qs))). bios st' y = bios st y"
proof -
  have p: "plugged (bios st) p (chain p)" "distinct (chain p)" "\<forall>x\<in>set (chain p). bio_ok (bios st x)"
    using ok by (simp_all add: plugs_ok_def)
  obtain st' evs gs where r: "kfio_unplug_do_cb fuel env p st = Some st'" "events st' = events st @ evs"
    "list_all2 (accounts env (bios st)) evs gs" "concat gs = chain p" "\<forall>y. y \<notin> set (chain p) \<longrightarrow> bios st' y = bios st y"
    using unplug_do_cb_frame [OF assms(1) p assms(3)] by blast
  have "plugs_ok chain (bios st') (ps @ qs)" using plugs_ok_rest [OF ok r(5)] .
  moreover have "y \<notin> set (chain p)" if "y \<in> set (concat (map chain (ps @ qs)))" for y
    using that ok by (auto simp: plugs_ok_def)
  ultimately show ?thesis using that [of st' evs gs] r by blast
qed

lemma accounts_then:
  assumes "list_all2 (accounts env h) evs gs" and "list_all2 (accounts env h') evs2 gs2"
    and "\<forall>y\<in>set rest. h' y = h y" and "mset (concat gs2) + M = mset rest"
  shows "list_all2 (accounts env h) (evs @ evs2) (gs @ gs2)"
proof -
  have "set (concat gs2) \<subseteq> set rest" using assms(4) by (metis mset_subset_eq_add_left set_mset_mono set_mset_mset)
  then have "list_all2 (accounts env h) evs2 gs2" using accounts_all_cong [OF assms(2), of h] assms(3) by blast
  then show ?thesis using assms(1) by (simp add: list_all2_appendI)
qed

text \<open>An action that runs the plug \<open>p\<close>, and what is left to run behind it.\<close>

lemma all_accounted_run:
  assumes env: "fresh_alloc env" and may: "may_run fuel chain (x # acts) s"
    and x: "do_act fuel env x s = map_option (\<lambda>st. s\<lparr>pblk := st, kblockd := w\<rparr>) (kfio_unplug_do_cb fuel env p (pblk s))"
    and l: "kblockd s @ unplugged (x # acts) = ps @ p # qs" "w @ unplugged acts = ps @ qs"
    and IH: "\<And>s. may_run fuel chain acts s \<Longrightarrow> all_accounted fuel env chain acts s"
  shows "all_accounted fuel env chain (x # acts) s"
proof -
  have ok: "plugs_ok chain (bios (pblk s)) (ps @ p # qs)" and f: "length (chain p) \<le> fuel"
    and lens: "\<forall>p\<in>set (ps @ qs). length (chain p) \<le> fuel"
    using may unfolding may_run_def l by simp_all
  obtain st' evs gs where r: "kfio_unplug_do_cb fuel env p (pblk s) = Some st'" "events st' = events (pblk s) @ evs"
    "list_all2 (accounts env (bios (pblk s))) evs gs" "concat gs = chain p" "plugs_ok chain (bios st') (ps @ qs)"
    "\<forall>y\<in>set (concat (map chain (ps @ qs))). bios st' y = bios (pblk s) y"
    using run_plug [OF env ok f] by blast
  let ?s = "s\<lparr>pblk := st', kblockd := w\<rparr>"
  have "may_run fuel chain acts ?s" using r(5) lens by (simp add: may_run_def l(2))
  from IH [OF this] obtain s' evs2 gs2 where i: "plug_run fuel env acts ?s = Some s'" "events (pblk s') = events st' @ evs2"
    "list_all2 (accounts env (bios st')) evs2 gs2" "plugs_ok chain (bios (pblk s')) (kblockd s')"
    "mset (concat gs2) + mset (concat (map chain (kblockd s'))) = mset (concat (map chain (ps @ qs)))"
    by (auto simp: all_accounted_def l(2))
  have "plug_run fuel env (x # acts) s = Some s'" using x r(1) i(1) by simp
  moreover have "list_all2 (accounts env (bios (pblk s))) (evs @ evs2) (gs @ gs2)" using r(3) i(3) r(6) i(5) by (rule accounts_then)
  moreover have "mset (concat (gs @ gs2)) + mset (concat (map chain (kblockd s'))) = mset (concat (map chain (ps @ p # qs)))"
    using i(5) r(4) by simp
  ultimately show ?thesis unfolding all_accounted_def l using r(2) i(2,4)
    by (intro exI [of _ s'] exI [of _ "evs @ evs2"] exI [of _ "gs @ gs2"]) simp
qed

lemma all_accounted:
  assumes env: "fresh_alloc env"
  shows "may_run fuel chain acts s \<Longrightarrow> all_accounted fuel env chain acts s"
proof (induction acts arbitrary: s)
  case Nil
  then show ?case by (simp add: all_accounted_def may_run_def)
next
  case (Cons x acts)
  note run = all_accounted_run [OF env Cons.prems _ _ _ Cons.IH]
  show ?case
  proof (cases x)
    case (Unplug p b)
    show ?thesis
    proof (cases b)
      case True
      let ?s = "s\<lparr>kblockd := kblockd s @ [p]\<rparr>"
      have "plug_run fuel env (x # acts) s = plug_run fuel env acts ?s" using Unplug True by (simp add: kfio_unplug_cb_def)
      then show ?thesis using Cons.IH [of ?s] Cons.prems Unplug by (simp add: all_accounted_def may_run_def)
    next
      case False
      show ?thesis by (rule run [of "kblockd s" p "kblockd s"]) (cases s, use Unplug False in \<open>simp_all add: kfio_unplug_cb_def\<close>)
    qed
  next
    case Work
    show ?thesis
    proof (cases "kblockd s")
      case Nil
      then show ?thesis using Cons.IH [of s] Cons.prems Work by (simp add: kblockd_work_def all_accounted_def may_run_def)
    next
      case (Cons p ps)
      then show ?thesis by (intro run [of ps p "[]" "ps @ unplugged acts"]) (use Work in \<open>simp_all add: kblockd_work_def\<close>)
    qed
  qed
qed

text \<open>
  C36: Plugs flushed by running tasks are started at once, plugs flushed by the scheduler by the worker.  In every order of flushes
  and work the calls return, every bio of a flushed plug is accounted for exactly once - it is ended with -EIO or belongs to one submitted
  request that describes exactly its bios - or still waits in a plug on the worker's queue, which is as it was when it was flushed.
\<close>

theorem kfio_unplug_any_order:
  assumes env: "fresh_alloc env" and "plugs_ok chain (bios (pblk s)) (kblockd s @ unplugged acts)"
    and "\<forall>p\<in>set (kblockd s @ unplugged acts). length (chain p) \<le> fuel"
  shows "\<exists>s' evs gs. plug_run fuel env acts s = Some s' \<and> events (pblk s') = events (pblk s) @ evs \<and>
      list_all2 (accounts env (bios (pblk s))) evs gs \<and> plugs_ok chain (bios (pblk s')) (kblockd s') \<and>
      mset (concat gs) + mset (concat (map chain (kblockd s'))) = mset (concat (map chain (kblockd s @ unplugged acts)))"
  using all_accounted [OF env, of fuel chain acts s] assms(2,3) by (simp add: may_run_def all_accounted_def)

theorem kfio_unplug_any_order_witness:
  "\<exists>s' evs gs. plug_run 2 ex_env [Unplug ex_plug True, Unplug ex_plug2 False, Work] \<lparr>pblk = ex_state, kblockd = []\<rparr> = Some s' \<and>
     events (pblk s') = evs \<and> list_all2 (accounts ex_env ex_bios) evs gs \<and>
     mset (concat gs) + mset (concat (map ex_chain (kblockd s'))) = {#16, 32, 48#}"
proof -
  let ?s = "\<lparr>pblk = ex_state, kblockd = []\<rparr>" and ?a = "[Unplug ex_plug True, Unplug ex_plug2 False, Work]"
  have c: "ex_chain ex_plug = [16, 32]" "ex_chain ex_plug2 = [48]" by (simp_all add: ex_chain_def ex_plug_def ex_plug2_def)
  have p: "plugged (bios ex_state) ex_plug2 [48]" by (simp add: plugged_def ex_state_def ex_plug2_def ex_bios_def)
  have ok: "plugs_ok ex_chain (bios (pblk ?s)) (kblockd ?s @ unplugged ?a)"
    using ex_ok ex_plugged p by (simp add: plugs_ok_def c)
  have f: "\<forall>p\<in>set (kblockd ?s @ unplugged ?a). length (ex_chain p) \<le> 2" by (simp add: c)
  have s: "events ex_state = []" "bios ex_state = ex_bios" by (simp_all add: ex_state_def)
  obtain s' evs gs where r: "plug_run 2 ex_env ?a ?s = Some s'" "events (pblk s') = events (pblk ?s) @ evs"
    "list_all2 (accounts ex_env (bios (pblk ?s))) evs gs"
    "mset (concat gs) + mset (concat (map ex_chain (kblockd s'))) = mset (concat (map ex_chain (kblockd ?s @ unplugged ?a)))"
    using kfio_unplug_any_order [OF ex_fresh ok f] by blast
  have "mset (concat gs) + mset (concat (map ex_chain (kblockd s'))) = {#16, 32, 48#}" using r(4) by (simp add: c)
  then show ?thesis using r(1-3) s by (intro exI [of _ s'] exI [of _ evs] exI [of _ gs]) simp
qed

subsection \<open>The test of the callbacks\<close>

text \<open>
  One test decides for good.  Plugging is turned off exactly when the last callback of the test ran with interrupts off; when the
  kernel does not call it at all, plugging stays on.
\<close>

lemma test_safe_plugging_value:
  "test_safe_plugging irqs (- 1) = (if irqs \<noteq> [] \<and> last irqs then 1 else 0)"
proof (cases irqs rule: rev_cases)
  case (snoc ys y)
  then show ?thesis by (simp add: test_safe_plugging_def safe_unplug_cb_def)
qed (simp add: test_safe_plugging_def)

lemma test_safe_plugging_once: "test_safe_plugging irqs' (test_safe_plugging irqs d) = test_safe_plugging irqs d"
  by (simp add: test_safe_plugging_def Let_def)

lemma unsafe_never_plugs:
  assumes "kfio_alloc_queue mr (irqs @ [True]) (- 1) rq dp = (dangerous, r)"
  shows "fst (kfio_should_plug uw dangerous mem disk st) = None"
  using assms test_safe_plugging_value [of "irqs @ [True]"]
  by (auto simp: kfio_alloc_queue_def kfio_should_plug_def split: option.splits prod.splits)

text \<open>A successful atomic write of \<open>2 ^ 31\<close> sectors or more is reported as an error.\<close>

lemma vectored_atomic_result:
  assumes "handle d v n (if up then FIO_ATOMIC_WRITE_USER_PAGES else 0) = (0, k)"
  shows "kfio_vectored_atomic True handle (Some d) (Some v) n up = sint k"
  using assms by (simp add: kfio_vectored_atomic_def)

end
