(* ===== verification/Kblock_Expose.thy ===== *)
theory Kblock_Expose
  imports Kcondvar
begin

text \<open>
  The handshake of \<open>linux_bdev_expose_disk\<close> with the worker that adds the disk (\<open>kblock.c\<close>).

  The exposing thread is thread 0 and the worker thread 1 of the condition variable \<open>state_cv\<close> with its lock, which are those of
  \<open>Kcondvar\<close>; every other thread may lock, wait, signal and broadcast at any time.  The parameter block is allocated when the run
  starts.  A step that reads or writes it when it is freed sets \<open>fault\<close>.

  The lemmas show that the block outlives its uses, that the exposing thread goes on only when the disk has been added, and that
  it never sleeps through the worker's broadcast.
\<close>

datatype expose_pc = M_start | M_loop | M_wait | M_leave | M_free | M_returned

datatype worker_pc = W_queued | W_added | W_locked | W_told | W_returned

record expose_sys =
  cvs :: cv_sys
  main_pc :: expose_pc
  work_pc :: worker_pc
  param_done :: bool
  param_live :: bool
  disk_added :: bool
  fault :: bool

text \<open>An access to the parameter block.\<close>

definition touch :: "expose_sys \<Rightarrow> expose_sys" where
  "touch s = s\<lparr>fault := (fault s \<or> \<not> param_live s)\<rparr>"

text \<open>The steps of the two threads.\<close>

inductive pair_step :: "expose_sys \<Rightarrow> expose_sys \<Rightarrow> bool" where
  m_lock: "main_pc s = M_start \<Longrightarrow> pc (cvs s) 0 = Out \<Longrightarrow> fusion_spin_lock_irqsave 0 (cvs s) = Some c \<Longrightarrow>
    pair_step s (s\<lparr>main_pc := M_loop, cvs := set_pc 0 (Holds True (irqs (cvs s) 0)) c\<rparr>)"
| m_done: "main_pc s = M_loop \<Longrightarrow> param_done s \<Longrightarrow> pair_step s ((touch s)\<lparr>main_pc := M_leave\<rparr>)"
| m_wait: "main_pc s = M_loop \<Longrightarrow> \<not> param_done s \<Longrightarrow> pc (cvs s) 0 = Holds b e \<Longrightarrow>
    pair_step s ((touch s)\<lparr>main_pc := M_wait, cvs := set_pc 0 (Prepared (fusion_spin_is_irqsaved (cvs s)) e) (condvar_wait_prepare 0 (cvs s))\<rparr>)"
| m_release: "main_pc s = M_wait \<Longrightarrow> pc (cvs s) 0 = Prepared b e \<Longrightarrow>
    pair_step s (s\<lparr>cvs := set_pc 0 (Asleep b e) (wait_unlock 0 b (cvs s))\<rparr>)"
| m_schedule: "main_pc s = M_wait \<Longrightarrow> pc (cvs s) 0 = Asleep b e \<Longrightarrow> tstate (cvs s) 0 = TASK_RUNNING \<Longrightarrow>
    pair_step s (s\<lparr>cvs := set_pc 0 (Relock b e) (cvs s)\<rparr>)"
| m_relock: "main_pc s = M_wait \<Longrightarrow> pc (cvs s) 0 = Relock b e \<Longrightarrow> wait_relock 0 b (cvs s) = Some c \<Longrightarrow>
    pair_step s (s\<lparr>cvs := set_pc 0 (Finishing b e) c\<rparr>)"
| m_finish: "main_pc s = M_wait \<Longrightarrow> pc (cvs s) 0 = Finishing b e \<Longrightarrow>
    pair_step s (s\<lparr>main_pc := M_loop, cvs := set_pc 0 (Holds b e) (finish_wait 0 (cvs s))\<rparr>)"
| m_unlock: "main_pc s = M_leave \<Longrightarrow> pc (cvs s) 0 = Holds True e \<Longrightarrow>
    pair_step s (s\<lparr>main_pc := M_free, cvs := set_pc 0 Out (fusion_spin_unlock_irqrestore 0 (cvs s))\<rparr>)"
| m_free: "main_pc s = M_free \<Longrightarrow> pair_step s ((touch s)\<lparr>main_pc := M_returned, param_live := False\<rparr>)"
| w_add: "work_pc s = W_queued \<Longrightarrow> pair_step s ((touch s)\<lparr>work_pc := W_added, disk_added := True\<rparr>)"
| w_lock: "work_pc s = W_added \<Longrightarrow> pc (cvs s) 1 = Out \<Longrightarrow> fusion_spin_lock_irqsave 1 (cvs s) = Some c \<Longrightarrow>
    pair_step s (s\<lparr>work_pc := W_locked, cvs := set_pc 1 (Holds True (irqs (cvs s) 1)) c\<rparr>)"
| w_tell: "work_pc s = W_locked \<Longrightarrow>
    pair_step s ((touch s)\<lparr>work_pc := W_told, param_done := True, cvs := fusion_condvar_broadcast (cvs s)\<rparr>)"
| w_unlock: "work_pc s = W_told \<Longrightarrow> pc (cvs s) 1 = Holds True e \<Longrightarrow>
    pair_step s (s\<lparr>work_pc := W_returned, cvs := set_pc 1 Out (fusion_spin_unlock_irqrestore 1 (cvs s))\<rparr>)"

text \<open>The same among all other users of the lock.\<close>

inductive expose_step :: "expose_sys \<Rightarrow> expose_sys \<Rightarrow> bool" where
  own: "pair_step s s' \<Longrightarrow> expose_step s s'"
| others: "cv_step (cvs s) c \<Longrightarrow> pc c 0 = pc (cvs s) 0 \<Longrightarrow> pc c 1 = pc (cvs s) 1 \<Longrightarrow> expose_step s (s\<lparr>cvs := c\<rparr>)"

definition expose_start :: "(nat \<Rightarrow> bool) \<Rightarrow> expose_sys" where
  "expose_start on = \<lparr>cvs = cv_start on, main_pc = M_start, work_pc = W_queued, param_done = False, param_live = True,
     disk_added = False, fault = False\<rparr>"

definition expose_inv :: "expose_sys \<Rightarrow> bool" where
  "expose_inv s \<longleftrightarrow> cv_inv (cvs s) \<and> \<not> fault s \<and> (param_live s \<longleftrightarrow> main_pc s \<noteq> M_returned) \<and>
     (param_done s \<longleftrightarrow> work_pc s \<in> {W_told, W_returned}) \<and> (disk_added s \<longleftrightarrow> work_pc s \<noteq> W_queued) \<and>
     (main_pc s \<in> {M_leave, M_free, M_returned} \<longrightarrow> param_done s) \<and>
     (param_done s \<longrightarrow> tstate (cvs s) 0 = TASK_RUNNING)"

subsection \<open>The two threads alone\<close>

text \<open>Where the threads are in the functions of the condition variable.\<close>

fun main_at :: "expose_pc \<Rightarrow> bool \<Rightarrow> cv_pc \<Rightarrow> bool" where
  "main_at M_loop told (Holds True e) = True"
| "main_at M_leave told (Holds True e) = True"
| "main_at M_wait told (Prepared True e) = (\<not> told)"
| "main_at M_wait told (Asleep True e) = True"
| "main_at M_wait told (Relock True e) = told"
| "main_at M_wait told (Finishing True e) = told"
| "main_at m told Out = (m \<in> {M_start, M_free, M_returned})"
| "main_at m told p = False"

fun work_at :: "worker_pc \<Rightarrow> cv_pc \<Rightarrow> bool" where
  "work_at w (Holds True e) = (w \<in> {W_locked, W_told})"
| "work_at w Out = (w \<in> {W_queued, W_added, W_returned})"
| "work_at w p = False"

definition pair_inv :: "expose_sys \<Rightarrow> bool" where
  "pair_inv s \<longleftrightarrow> expose_inv s \<and> main_at (main_pc s) (param_done s) (pc (cvs s) 0) \<and> work_at (work_pc s) (pc (cvs s) 1) \<and>
     (\<forall>t. t \<noteq> 0 \<longrightarrow> t \<noteq> 1 \<longrightarrow> pc (cvs s) t = Out) \<and>
     (main_pc s = M_wait \<longrightarrow> \<not> param_done s \<longrightarrow> tstate (cvs s) 0 \<noteq> TASK_RUNNING)"

fun work_rank :: "worker_pc \<Rightarrow> nat" where
  "work_rank W_queued = 4"
| "work_rank W_added = 3"
| "work_rank W_locked = 2"
| "work_rank W_told = 1"
| "work_rank W_returned = 0"

fun main_rank :: "expose_pc \<Rightarrow> bool \<Rightarrow> cv_pc \<Rightarrow> nat" where
  "main_rank M_start told p = 9"
| "main_rank M_loop told p = (if told then 3 else 8)"
| "main_rank M_wait told (Prepared b e) = 7"
| "main_rank M_wait told (Asleep b e) = 6"
| "main_rank M_wait told (Relock b e) = 5"
| "main_rank M_wait told p = 4"
| "main_rank M_leave told p = 2"
| "main_rank M_free told p = 1"
| "main_rank M_returned told p = 0"

definition expose_rank :: "expose_sys \<Rightarrow> nat" where
  "expose_rank s = work_rank (work_pc s) + main_rank (main_pc s) (param_done s) (pc (cvs s) 0)"

subsection \<open>The condition variable\<close>

text \<open>Every step moves the condition variable by a step of \<open>Kcondvar\<close>, or not at all.\<close>

lemma pair_is_cv_step: "pair_step s s' \<Longrightarrow> cv_step (cvs s) (cvs s') \<or> cvs s' = cvs s"
  by (induction rule: pair_step.induct) (auto simp: touch_def intro: cv_step.intros)

lemma expose_is_cv_step: "expose_step s s' \<Longrightarrow> cv_step (cvs s) (cvs s') \<or> cvs s' = cvs s"
  by (induction rule: expose_step.induct) (auto simp: pair_is_cv_step)

lemma broadcast_wakes: "cv_inv s \<Longrightarrow> tstate (fusion_condvar_broadcast s) t = TASK_RUNNING"
  using sleepers_all [of s t] by (auto simp: cv_inv_def fusion_condvar_broadcast_def fold_wake_tstate)

lemmas cv_tstates = taken_def wait_unlock_def fusion_spin_unlock_def fusion_spin_unlock_irqrestore_def finish_wait_def set_pc_def

lemma signal_keeps_running: "tstate s t = TASK_RUNNING \<Longrightarrow> tstate (fusion_condvar_signal s) t = TASK_RUNNING"
  by (simp add: fusion_condvar_signal_def wake_def split: list.splits)

lemma broadcast_keeps_running: "tstate s t = TASK_RUNNING \<Longrightarrow> tstate (fusion_condvar_broadcast s) t = TASK_RUNNING"
  by (simp add: fusion_condvar_broadcast_def fold_wake_tstate)

lemma prepare_keeps_running:
  "s' \<in> {condvar_wait_prepare u s, fusion_condvar_timedwait_prepare u s, fusion_condvar_timedwait_noload_prepare u s} \<Longrightarrow>
   t \<noteq> u \<Longrightarrow> tstate s' t = tstate s t"
  by (auto simp: condvar_wait_prepare_def fusion_condvar_timedwait_prepare_def fusion_condvar_timedwait_noload_prepare_def
      timedwait_prepare_def prepare_to_wait_exclusive_def)

text \<open>A runnable thread stops being runnable only by its own wait.\<close>

lemma running_until_wait:
  "cv_step s s' \<Longrightarrow> pc s' t = pc s t \<Longrightarrow> tstate s t = TASK_RUNNING \<Longrightarrow> tstate s' t = TASK_RUNNING"
proof (induction rule: cv_step.induct)
  case (wait_prepare s u b e s')
  have "t \<noteq> u" using wait_prepare by (auto simp: set_pc_def)
  then show ?case using wait_prepare prepare_keeps_running [OF wait_prepare.hyps(2)] by (simp add: set_pc_def)
qed (auto simp: cv_tstates signal_keeps_running broadcast_keeps_running dest!: takes relock_takes)

lemma expose_step_inv: "expose_inv s \<Longrightarrow> expose_step s s' \<Longrightarrow> expose_inv s'"
proof -
  assume i: "expose_inv s" and st: "expose_step s s'"
  have cv: "cv_inv (cvs s)" using i by (simp add: expose_inv_def)
  then have "cv_inv (cvs s')" using expose_is_cv_step [OF st] cv_step_inv by auto
  with st i cv show ?thesis
  proof (cases rule: expose_step.cases)
    case own
    then show ?thesis using i cv \<open>cv_inv (cvs s')\<close>
      by (cases rule: pair_step.cases) (auto simp: expose_inv_def touch_def broadcast_wakes cv_tstates dest!: takes relock_takes)
  qed (auto simp: expose_inv_def running_until_wait)
qed

interpretation expose: transition_invariant expose_step expose_inv
  by unfold_locales (rule expose_step_inv)

lemma expose_start_inv: "expose_inv (expose_start on)"
  by (simp add: expose_inv_def expose_start_def cv_start_inv)



text \<open>The holder of the lock, as far as the program counters tell.\<close>

lemma not_irqsaved_flags: "irq_flags e \<noteq> FUSION_SPINLOCK_NOT_IRQSAVED"
  by (simp add: irq_flags_def FUSION_SPINLOCK_NOT_IRQSAVED_def)

lemma pair_owner:
  assumes "cv_inv c"
  shows "pc c t = Holds b e \<or> pc c t = Prepared b e \<or> pc c t = Finishing b e \<Longrightarrow> owner c = Some t"
    and "pc c t = Out \<or> pc c t = Asleep b e \<or> pc c t = Relock b e \<Longrightarrow> owner c \<noteq> Some t"
    and "pc c t = Holds True e \<Longrightarrow> fusion_spin_is_irqsaved c"
  using assms not_irqsaved_flags [of e] by (auto simp: cv_inv_def locks_inv_def fusion_spin_is_irqsaved_def dest!: spec [of _ t])

lemma main_at_cases:
  assumes "main_at m told p"
  obtains e where "p = Holds True e" "m = M_loop \<or> m = M_leave" | e where "p = Prepared True e" "m = M_wait" "\<not> told"
  | e where "p = Asleep True e" "m = M_wait" | e where "p = Relock True e" "m = M_wait" "told"
  | e where "p = Finishing True e" "m = M_wait" "told" | "p = Out" "m \<in> {M_start, M_free, M_returned}"
  using assms by (cases "(m, told, p)" rule: main_at.cases) auto

lemma work_at_cases:
  assumes "work_at w p"
  obtains e where "p = Holds True e" "w \<in> {W_locked, W_told}" | "p = Out" "w \<in> {W_queued, W_added, W_returned}"
  using assms by (cases "(w, p)" rule: work_at.cases) auto

lemma wake_pc: "pc (fold wake ts s) = pc s"
  by (induction ts arbitrary: s) (auto simp: wake_def)

lemma pair_step_inv: "pair_inv s \<Longrightarrow> pair_step s s' \<Longrightarrow> pair_inv s'"
proof -
  assume i: "pair_inv s" and st: "pair_step s s'"
  have e: "expose_inv s'" using i expose_step_inv [OF _ own [OF st]] by (simp add: pair_inv_def)
  have cv: "cv_inv (cvs s)" using i by (simp add: pair_inv_def expose_inv_def)
  have a: "main_at (main_pc s) (param_done s) (pc (cvs s) 0)" "work_at (work_pc s) (pc (cvs s) 1)" using i by (simp_all add: pair_inv_def)
  show ?thesis using st
  proof (cases rule: pair_step.cases)
    case w_tell
    then obtain x where "pc (cvs s) 1 = Holds True x" using a(2) by (auto elim: work_at_cases)
    then have "owner (cvs s) = Some 1" using pair_owner(1) [OF cv] by blast
    then have "main_at (main_pc s) True (pc (cvs s) 0)"
      using a(1) pair_owner(1) [OF cv, of 0] by (auto elim!: main_at_cases)
    then show ?thesis using w_tell i e a(2) \<open>pc (cvs s) 1 = Holds True x\<close>
      by (auto simp: pair_inv_def touch_def fusion_condvar_broadcast_def wake_pc)
  qed (use i e a pair_owner(3) [OF cv] in \<open>auto simp: pair_inv_def touch_def cv_tstates condvar_wait_prepare_def prepare_to_wait_exclusive_def
      elim!: main_at_cases work_at_cases dest!: takes relock_takes\<close>)
qed

interpretation pair: transition_invariant pair_step pair_inv
  by unfold_locales (rule pair_step_inv)

lemma pair_start_inv: "pair_inv (expose_start on)"
  using expose_start_inv [of on] by (simp add: pair_inv_def) (simp add: expose_start_def cv_start_def)

text \<open>Every step brings the two threads nearer to the end.\<close>

lemma pair_step_rank: "pair_inv s \<Longrightarrow> pair_step s s' \<Longrightarrow> expose_rank s' < expose_rank s"
proof -
  assume i: "pair_inv s" and st: "pair_step s s'"
  have a: "main_at (main_pc s) (param_done s) (pc (cvs s) 0)" using i by (simp add: pair_inv_def)
  have r: "main_rank m True p \<le> main_rank m False p" for m p by (cases m; cases p) auto
  show ?thesis using st
    by (cases rule: pair_step.cases)
      (use i a r in \<open>auto simp: expose_rank_def touch_def cv_tstates fusion_condvar_broadcast_def wake_pc pair_inv_def expose_inv_def
        elim!: main_at_cases dest!: takes relock_takes\<close>)
qed

text \<open>While one of them has not returned, one of them can go on.\<close>

lemma lock_free_or_worker:
  assumes i: "pair_inv s" and "owner (cvs s) \<noteq> Some 0"
  shows "owner (cvs s) = None \<or> work_pc s \<in> {W_locked, W_told}"
proof (cases "owner (cvs s)")
  case (Some t)
  have cv: "cv_inv (cvs s)" using i by (simp add: pair_inv_def expose_inv_def)
  have "pc (cvs s) t \<noteq> Out" using pair_owner(2) [OF cv, of t] Some by blast
  then have "t = 1" using i Some assms(2) by (auto simp: pair_inv_def)
  then show ?thesis using i \<open>pc (cvs s) t \<noteq> Out\<close> by (auto simp: pair_inv_def elim: work_at_cases)
qed simp

lemma worker_progress:
  assumes i: "pair_inv s" and "work_pc s \<noteq> W_returned" and "owner (cvs s) = None \<or> work_pc s \<noteq> W_added"
  shows "\<exists>s'. pair_step s s'"
proof (cases "work_pc s")
  case W_queued
  then show ?thesis by (blast intro: w_add)
next
  case W_added
  then have "pc (cvs s) 1 = Out" using i by (auto simp: pair_inv_def elim: work_at_cases)
  moreover have "fusion_spin_lock_irqsave 1 (cvs s) = Some (taken True 1 (cvs s))"
    using W_added assms(3) by (simp add: fusion_spin_lock_irqsave_def taken_def)
  ultimately show ?thesis using w_lock [OF W_added] by blast
next
  case W_locked
  then show ?thesis by (blast intro: w_tell)
next
  case W_told
  then obtain e where "pc (cvs s) 1 = Holds True e" using i by (auto simp: pair_inv_def elim: work_at_cases)
  then show ?thesis using w_unlock [OF W_told] by blast
qed (use assms(2) in simp)

lemma free_locks:
  assumes "owner c = None"
  shows "fusion_spin_lock_irqsave t c = Some (taken True t c)" "wait_relock t True c = Some (taken True t c)"
  using assms by (simp_all add: fusion_spin_lock_irqsave_def wait_relock_def taken_def)

text \<open>The exposing thread waits for the worker only: asleep, or for the lock.\<close>

lemma main_progress:
  assumes i: "pair_inv s" and m: "main_pc s \<noteq> M_returned"
  shows "(\<exists>s'. pair_step s s') \<or> owner (cvs s) \<noteq> Some 0 \<and> work_pc s \<noteq> W_returned"
proof -
  have cv: "cv_inv (cvs s)" using i by (simp add: pair_inv_def expose_inv_def)
  have "main_at (main_pc s) (param_done s) (pc (cvs s) 0)" using i by (simp add: pair_inv_def)
  then show ?thesis
  proof (cases rule: main_at_cases)
    case (1 e)
    then show ?thesis using m_done [of s] m_wait [of s] m_unlock [of s e] by blast
  next
    case (2 e)
    then show ?thesis using m_release [of s] by blast
  next
    case (3 e)
    then have o: "owner (cvs s) \<noteq> Some 0" using pair_owner(2) [OF cv, of 0] by blast
    have "tstate (cvs s) 0 \<noteq> TASK_RUNNING \<Longrightarrow> work_pc s \<noteq> W_returned" using i by (auto simp: pair_inv_def expose_inv_def)
    then show ?thesis using 3 o m_schedule [of s] by blast
  next
    case (4 e)
    then have o: "owner (cvs s) \<noteq> Some 0" using pair_owner(2) [OF cv, of 0] by blast
    then show ?thesis using lock_free_or_worker [OF i o] free_locks(2) [of "cvs s" 0] m_relock [of s True e] 4 by auto
  next
    case (5 e)
    then show ?thesis using m_finish [of s] by blast
  next
    case 6
    then have o: "owner (cvs s) \<noteq> Some 0" using pair_owner(2) [OF cv, of 0] by blast
    then show ?thesis using lock_free_or_worker [OF i o] free_locks(1) [of "cvs s" 0] m_lock [of s] m_free [of s] 6 m by auto
  qed
qed

lemma pair_progress:
  assumes i: "pair_inv s" and "main_pc s \<noteq> M_returned \<or> work_pc s \<noteq> W_returned"
  shows "\<exists>s'. pair_step s s'"
proof -
  have cv: "cv_inv (cvs s)" using i by (simp add: pair_inv_def expose_inv_def)
  have "main_pc s = M_returned \<Longrightarrow> owner (cvs s) \<noteq> Some 0"
    using i pair_owner(2) [OF cv, of 0] by (auto simp: pair_inv_def elim!: main_at_cases)
  then consider "\<exists>s'. pair_step s s'" | "owner (cvs s) \<noteq> Some 0" "work_pc s \<noteq> W_returned"
    using main_progress [OF i] assms(2) by blast
  then show ?thesis
  proof cases
    case 2
    then show ?thesis using worker_progress [OF i] lock_free_or_worker [OF i] by auto
  qed simp
qed



end
