(* ===== verification/Kblock_Ops.thy ===== *)
theory Kblock_Ops
  imports Kblock_Disk
begin

text \<open>
  The interface between the core and a block device (\<open>include/fio/port/kblock.h\<close>, \<open>kbio.h\<close>): the optional operations of a device, the
  optional callbacks of its storage interface, the size of a chain of requests, and the last step of the life of a disk.

  An operation that a device may lack is an option; a chain is the list of its requests.  The core's part of a device is an arbitrary
  state \<open>'s\<close> that the operations work on.

  The lemmas show what each function does with and without the operation, that the lock notifications pair up on the Linux interface, and
  when the size of a chain is the sum of the sizes of its requests.
\<close>

subsection \<open>Operations of a device\<close>

definition FIO_BDEV_NOTIFY_START :: int where "FIO_BDEV_NOTIFY_START = 1"
definition FIO_BDEV_NOTIFY_HALT :: int where "FIO_BDEV_NOTIFY_HALT = 2"

text \<open>\<open>'u\<close> is the type of UUIDs.\<close>

record ('s, 'u) bdev_ops =
  bdev_do_release :: "('s \<Rightarrow> 's) option"
  bdev_do_notify :: "(int \<Rightarrow> 's \<Rightarrow> int \<times> 's) option"
  bdev_do_supports :: "('u \<Rightarrow> 's \<Rightarrow> int) option"
  bdev_do_get_identifier :: "('s \<Rightarrow> 'u option) option"

definition fio_bdev_release :: "('s, 'u) bdev_ops \<Rightarrow> 's \<Rightarrow> 's" where
  "fio_bdev_release ops s = (case bdev_do_release ops of Some f \<Rightarrow> f s | None \<Rightarrow> s)"

definition fio_bdev_supports :: "('s, 'u) bdev_ops \<Rightarrow> 'u \<Rightarrow> 's \<Rightarrow> int" where
  "fio_bdev_supports ops uuid s = (case bdev_do_supports ops of None \<Rightarrow> 0 | Some f \<Rightarrow> f uuid s)"

definition fio_bdev_get_identifier :: "('s, 'u) bdev_ops \<Rightarrow> 's \<Rightarrow> 'u option" where
  "fio_bdev_get_identifier ops s = (case bdev_do_get_identifier ops of None \<Rightarrow> None | Some f \<Rightarrow> f s)"

definition fio_bdev_notify_start :: "('s, 'u) bdev_ops \<Rightarrow> 's \<Rightarrow> int \<times> 's" where
  "fio_bdev_notify_start ops s = (case bdev_do_notify ops of None \<Rightarrow> (0, s) | Some f \<Rightarrow> f FIO_BDEV_NOTIFY_START s)"

definition fio_bdev_notify_halt :: "('s, 'u) bdev_ops \<Rightarrow> 's \<Rightarrow> int \<times> 's" where
  "fio_bdev_notify_halt ops s = (case bdev_do_notify ops of None \<Rightarrow> (0, s) | Some f \<Rightarrow> f FIO_BDEV_NOTIFY_HALT s)"

subsection \<open>Callbacks of the storage interface\<close>

text \<open>The callbacks that this port sets, in \<open>bdev_sif\<close> of \<open>kblock.c\<close>, work on the disk of the device; None is a device without one.\<close>

record 's storage_interface =
  sif_backpressure :: "(bool \<Rightarrow> 's \<Rightarrow> 's) option"
  sif_lock_pending :: "(bool \<Rightarrow> 's \<Rightarrow> 's) option"

definition bdev_sif :: "kfio_disk option storage_interface" where
  "bdev_sif = \<lparr>sif_backpressure = Some linux_bdev_backpressure, sif_lock_pending = Some linux_bdev_lock_pending\<rparr>"

definition fio_bdev_on_backpressure :: "'s storage_interface \<Rightarrow> bool \<Rightarrow> 's \<Rightarrow> 's" where
  "fio_bdev_on_backpressure sif enter s = (case sif_backpressure sif of Some f \<Rightarrow> f enter s | None \<Rightarrow> s)"

definition fio_bdev_lock_begin :: "'s storage_interface \<Rightarrow> 's \<Rightarrow> 's" where
  "fio_bdev_lock_begin sif s = (case sif_lock_pending sif of Some f \<Rightarrow> f True s | None \<Rightarrow> s)"

definition fio_bdev_lock_end :: "'s storage_interface \<Rightarrow> 's \<Rightarrow> 's" where
  "fio_bdev_lock_end sif s = (case sif_lock_pending sif of Some f \<Rightarrow> f False s | None \<Rightarrow> s)"

subsection \<open>Chains of requests\<close>

fun chain_sum :: "kfio_bio list \<Rightarrow> u64 \<Rightarrow> u64" where
  "chain_sum [] retval = retval"
| "chain_sum (b # bs) retval = chain_sum bs (retval + length64 (fbio_range b))"

definition kfio_bio_chain_size_blocks :: "kfio_bio list \<Rightarrow> u64" where
  "kfio_bio_chain_size_blocks bs = chain_sum bs 0"

text \<open>\<open>bdev_of\<close> is \<open>fbio_bdev\<close>; the function reads it in the first request of the chain, which must exist.\<close>

definition kfio_bio_chain_size_bytes :: "(kfio_bio \<Rightarrow> fio_bdev) \<Rightarrow> kfio_bio list \<Rightarrow> u64 option" where
  "kfio_bio_chain_size_bytes bdev_of bs =
     (case bs of [] \<Rightarrow> None | b # _ \<Rightarrow> Some (kfio_bio_chain_size_blocks bs * ucast (bdev_block_size (bdev_of b))))"

subsection \<open>The end of a disk\<close>

text \<open>What is left of \<open>bdev_gd\<close>; None as result of a device that has no disk, where the code follows NULL.\<close>

definition linux_bdev_destroy_disk :: "kfio_disk option \<Rightarrow> kfio_disk option option" where
  "linux_bdev_destroy_disk bdev_gd = (case bdev_gd of None \<Rightarrow> None | Some d \<Rightarrow> Some None)"

definition kfio_platform_teardown_block_interface :: int where
  "kfio_platform_teardown_block_interface = 0"

subsection \<open>Laws\<close>

lemma funpow_2: "(f ^^ 2) x = f (f x)"
  by (simp add: numeral_2_eq_2)

text \<open>
  One notification of a lock and its end leave the disk as it was, when no other is pending.  Two notifications that overlap do not: the first end
  resets the count, so that the second takes it below zero.
\<close>

lemma lock_begin_end:
  assumes "gd d \<noteq> None" and "lock_pending d = 0"
  shows "fio_bdev_lock_end bdev_sif (fio_bdev_lock_begin bdev_sif (Some d)) = Some d"
    and "map_option lock_pending (((fio_bdev_lock_end bdev_sif) ^^ 2) (((fio_bdev_lock_begin bdev_sif) ^^ 2) (Some d))) = Some (- 1)"
proof -
  obtain g where g: "gd d = Some g" using assms(1) by auto
  note lock_defs = fio_bdev_lock_begin_def fio_bdev_lock_end_def bdev_sif_def linux_bdev_lock_pending_def
  show "fio_bdev_lock_end bdev_sif (fio_bdev_lock_begin bdev_sif (Some d)) = Some d"
    using g assms(2) by (cases d) (simp add: lock_defs)
  show "map_option lock_pending (((fio_bdev_lock_end bdev_sif) ^^ 2) (((fio_bdev_lock_begin bdev_sif) ^^ 2) (Some d))) = Some (- 1)"
    using g assms(2) by (simp add: lock_defs funpow_2)
qed

text \<open>Backpressure that was entered and left wakes whoever waits, and a device without a disk ignores it.\<close>

lemma backpressure_cycle:
  "\<not> holdoff d \<Longrightarrow> fio_bdev_on_backpressure bdev_sif False (fio_bdev_on_backpressure bdev_sif True (Some d)) = Some (disk_emit Broadcast d)"
  "fio_bdev_on_backpressure bdev_sif enter None = None"
  by (cases d; simp add: fio_bdev_on_backpressure_def bdev_sif_def linux_bdev_backpressure_def disk_emit_def)+

lemma unat_u64_of_nat: "n < 2 ^ 64 \<Longrightarrow> unat (of_nat n :: u64) = n"
  by (simp add: unat_of_nat take_bit_nat_eq_self)

lemma chain_sum_of_nat:
  "chain_sum bs (of_nat r) = of_nat (r + sum_list (map (\<lambda>b. unat (length64 (fbio_range b))) bs))"
proof (induction bs arbitrary: r)
  case (Cons b bs)
  then show ?case using Cons.IH [of "r + unat (length64 (fbio_range b))"] by (simp add: ac_simps)
qed simp

text \<open>The size in bytes is the sum over the chain, when that fits 64 bits; every request counts with the block size of the first one's device.\<close>

lemma chain_size_bytes:
  assumes "bs \<noteq> []" and "sum_list (map (\<lambda>b. unat (length64 (fbio_range b))) bs) * unat (bdev_block_size (bdev_of (hd bs))) < 2 ^ 64"
  shows "map_option unat (kfio_bio_chain_size_bytes bdev_of bs) =
    Some (sum_list (map (\<lambda>b. unat (length64 (fbio_range b))) bs) * unat (bdev_block_size (bdev_of (hd bs))))"
proof -
  obtain b bs' where bs: "bs = b # bs'" using assms(1) by (cases bs) auto
  let ?n = "sum_list (map (\<lambda>b. unat (length64 (fbio_range b))) bs)"
  have "kfio_bio_chain_size_blocks bs = of_nat ?n"
    using chain_sum_of_nat [of bs 0] by (simp add: kfio_bio_chain_size_blocks_def)
  moreover have "(ucast (bdev_block_size (bdev_of b)) :: u64) = of_nat (unat (bdev_block_size (bdev_of b)))"
    by (simp add: unsigned_ucast_eq)
  ultimately have "kfio_bio_chain_size_bytes bdev_of bs = Some (of_nat (?n * unat (bdev_block_size (bdev_of b))))"
    by (simp add: kfio_bio_chain_size_bytes_def bs)
  moreover have "unat (of_nat (?n * unat (bdev_block_size (bdev_of b))) :: u64) = ?n * unat (bdev_block_size (bdev_of b))"
    using assms(2) by (simp only: bs list.sel unat_u64_of_nat)
  ultimately show ?thesis by (simp only: option.map bs list.sel)
qed

end
