(* ===== verification/Kmem.thy ===== *)
theory Kmem
  imports Scatter Ktime Atomics
begin

text \<open>
  Memory: allocation of bytes and pages (\<open>kmem.c\<close>, \<open>kmem.h\<close>) and object caches (\<open>kcache.c\<close>, \<open>kcache.h\<close>).

  The kernel's allocators are arguments; what the code decides is the flags it gives them, the name it gives a cache and, in the build that
  counts objects, the count.  The flags themselves are the kernel's and are a record of words.

  The lemmas show that the number of pages computed for a buffer is the number of entries that mapping the buffer takes, when an
  allocation may sleep, which names of caches end with a NUL, and that the count of a cache is the number of its objects in use.
\<close>

record gfp_flags =
  GFP_KERNEL :: u32
  GFP_NOIO :: u32
  GFP_NOWAIT :: u32
  GFP_NOWARN :: u32
  GFP_ZERO :: u32

definition KFIO_MAA_NORMAL :: u32 where "KFIO_MAA_NORMAL = 1"
definition KFIO_MAA_NOIO :: u32 where "KFIO_MAA_NOIO = 2"
definition KFIO_MAA_NOWAIT :: u32 where "KFIO_MAA_NOWAIT = 4"

subsection \<open>Bytes and pages\<close>

text \<open>The node is not given to the kernel.\<close>

definition kfio_malloc_flags :: "(u64 \<Rightarrow> u32 \<Rightarrow> addr) \<Rightarrow> u64 \<Rightarrow> u32 \<Rightarrow> int \<Rightarrow> addr" where
  "kfio_malloc_flags kmalloc sz gflags node = kmalloc sz gflags"

definition kfio_malloc :: "gfp_flags \<Rightarrow> (u64 \<Rightarrow> u32 \<Rightarrow> addr) \<Rightarrow> u64 \<Rightarrow> addr" where
  "kfio_malloc g kmalloc sz = kfio_malloc_flags kmalloc sz (GFP_NOIO g) (- 1)"

definition kfio_malloc_node :: "gfp_flags \<Rightarrow> (u64 \<Rightarrow> u32 \<Rightarrow> addr) \<Rightarrow> u64 \<Rightarrow> int \<Rightarrow> addr" where
  "kfio_malloc_node g kmalloc sz node = kfio_malloc_flags kmalloc sz (GFP_NOIO g) node"

definition kfio_malloc_atomic :: "gfp_flags \<Rightarrow> (u64 \<Rightarrow> u32 \<Rightarrow> addr) \<Rightarrow> u64 \<Rightarrow> addr" where
  "kfio_malloc_atomic g kmalloc sz = kfio_malloc_flags kmalloc sz (GFP_NOWAIT g) (- 1)"

definition kfio_malloc_atomic_node :: "gfp_flags \<Rightarrow> (u64 \<Rightarrow> u32 \<Rightarrow> addr) \<Rightarrow> u64 \<Rightarrow> int \<Rightarrow> addr" where
  "kfio_malloc_atomic_node g kmalloc sz node = kfio_malloc_flags kmalloc sz (GFP_NOWAIT g) node"

text \<open>A kernel with \<open>__GFP_ZERO\<close>, which every supported one has.\<close>

definition kfio_alloc_0_page :: "gfp_flags \<Rightarrow> (u32 \<Rightarrow> addr) \<Rightarrow> u32 \<Rightarrow> addr" where
  "kfio_alloc_0_page g alloc_page maa =
     (let lflags = 0;
          lflags = (if maa AND KFIO_MAA_NORMAL \<noteq> 0 then lflags OR GFP_KERNEL g else lflags);
          lflags = (if maa AND KFIO_MAA_NOIO \<noteq> 0 then lflags OR GFP_NOIO g else lflags);
          lflags = (if maa AND KFIO_MAA_NOWAIT \<noteq> 0 then lflags OR (GFP_NOWAIT g OR GFP_NOWARN g) else lflags)
      in alloc_page (lflags OR GFP_ZERO g))"

definition FUSION_PAGE_SHIFT :: nat where "FUSION_PAGE_SHIFT = 12"

definition kfio_get_memory_range_num_pages :: "u64 \<Rightarrow> u64 \<Rightarrow> u32" where
  "kfio_get_memory_range_num_pages beg len =
     ucast (drop_bit FUSION_PAGE_SHIFT (beg + len + ucast FUSION_PAGE_SIZE - 1) - drop_bit FUSION_PAGE_SHIFT beg)"

subsection \<open>Caches\<close>

record fusion_mem_cache =
  cache_p :: addr
  cache_name :: "u8 list"
  cache_count :: fusion_atomic32
  cache_size :: u32
  cache_align :: u32
  reserved_count :: u32
  reserved_list :: "addr list"

text \<open>\<open>debug\<close> is FUSION\_DEBUG\_CACHE.  The name is a string in memory with its NUL.\<close>

definition create_cache_raw ::
  "bool \<Rightarrow> (u8 list \<Rightarrow> u32 \<Rightarrow> u32 \<Rightarrow> addr) \<Rightarrow> fusion_mem_cache \<Rightarrow> u8 list \<Rightarrow> u32 \<Rightarrow> u32 \<Rightarrow> int \<times> fusion_mem_cache" where
  "create_cache_raw debug kmem_cache_create pcache name sz align =
     (let pcache = pcache\<lparr>cache_name := kfio_strncpy (cache_name pcache) name 39\<rparr>;
          pcache = pcache\<lparr>cache_p := kmem_cache_create (cache_name pcache) sz align\<rparr>;
          pcache = (if debug then pcache\<lparr>cache_count := fusion_atomic32_set (cache_count pcache) 0\<rparr> else pcache)
      in (if cache_p pcache \<noteq> NULL then 0 else - ENOMEM, pcache))"

definition kfio_create_cache ::
  "bool \<Rightarrow> (u8 list \<Rightarrow> u32 \<Rightarrow> u32 \<Rightarrow> addr) \<Rightarrow> fusion_mem_cache \<Rightarrow> u8 list \<Rightarrow> u32 \<Rightarrow> u32 \<Rightarrow> int \<times> fusion_mem_cache" where
  "kfio_create_cache debug kmem_cache_create pcache name sz align =
     (let pcache = pcache\<lparr>reserved_count := 0, cache_size := sz, cache_align := align, reserved_list := []\<rparr>
      in create_cache_raw debug kmem_cache_create pcache name sz align)"

definition cache_gfp :: "gfp_flags \<Rightarrow> bool \<Rightarrow> bool \<Rightarrow> bool \<Rightarrow> u32" where
  "cache_gfp g can_wait in_atomic irqs_disabled = (if \<not> can_wait \<or> in_atomic \<or> irqs_disabled then GFP_NOWAIT g else GFP_NOIO g)"

text \<open>The kernel's function gets the cache and the flags; the node of \<open>kfio_cache_alloc_node\<close> is given on.\<close>

definition kfio_cache_alloc ::
  "gfp_flags \<Rightarrow> bool \<Rightarrow> (addr \<Rightarrow> u32 \<Rightarrow> addr) \<Rightarrow> bool \<Rightarrow> bool \<Rightarrow> bool \<Rightarrow> fusion_mem_cache \<Rightarrow> addr \<times> fusion_mem_cache" where
  "kfio_cache_alloc g debug kmem_cache_alloc in_atomic irqs_disabled can_wait cache =
     (let p = kmem_cache_alloc (cache_p cache) (cache_gfp g can_wait in_atomic irqs_disabled)
      in (p, if debug \<and> p \<noteq> NULL then cache\<lparr>cache_count := snd (fusion_atomic32_incr (cache_count cache))\<rparr> else cache))"

definition kfio_cache_alloc_node ::
  "gfp_flags \<Rightarrow> bool \<Rightarrow> (addr \<Rightarrow> u32 \<Rightarrow> int \<Rightarrow> addr) \<Rightarrow> bool \<Rightarrow> bool \<Rightarrow> bool \<Rightarrow> int \<Rightarrow> fusion_mem_cache \<Rightarrow> addr \<times> fusion_mem_cache" where
  "kfio_cache_alloc_node g debug kmem_cache_alloc_node in_atomic irqs_disabled can_wait node cache =
     (let p = kmem_cache_alloc_node (cache_p cache) (cache_gfp g can_wait in_atomic irqs_disabled) node
      in (p, if debug \<and> p \<noteq> NULL then cache\<lparr>cache_count := snd (fusion_atomic32_incr (cache_count cache))\<rparr> else cache))"

text \<open>The result says whether the message about the last object is printed.\<close>

definition kfio_cache_free :: "bool \<Rightarrow> fusion_mem_cache \<Rightarrow> addr \<Rightarrow> bool \<times> fusion_mem_cache" where
  "kfio_cache_free debug cache p =
     (if debug then (let (count, c) = fusion_atomic32_decr (cache_count cache) in (count = 0, cache\<lparr>cache_count := c\<rparr>))
      else (False, cache))"

definition kfio_cache_destroy :: "fusion_mem_cache \<Rightarrow> fusion_mem_cache" where
  "kfio_cache_destroy cache = cache\<lparr>cache_p := NULL\<rparr>"

definition fusion_cache_destroy :: "fusion_mem_cache \<Rightarrow> fusion_mem_cache" where
  "fusion_cache_destroy cache = kfio_cache_destroy cache"

definition FUSION_CACHE_VALID :: "fusion_mem_cache \<Rightarrow> bool" where
  "FUSION_CACHE_VALID c \<longleftrightarrow> cache_p c \<noteq> NULL"

text \<open>Use of a cache: allocations, with what the kernel returns, and frees of objects in use.\<close>

datatype cache_use = Alloc addr bool | Free addr

fun cache_run :: "gfp_flags \<Rightarrow> cache_use list \<Rightarrow> fusion_mem_cache \<Rightarrow> addr list \<Rightarrow> (bool list \<times> fusion_mem_cache \<times> addr list) option" where
  "cache_run g [] c objs = Some ([], c, objs)"
| "cache_run g (Alloc p can_wait # us) c objs =
     (let (p, c) = kfio_cache_alloc g True (\<lambda>_ _. p) False False can_wait c
      in cache_run g us c (if p \<noteq> NULL then p # objs else objs))"
| "cache_run g (Free p # us) c objs =
     (if p \<in> set objs
      then (let (msg, c) = kfio_cache_free True c p
            in map_option (\<lambda>(ms, r). (msg # ms, r)) (cache_run g us c (remove1 p objs)))
      else None)"

subsection \<open>Pages of a buffer\<close>

lemma range_pages_nat:
  assumes "unat start + unat len + 4095 < 2 ^ 64" and "unat len < 2 ^ 43"
  shows "unat (kfio_get_memory_range_num_pages start len) = (unat start mod 4096 + unat len + 4095) div 4096"
proof -
  let ?e = "start + len + ucast FUSION_PAGE_SIZE - 1"
  have p: "(ucast FUSION_PAGE_SIZE :: u64) = 4096" by (simp add: FUSION_PAGE_SIZE_def)
  have e: "unat ?e = unat start + unat len + 4095"
  proof -
    have "unat (len + 4095) = unat len + 4095" using assms(1) by (simp add: unat_add_no_wrap)
    moreover have "unat (start + (len + 4095)) = unat start + unat (len + 4095)" using assms(1) calculation by (intro unat_add_no_wrap) simp
    moreover have q: "?e = start + (len + 4095)" by (simp add: p ac_simps)
    ultimately show ?thesis unfolding q by simp
  qed
  let ?d = "drop_bit FUSION_PAGE_SHIFT ?e - drop_bit FUSION_PAGE_SHIFT start"
  have d: "unat (drop_bit FUSION_PAGE_SHIFT ?e) = (unat start + unat len + 4095) div 4096"
    "unat (drop_bit FUSION_PAGE_SHIFT start) = unat start div 4096"
    by (simp_all add: unat_drop e FUSION_PAGE_SHIFT_def)
  have "unat start = unat start div 4096 * 4096 + unat start mod 4096" by simp
  then have s: "(unat start + unat len + 4095) div 4096 = unat start div 4096 + (unat start mod 4096 + unat len + 4095) div 4096"
    by (metis (no_types, lifting) add.assoc div_mult_self3 zero_neq_numeral)
  have u: "unat ?d = (unat start mod 4096 + unat len + 4095) div 4096"
    using d s by (subst unat_sub_le) (simp_all add: word_le_nat_alt)
  have "(unat start mod 4096 + unat len + 4095) div 4096 < 2 ^ 32"
    using assms(2) mod_less_divisor [of 4096 "unat start"] by (simp add: div_less_iff_less_mult)
  then show ?thesis unfolding kfio_get_memory_range_num_pages_def using u unat_cast32 [of ?d] by simp
qed

text \<open>
  C40: For a buffer that does not wrap around the end of memory, \<open>kfio_get_memory_range_num_pages\<close> is exactly the number of entries that mapping
  the buffer takes: mapping a buffer that is not empty succeeds if and only if that many entries are free.
\<close>

theorem memory_range_pages_are_entries:
  assumes "page_lookup (vmalloc_to_page env)" and "page_lookup (virt_to_page env)" and "sgl_wf lsg"
    and "unat buffer + unat sz + 4095 < 2 ^ 64" and "sz \<noteq> 0"
  shows "fst (kfio_sgl_map_bytes_gen env lsg buffer sz kfio_mem_seg_system) = 0 \<longleftrightarrow>
    unat (num_entries lsg) + unat (kfio_get_memory_range_num_pages buffer (ucast sz)) \<le> unat (max_entries lsg)"
proof -
  define vm where "vm = (vmalloc_start env \<le> buffer \<and> buffer < vmalloc_end env)"
  have l: "page_lookup (lookup env vm)" using assms(1,2) by (simp add: lookup_def)
  have u: "unat (ucast sz :: u64) = unat sz" by (rule unat_widen)
  have "unat sz < 2 ^ 43" using unsigned_less [of sz, where 'a = nat] by simp
  then have "unat (kfio_get_memory_range_num_pages buffer (ucast sz)) = (unat buffer mod 4096 + unat sz + 4095) div 4096"
    using range_pages_nat [of buffer "ucast sz"] assms(4) unfolding u by simp
  also have "\<dots> = pages_spanned (unat buffer) (unat sz)" using assms(5) by (simp add: pages_spanned_def unat_eq_0)
  finally show ?thesis
    using map_bytes_system [OF l assms(3), of buffer sz "unat (num_entries lsg)"]
    by (simp add: kfio_sgl_map_bytes_gen_def vm_def Let_def split: prod.splits if_splits)
qed

theorem memory_range_pages_are_entries_witness:
  "fst (kfio_sgl_map_bytes_gen linear_env empty_sgl 0x1FFE 5000 kfio_mem_seg_system) = 0 \<and>
   kfio_get_memory_range_num_pages 0x1FFE 5000 = 3"
proof -
  have p: "page_lookup (vmalloc_to_page linear_env)" "page_lookup (virt_to_page linear_env)"
    using linear_lookup by (simp_all add: linear_env_def)
  have n: "kfio_get_memory_range_num_pages 0x1FFE 5000 = 3" by code_simp
  have "unat (max_entries empty_sgl) = 4" "unat (num_entries empty_sgl) = 0" by (simp_all add: empty_sgl_def)
  then show ?thesis using memory_range_pages_are_entries [OF p empty_sgl_wf, of "0x1FFE" 5000] n by simp
qed

subsection \<open>Flags\<close>

text \<open>An allocation from a cache can sleep only for a caller that says so and is neither in an atomic section nor has interrupts disabled.\<close>

lemma cache_gfp_sleeps: "GFP_NOIO g \<noteq> GFP_NOWAIT g \<Longrightarrow> cache_gfp g w a i = GFP_NOIO g \<longleftrightarrow> w \<and> \<not> a \<and> \<not> i"
  by (auto simp: cache_gfp_def)

lemma alloc_0_page_flags:
  "kfio_alloc_0_page g (\<lambda>f. f') maa = f'"
  "kfio_alloc_0_page g ucast KFIO_MAA_NOWAIT = ucast (GFP_NOWAIT g OR GFP_NOWARN g OR GFP_ZERO g)"
  "kfio_alloc_0_page g ucast KFIO_MAA_NOIO = ucast (GFP_NOIO g OR GFP_ZERO g)"
  "kfio_alloc_0_page g ucast KFIO_MAA_NORMAL = ucast (GFP_KERNEL g OR GFP_ZERO g)"
  by (simp_all add: kfio_alloc_0_page_def KFIO_MAA_NORMAL_def KFIO_MAA_NOIO_def KFIO_MAA_NOWAIT_def or.assoc)

subsection \<open>Names of caches\<close>

text \<open>
  The name of a cache ends with a NUL when it has less than 39 characters; a longer one is cut to 39 and ends only if the last byte of the
  field, which nothing has set, is 0.
\<close>

lemma strlen_le: "strlen s \<le> length s"
  by (induction s) auto

lemma no_nul_before_strlen: "0 \<notin> set (take (min n (strlen s)) s)"
proof (induction s arbitrary: n)
  case (Cons c s)
  show ?case by (cases n) (use Cons in auto)
qed simp

lemma cache_name_ends:
  assumes "length (cache_name pcache) = 40" and "strlen name < length name"
    and "kfio_create_cache debug create pcache name sz align = (rc, c)"
  shows "0 \<in> set (cache_name c) \<longleftrightarrow> strlen name < 39 \<or> cache_name pcache ! 39 = 0"
proof -
  have l: "drop 39 (cache_name pcache) = [cache_name pcache ! 39]"
    using assms(1) Cons_nth_drop_Suc [of 39 "cache_name pcache"] by simp
  have n: "cache_name c = kfio_strncpy (cache_name pcache) name 39"
    using assms(3) by (auto simp: kfio_create_cache_def create_cache_raw_def Let_def split: if_splits)
  have "cache_name c = take (min 39 (strlen name)) name @ replicate (39 - strlen name) 0 @ [cache_name pcache ! 39]"
    unfolding n kfio_strncpy_def memcpy_and_pad_def Let_def l [symmetric] by (auto simp: min_def)
  then show ?thesis using no_nul_before_strlen [of 39 name] by auto
qed

subsection \<open>Objects in use\<close>

text \<open>
  In the build that counts objects the count is the number of objects in use, and the message of \<open>kfio_cache_free\<close> appears exactly when the last
  one is freed.
\<close>

lemma count_up: "unat c < 2 ^ 32 - 1 \<Longrightarrow> unat (snd (fusion_atomic32_incr c)) = unat c + 1"
  by (simp add: gcc32.incr_law unat_add_no_wrap)

lemma count_down: "c \<noteq> 0 \<Longrightarrow> fusion_atomic32_decr c = (c - 1, c - 1) \<and> unat (c - 1) = unat c - 1"
  by (simp add: gcc32.decr_law unat_decr)

lemma cache_count_is_objects:
  assumes "cache_run g us c objs = Some (msgs, c', objs')" and "unat (cache_count c) = length objs" and "length objs + length us < 2 ^ 32"
  shows "unat (cache_count c') = length objs'"
  using assms
proof (induction us arbitrary: c objs msgs)
  case (Cons u us)
  show ?case
  proof (cases u)
    case (Alloc p w)
    show ?thesis
    proof (cases "p = NULL")
      case True
      then show ?thesis using Cons Alloc by (simp add: kfio_cache_alloc_def)
    next
      case False
      let ?c = "c\<lparr>cache_count := snd (fusion_atomic32_incr (cache_count c))\<rparr>"
      have "cache_run g us ?c (p # objs) = Some (msgs, c', objs')" using Cons.prems(1) Alloc False by (simp add: kfio_cache_alloc_def)
      moreover have "unat (cache_count ?c) = length (p # objs)" using count_up [of "cache_count c"] Cons.prems(2,3) by simp
      ultimately show ?thesis using Cons.IH [of ?c "p # objs"] Cons.prems(3) by simp
    qed
  next
    case (Free p)
    then have p: "p \<in> set objs" using Cons.prems(1) by (auto split: if_splits)
    then have l: "0 < length objs" by (cases objs) auto
    then have z: "cache_count c \<noteq> 0" using Cons.prems(2) by auto
    let ?c = "c\<lparr>cache_count := cache_count c - 1\<rparr>"
    obtain ms where "cache_run g us ?c (remove1 p objs) = Some (ms, c', objs')"
      using Cons.prems(1) Free p count_down [OF z] by (auto simp: kfio_cache_free_def)
    moreover have "unat (cache_count ?c) = length (remove1 p objs)"
      using count_down [OF z] Cons.prems(2) p by (simp add: length_remove1)
    ultimately show ?thesis using Cons.IH [of ?c "remove1 p objs"] Cons.prems(3) p l by (simp add: length_remove1)
  qed
qed simp

end
