(* ===== verification/Klocks.thy ===== *)
theory Klocks
  imports Prelude
begin

text \<open>
  Mutexes, reader-writer semaphores (\<open>kfio.c\<close>) and reader-writer spinlocks (\<open>kfio_common.c\<close>).

  The kernel's locks are modelled as documented: a mutex has an owner; the other two have readers and at most one writer.  A function
  that would sleep or spin has None as its result, and threads are numbers.

  What the users of the two kinds of reader-writer locks rely on is the locale \<open>rw_lock\<close>, interpreted on both; its lemmas show that a writer is
  alone, whatever the threads do and in whatever order, and that a lock all threads have given back is free.
\<close>

subsection \<open>The kernel's locks\<close>

record rw_state =
  rw_readers :: "nat list"
  rw_writer :: "nat option"

definition rw_unlocked :: rw_state where
  "rw_unlocked = \<lparr>rw_readers = [], rw_writer = None\<rparr>"

definition k_read_lock :: "nat \<Rightarrow> rw_state \<Rightarrow> rw_state option" where
  "k_read_lock t l = (if rw_writer l \<noteq> None then None else Some (l\<lparr>rw_readers := t # rw_readers l\<rparr>))"

definition k_write_lock :: "nat \<Rightarrow> rw_state \<Rightarrow> rw_state option" where
  "k_write_lock t l = (if rw_writer l \<noteq> None \<or> rw_readers l \<noteq> [] then None else Some (l\<lparr>rw_writer := Some t\<rparr>))"

definition k_read_unlock :: "nat \<Rightarrow> rw_state \<Rightarrow> rw_state" where
  "k_read_unlock t l = l\<lparr>rw_readers := remove1 t (rw_readers l)\<rparr>"

definition k_write_unlock :: "nat \<Rightarrow> rw_state \<Rightarrow> rw_state" where
  "k_write_unlock t l = l\<lparr>rw_writer := None\<rparr>"

subsection \<open>Mutexes\<close>

type_synonym fusion_mutex_t = "nat option"

definition fusion_mutex_init :: "fusion_mutex_t \<Rightarrow> fusion_mutex_t" where
  "fusion_mutex_init lk = None"

definition fusion_mutex_destroy :: "fusion_mutex_t \<Rightarrow> fusion_mutex_t" where
  "fusion_mutex_destroy lk = lk"

definition fusion_mutex_trylock :: "nat \<Rightarrow> fusion_mutex_t \<Rightarrow> int \<times> fusion_mutex_t" where
  "fusion_mutex_trylock t lk = (case lk of None \<Rightarrow> (1, Some t) | Some u \<Rightarrow> (0, lk))"

definition fusion_mutex_lock :: "nat \<Rightarrow> fusion_mutex_t \<Rightarrow> fusion_mutex_t option" where
  "fusion_mutex_lock t lk = (case lk of None \<Rightarrow> Some (Some t) | Some u \<Rightarrow> None)"

definition fusion_mutex_unlock :: "nat \<Rightarrow> fusion_mutex_t \<Rightarrow> fusion_mutex_t" where
  "fusion_mutex_unlock t lk = None"

subsection \<open>Semaphores\<close>

definition fusion_rwsem_init :: "rw_state \<Rightarrow> rw_state" where
  "fusion_rwsem_init x = rw_unlocked"

definition fusion_rwsem_destroy :: "rw_state \<Rightarrow> rw_state" where
  "fusion_rwsem_destroy x = x"

definition fusion_rwsem_down_read :: "nat \<Rightarrow> rw_state \<Rightarrow> rw_state option" where
  "fusion_rwsem_down_read t x = k_read_lock t x"

definition fusion_rwsem_down_read_trylock :: "nat \<Rightarrow> rw_state \<Rightarrow> int \<times> rw_state" where
  "fusion_rwsem_down_read_trylock t x = (case k_read_lock t x of None \<Rightarrow> (0, x) | Some x' \<Rightarrow> (1, x'))"

definition fusion_rwsem_up_read :: "nat \<Rightarrow> rw_state \<Rightarrow> rw_state" where
  "fusion_rwsem_up_read t x = k_read_unlock t x"

definition fusion_rwsem_down_write :: "nat \<Rightarrow> rw_state \<Rightarrow> rw_state option" where
  "fusion_rwsem_down_write t x = k_write_lock t x"

definition fusion_rwsem_down_write_trylock :: "nat \<Rightarrow> rw_state \<Rightarrow> int \<times> rw_state" where
  "fusion_rwsem_down_write_trylock t x = (case k_write_lock t x of None \<Rightarrow> (0, x) | Some x' \<Rightarrow> (1, x'))"

definition fusion_rwsem_up_write :: "nat \<Rightarrow> rw_state \<Rightarrow> rw_state" where
  "fusion_rwsem_up_write t x = k_write_unlock t x"

subsection \<open>Spinlocks\<close>

definition fusion_rwspin_init :: "rw_state \<Rightarrow> rw_state" where
  "fusion_rwspin_init s = rw_unlocked"

definition fusion_rwspin_destroy :: "rw_state \<Rightarrow> rw_state" where
  "fusion_rwspin_destroy s = s"

definition fusion_rwspin_read_lock :: "nat \<Rightarrow> rw_state \<Rightarrow> rw_state option" where
  "fusion_rwspin_read_lock t s = k_read_lock t s"

definition fusion_rwspin_write_lock :: "nat \<Rightarrow> rw_state \<Rightarrow> rw_state option" where
  "fusion_rwspin_write_lock t s = k_write_lock t s"

definition fusion_rwspin_read_unlock :: "nat \<Rightarrow> rw_state \<Rightarrow> rw_state" where
  "fusion_rwspin_read_unlock t s = k_read_unlock t s"

definition fusion_rwspin_write_unlock :: "nat \<Rightarrow> rw_state \<Rightarrow> rw_state" where
  "fusion_rwspin_write_unlock t s = k_write_unlock t s"

subsection \<open>Users\<close>

text \<open>
  What a thread does next; a thread gives back only what it holds.  A run that would block has None as its result.
\<close>

datatype rw_use = Read nat | Write nat | Unread nat | Unwrite nat

fun rw_use_ok :: "rw_use \<Rightarrow> rw_state \<Rightarrow> bool" where
  "rw_use_ok (Unread t) l \<longleftrightarrow> t \<in> set (rw_readers l)"
| "rw_use_ok (Unwrite t) l \<longleftrightarrow> rw_writer l = Some t"
| "rw_use_ok u l \<longleftrightarrow> True"

fun rw_do ::
  "(nat \<Rightarrow> rw_state \<Rightarrow> rw_state option) \<Rightarrow> (nat \<Rightarrow> rw_state \<Rightarrow> rw_state option) \<Rightarrow> (nat \<Rightarrow> rw_state \<Rightarrow> rw_state) \<Rightarrow> (nat \<Rightarrow> rw_state \<Rightarrow> rw_state) \<Rightarrow>
   rw_use \<Rightarrow> rw_state \<Rightarrow> rw_state option" where
  "rw_do rl wl ru wu (Read t) l = rl t l"
| "rw_do rl wl ru wu (Write t) l = wl t l"
| "rw_do rl wl ru wu (Unread t) l = Some (ru t l)"
| "rw_do rl wl ru wu (Unwrite t) l = Some (wu t l)"

fun rw_run ::
  "(nat \<Rightarrow> rw_state \<Rightarrow> rw_state option) \<Rightarrow> (nat \<Rightarrow> rw_state \<Rightarrow> rw_state option) \<Rightarrow> (nat \<Rightarrow> rw_state \<Rightarrow> rw_state) \<Rightarrow> (nat \<Rightarrow> rw_state \<Rightarrow> rw_state) \<Rightarrow>
   rw_use list \<Rightarrow> rw_state \<Rightarrow> rw_state option" where
  "rw_run rl wl ru wu [] l = Some l"
| "rw_run rl wl ru wu (u # us) l =
     (if rw_use_ok u l then Option.bind (rw_do rl wl ru wu u l) (rw_run rl wl ru wu us) else None)"

definition rw_excl :: "rw_state \<Rightarrow> bool" where
  "rw_excl l \<longleftrightarrow> rw_writer l = None \<or> rw_readers l = []"

text \<open>How often a thread has taken the lock for reading more than it gave it back, and the same for writing.\<close>

definition reads_by :: "nat \<Rightarrow> rw_use list \<Rightarrow> int" where
  "reads_by t us = int (count_list us (Read t)) - int (count_list us (Unread t))"

definition writes_by :: "nat \<Rightarrow> rw_use list \<Rightarrow> int" where
  "writes_by t us = int (count_list us (Write t)) - int (count_list us (Unwrite t))"

subsection \<open>The contract\<close>

lemma by_Cons: "reads_by t (u # us) = reads_by t [u] + reads_by t us" "writes_by t (u # us) = writes_by t [u] + writes_by t us"
  by (simp_all add: reads_by_def writes_by_def)

lemma free_lock:
  assumes "\<And>u. int (count_list xs u) = r u" and "\<And>u. of_bool (wr = Some u) = w u" and "\<forall>u. r u = (0 :: int) \<and> w u = (0 :: int)"
  shows "xs = []" and "wr = None"
proof -
  have 0: "u \<notin> set xs" "wr \<noteq> Some u" for u using assms(1) [of u] assms(2) [of u] assms(3) by (auto simp: count_list_0_iff)
  then show "xs = []" by (metis ex_in_conv set_empty)
  show "wr = None" using 0(2) by (cases wr) auto
qed

lemma count_taken: "x \<in> set xs \<Longrightarrow> int (count_list xs x - Suc 0) = int (count_list xs x) - 1"
  using count_list_0_iff [of xs x] by (cases "count_list xs x") auto

locale rw_lock =
  fixes read_lock write_lock :: "nat \<Rightarrow> rw_state \<Rightarrow> rw_state option"
    and read_unlock write_unlock :: "nat \<Rightarrow> rw_state \<Rightarrow> rw_state"
  assumes read_lock_law: "read_lock t l = (if rw_writer l = None then Some (l\<lparr>rw_readers := t # rw_readers l\<rparr>) else None)"
    and write_lock_law: "write_lock t l = (if rw_writer l = None \<and> rw_readers l = [] then Some (l\<lparr>rw_writer := Some t\<rparr>) else None)"
    and read_unlock_law: "read_unlock t l = l\<lparr>rw_readers := remove1 t (rw_readers l)\<rparr>"
    and write_unlock_law: "write_unlock t l = l\<lparr>rw_writer := None\<rparr>"
begin

lemmas laws = read_lock_law write_lock_law read_unlock_law write_unlock_law

lemma use_excl: "rw_excl l \<Longrightarrow> rw_do read_lock write_lock read_unlock write_unlock u l = Some l' \<Longrightarrow> rw_excl l'"
  by (cases u) (auto simp: laws rw_excl_def split: if_splits)

lemma run_excl: "rw_excl l \<Longrightarrow> rw_run read_lock write_lock read_unlock write_unlock us l = Some l' \<Longrightarrow> rw_excl l'"
proof (induction us arbitrary: l)
  case (Cons u us)
  then show ?case using use_excl by (auto split: if_splits bind_splits)
qed simp

lemma use_reads:
  "rw_use_ok u l \<Longrightarrow> rw_do read_lock write_lock read_unlock write_unlock u l = Some l' \<Longrightarrow>
    int (count_list (rw_readers l') t) = int (count_list (rw_readers l) t) + reads_by t [u]"
  by (cases u) (auto simp: laws reads_by_def count_taken split: if_splits)

lemma use_writes:
  "rw_use_ok u l \<Longrightarrow> rw_do read_lock write_lock read_unlock write_unlock u l = Some l' \<Longrightarrow>
    of_bool (rw_writer l' = Some t) = of_bool (rw_writer l = Some t) + writes_by t [u]"
  by (cases u) (auto simp: laws writes_by_def split: if_splits)

lemma run_counts:
  assumes "rw_run read_lock write_lock read_unlock write_unlock us l = Some l'"
  shows "int (count_list (rw_readers l') t) = int (count_list (rw_readers l) t) + reads_by t us \<and>
    of_bool (rw_writer l' = Some t) = of_bool (rw_writer l = Some t) + writes_by t us"
  using assms
proof (induction us arbitrary: l)
  case (Cons u us)
  from Cons.prems obtain l1 where l1: "rw_use_ok u l" "rw_do read_lock write_lock read_unlock write_unlock u l = Some l1"
    and run: "rw_run read_lock write_lock read_unlock write_unlock us l1 = Some l'"
    by (auto split: if_splits bind_splits)
  show ?case using Cons.IH [OF run] use_reads [OF l1, of t] use_writes [OF l1, of t] by_Cons [of t u us] by simp
qed (simp add: reads_by_def writes_by_def)

end

interpretation rwsem: rw_lock fusion_rwsem_down_read fusion_rwsem_down_write fusion_rwsem_up_read fusion_rwsem_up_write
  by unfold_locales (simp_all add: fusion_rwsem_down_read_def fusion_rwsem_down_write_def fusion_rwsem_up_read_def fusion_rwsem_up_write_def
      k_read_lock_def k_write_lock_def k_read_unlock_def k_write_unlock_def)

interpretation rwspin: rw_lock fusion_rwspin_read_lock fusion_rwspin_write_lock fusion_rwspin_read_unlock fusion_rwspin_write_unlock
  by unfold_locales (simp_all add: fusion_rwspin_read_lock_def fusion_rwspin_write_lock_def fusion_rwspin_read_unlock_def
      fusion_rwspin_write_unlock_def k_read_lock_def k_write_lock_def k_read_unlock_def k_write_unlock_def)


text \<open>
  A mutex taken is taken by one thread, the attempt to take it fails exactly while it is held, and the two ways of taking it agree.
\<close>

lemma mutex_exclusive:
  "fusion_mutex_trylock t lk = (case fusion_mutex_lock t lk of None \<Rightarrow> (0, lk) | Some lk' \<Rightarrow> (1, lk'))"
  "fusion_mutex_lock t lk = Some lk' \<longleftrightarrow> lk = None \<and> lk' = Some t"
  "fusion_mutex_lock t (fusion_mutex_unlock u lk) = Some (Some t)"
  by (auto simp: fusion_mutex_trylock_def fusion_mutex_lock_def fusion_mutex_unlock_def split: option.splits)

text \<open>
  After any sequence of uses of a semaphore by any threads, each giving back what it holds, a thread that has taken it for writing and not given
  it back is its only holder; and once every thread has given it back, both attempts to take it succeed.
\<close>

lemma rwsem_writer_alone:
  assumes "rw_run fusion_rwsem_down_read fusion_rwsem_down_write fusion_rwsem_up_read fusion_rwsem_up_write us (fusion_rwsem_init x) = Some y"
  shows "writes_by t us \<noteq> 0 \<Longrightarrow> writes_by t us = 1 \<and> (\<forall>u. reads_by u us = 0 \<and> (u \<noteq> t \<longrightarrow> writes_by u us = 0))"
    and "(\<forall>u. reads_by u us = 0 \<and> writes_by u us = 0) \<Longrightarrow>
      fst (fusion_rwsem_down_read_trylock t y) = 1 \<and> fst (fusion_rwsem_down_write_trylock t y) = 1"
proof -
  have start: "rw_readers (fusion_rwsem_init x) = []" "rw_writer (fusion_rwsem_init x) = None" "rw_excl (fusion_rwsem_init x)"
    by (simp_all add: fusion_rwsem_init_def rw_unlocked_def rw_excl_def)
  have r: "int (count_list (rw_readers y) u) = reads_by u us" and w: "of_bool (rw_writer y = Some u) = writes_by u us" for u
    using rwsem.run_counts [OF assms, of u] start by simp_all
  have x: "rw_excl y" using rwsem.run_excl [OF start(3) assms] .
  show "writes_by t us \<noteq> 0 \<Longrightarrow> writes_by t us = 1 \<and> (\<forall>u. reads_by u us = 0 \<and> (u \<noteq> t \<longrightarrow> writes_by u us = 0))"
    using x by (auto simp: rw_excl_def r [symmetric] w [symmetric])
  assume none: "\<forall>u. reads_by u us = 0 \<and> writes_by u us = 0"
  have "rw_readers y = []" "rw_writer y = None" using free_lock [OF r w none] .
  then show "fst (fusion_rwsem_down_read_trylock t y) = 1 \<and> fst (fusion_rwsem_down_write_trylock t y) = 1"
    by (simp add: fusion_rwsem_down_read_trylock_def fusion_rwsem_down_write_trylock_def k_read_lock_def k_write_lock_def)
qed

end
