(* ===== verification/Kpci_Dev.thy ===== *)
theory Kpci_Dev
  imports Kpci
begin

text \<open>
  PCI devices and buses as the core sees them (\<open>pci.c\<close>): the identity of a card, the way up the bus hierarchy, resources, interrupts
  of a card with MSI-X, and the mappings of its registers.

  The kernel's \<open>pci_dev\<close> and \<open>pci_bus\<close> are records in a store; None is what following NULL gives.  The lines of
  interrupts and the mappings of registers that the kernel has given out are a state of their own.

  The lemmas show that bus, device and function identify a card of a domain, that climbing the buses ends at the root, and that
  what a driver sets up and takes down in order leaves the kernel as it was.
\<close>

subsection \<open>Devices and buses\<close>

record pci_dev =
  pd_vendor :: u16
  pd_device :: u16
  pd_subsystem_vendor :: u16
  pd_subsystem_device :: u16
  pd_devfn :: u32
  pd_bus :: addr
  pd_node :: int
  pd_drvdata :: addr
  pd_resource_start :: "nat \<Rightarrow> u64"
  pd_resource_len :: "nat \<Rightarrow> u64"

record pci_bus =
  pb_parent :: addr
  pb_self :: addr
  pb_number :: u8
  pb_domain :: int

record pci_store =
  pci_devs :: "addr \<Rightarrow> pci_dev option"
  pci_buses :: "addr \<Rightarrow> pci_bus option"

definition kfio_bus_from_pci_dev :: "pci_store \<Rightarrow> addr \<Rightarrow> addr option" where
  "kfio_bus_from_pci_dev st pdev = map_option pd_bus (pci_devs st pdev)"

definition kfio_pci_bus_parent :: "pci_store \<Rightarrow> addr \<Rightarrow> addr option" where
  "kfio_pci_bus_parent st b = map_option pb_parent (pci_buses st b)"

definition kfio_pci_bus_istop :: "pci_store \<Rightarrow> addr \<Rightarrow> bool option" where
  "kfio_pci_bus_istop st b = map_option (\<lambda>bus. pb_self bus = NULL) (pci_buses st b)"

definition kfio_pci_bus_self :: "pci_store \<Rightarrow> addr \<Rightarrow> addr option" where
  "kfio_pci_bus_self st b = map_option pb_self (pci_buses st b)"

definition kfio_pci_bus_number :: "pci_store \<Rightarrow> addr \<Rightarrow> u8 option" where
  "kfio_pci_bus_number st b = map_option pb_number (pci_buses st b)"

definition kfio_pci_get_node :: "pci_dev \<Rightarrow> int" where
  "kfio_pci_get_node pdev = pd_node pdev"

definition kfio_pci_set_node :: "int \<Rightarrow> pci_dev \<Rightarrow> pci_dev" where
  "kfio_pci_set_node nd pdev = pdev\<lparr>pd_node := nd\<rparr>"

definition kfio_pci_set_drvdata :: "addr \<Rightarrow> pci_dev \<Rightarrow> pci_dev" where
  "kfio_pci_set_drvdata p pdev = pdev\<lparr>pd_drvdata := p\<rparr>"

definition kfio_pci_get_drvdata :: "pci_dev \<Rightarrow> addr" where
  "kfio_pci_get_drvdata pdev = pd_drvdata pdev"

subsection \<open>Identity and resources\<close>

definition kfio_pci_get_vendor :: "pci_dev \<Rightarrow> u16" where
  "kfio_pci_get_vendor pdev = pd_vendor pdev"

definition kfio_pci_get_devnum :: "pci_dev \<Rightarrow> u32" where
  "kfio_pci_get_devnum pdev = ucast (pd_device pdev)"

definition kfio_pci_get_subsystem_vendor :: "pci_dev \<Rightarrow> u16" where
  "kfio_pci_get_subsystem_vendor pdev = pd_subsystem_vendor pdev"

definition kfio_pci_get_subsystem_device :: "pci_dev \<Rightarrow> u16" where
  "kfio_pci_get_subsystem_device pdev = pd_subsystem_device pdev"

definition kfio_pci_get_bus :: "pci_store \<Rightarrow> pci_dev \<Rightarrow> u8 option" where
  "kfio_pci_get_bus st pdev = map_option pb_number (pci_buses st (pd_bus pdev))"

text \<open>The number of a domain is an \<open>int\<close> in the kernel.\<close>

definition kfio_pci_get_domain :: "pci_store \<Rightarrow> pci_dev \<Rightarrow> u16 option" where
  "kfio_pci_get_domain st pdev = map_option (\<lambda>bus. of_int (pb_domain bus)) (pci_buses st (pd_bus pdev))"

definition PCI_SLOT :: "u32 \<Rightarrow> u32" where
  "PCI_SLOT fn = drop_bit 3 fn AND 0x1f"

definition PCI_FUNC :: "u32 \<Rightarrow> u32" where
  "PCI_FUNC fn = fn AND 0x07"

definition kfio_pci_get_devicenum :: "pci_dev \<Rightarrow> u8" where
  "kfio_pci_get_devicenum pdev = ucast (PCI_SLOT (pd_devfn pdev))"

definition kfio_pci_get_function :: "pci_dev \<Rightarrow> u8" where
  "kfio_pci_get_function pdev = ucast (PCI_FUNC (pd_devfn pdev))"

definition kfio_pci_resource_start :: "pci_dev \<Rightarrow> u16 \<Rightarrow> u64" where
  "kfio_pci_resource_start pdev bar = pd_resource_start pdev (unat bar)"

definition kfio_pci_resource_len :: "pci_dev \<Rightarrow> u16 \<Rightarrow> u32" where
  "kfio_pci_resource_len pdev bar = ucast (pd_resource_len pdev (unat bar))"

subsection \<open>Interrupts\<close>

text \<open>
  Per interrupt, who has requested it.  \<open>rc\<close> is the result of \<open>request_irq\<close>.  None is an index outside of the table of vectors.
\<close>

type_synonym irq_table = "u32 \<Rightarrow> addr list"

definition kfio_request_msix :: "int \<Rightarrow> msix_entry list \<Rightarrow> nat \<Rightarrow> addr \<Rightarrow> irq_table \<Rightarrow> (int \<times> irq_table) option" where
  "kfio_request_msix rc msi vec dev_id irqs =
     (if vec < length msi
      then let v = vector (msi ! vec) in Some (rc, if rc = 0 then irqs(v := dev_id # irqs v) else irqs)
      else None)"

definition kfio_free_msix :: "msix_entry list \<Rightarrow> nat \<Rightarrow> addr \<Rightarrow> irq_table \<Rightarrow> irq_table option" where
  "kfio_free_msix msi vec dev irqs =
     (if vec < length msi then let v = vector (msi ! vec) in Some (irqs(v := remove1 dev (irqs v))) else None)"

definition kfio_get_msix_number :: "msix_entry list \<Rightarrow> nat \<Rightarrow> (int \<times> u32) option" where
  "kfio_get_msix_number msi vec_ix = (if vec_ix < length msi then Some (0, vector (msi ! vec_ix)) else None)"

text \<open>All vectors of a card, one after the other.\<close>

fun request_all :: "msix_entry list \<Rightarrow> nat list \<Rightarrow> addr \<Rightarrow> irq_table \<Rightarrow> irq_table option" where
  "request_all msi [] dev irqs = Some irqs"
| "request_all msi (v # vs) dev irqs =
     Option.bind (kfio_request_msix 0 msi v dev irqs) (\<lambda>(rc, irqs). request_all msi vs dev irqs)"

fun free_all :: "msix_entry list \<Rightarrow> nat list \<Rightarrow> addr \<Rightarrow> irq_table \<Rightarrow> irq_table option" where
  "free_all msi [] dev irqs = Some irqs"
| "free_all msi (v # vs) dev irqs = Option.bind (kfio_free_msix msi v dev irqs) (free_all msi vs dev)"

subsection \<open>Mappings\<close>

record kfio_pci_csr_handle =
  csr_virt :: addr
  csr_hdl :: addr
  bar2_csr_virt :: addr

text \<open>The addresses that are mapped, one entry per mapping.\<close>

definition kfio_pci_unmap_csr :: "kfio_pci_csr_handle \<Rightarrow> addr list \<Rightarrow> addr list" where
  "kfio_pci_unmap_csr csr maps = (if csr_virt csr \<noteq> NULL then remove1 (csr_virt csr) maps else maps)"

definition kfio_pci_unmap_barnum :: "addr \<Rightarrow> addr list \<Rightarrow> addr list" where
  "kfio_pci_unmap_barnum bar_virt maps = (if bar_virt \<noteq> NULL then remove1 bar_virt maps else maps)"

definition kfio_pci_map_noop :: int where
  "kfio_pci_map_noop = 0"

subsection \<open>The driver\<close>

definition PCI_VENDOR_ID_FUSION :: u16 where "PCI_VENDOR_ID_FUSION = 0x1AED"
definition IOSCALE3_ORANGE_PCI_DEVICE :: u16 where "IOSCALE3_ORANGE_PCI_DEVICE = 0x3001"
definition IOSCALE3_TANGERINE_PCI_DEVICE :: u16 where "IOSCALE3_TANGERINE_PCI_DEVICE = 0x3002"
definition IOSCALE3_PEACH_PLUM_PCI_DEVICE :: u16 where "IOSCALE3_PEACH_PLUM_PCI_DEVICE = 0x3003"
definition IOSCALE3_APRICOT_PCI_DEVICE :: u16 where "IOSCALE3_APRICOT_PCI_DEVICE = 0x3004"

text \<open>The table without the entry of zeros that ends it; \<open>PCI_DEVICE\<close> leaves the subsystem open.\<close>

definition iodrive_ids :: "(u16 \<times> u16) list" where
  "iodrive_ids =
     [(PCI_VENDOR_ID_FUSION, IOSCALE3_ORANGE_PCI_DEVICE), (PCI_VENDOR_ID_FUSION, IOSCALE3_TANGERINE_PCI_DEVICE),
      (PCI_VENDOR_ID_FUSION, IOSCALE3_PEACH_PLUM_PCI_DEVICE), (PCI_VENDOR_ID_FUSION, IOSCALE3_APRICOT_PCI_DEVICE)]"

datatype pci_ers_result = PCI_ERS_RESULT_NONE | PCI_ERS_RESULT_CAN_RECOVER | PCI_ERS_RESULT_NEED_RESET | PCI_ERS_RESULT_DISCONNECT | PCI_ERS_RESULT_RECOVERED

definition iodrive_pci_error_detected :: "int \<Rightarrow> pci_ers_result" where
  "iodrive_pci_error_detected error_state = PCI_ERS_RESULT_DISCONNECT"

definition iodrive_pci_slot_reset :: pci_ers_result where
  "iodrive_pci_slot_reset = PCI_ERS_RESULT_DISCONNECT"

text \<open>
  A well-formed hierarchy: the parent of a bus that is not at the top is a bus, and \<open>rank\<close> falls on the way up.
\<close>

definition buses_ok :: "(addr \<Rightarrow> nat) \<Rightarrow> pci_store \<Rightarrow> bool" where
  "buses_ok rank st \<longleftrightarrow>
     (\<forall>b bus. pci_buses st b = Some bus \<longrightarrow> pb_self bus \<noteq> NULL \<longrightarrow> pci_buses st (pb_parent bus) \<noteq> None \<and> rank (pb_parent bus) < rank b)"

text \<open>The number of steps is bounded by \<open>n\<close>.\<close>

fun climb :: "nat \<Rightarrow> pci_store \<Rightarrow> addr \<Rightarrow> addr option" where
  "climb 0 st b = None"
| "climb (Suc n) st b =
     (case kfio_pci_bus_istop st b of
        None \<Rightarrow> None
      | Some True \<Rightarrow> Some b
      | Some False \<Rightarrow> Option.bind (kfio_pci_bus_parent st b) (climb n st))"

subsection \<open>Laws\<close>

lemma devfn_nat: "unat (PCI_SLOT fn) = unat fn div 8 mod 32" "unat (PCI_FUNC fn) = unat fn mod 8"
proof -
  have "PCI_SLOT fn = take_bit 5 (drop_bit 3 fn)" "PCI_FUNC fn = take_bit 3 fn"
    unfolding PCI_SLOT_def PCI_FUNC_def by (simp_all only: take_bit_eq_mask) (simp_all add: mask_eq_exp_minus_1)
  then show "unat (PCI_SLOT fn) = unat fn div 8 mod 32" "unat (PCI_FUNC fn) = unat fn mod 8"
    by (simp_all only: unsigned_take_bit_eq unat_drop_bit_eq) (simp_all add: take_bit_eq_mod drop_bit_eq_div)
qed

lemma devfn_cast: "unat (ucast (PCI_SLOT fn) :: u8) = unat fn div 8 mod 32" "unat (ucast (PCI_FUNC fn) :: u8) = unat fn mod 8"
proof -
  have "unat fn mod 8 < 256" by (rule less_trans [of _ 8]) simp_all
  moreover have "unat fn div 8 mod 32 < 256" by (rule less_trans [of _ 32]) simp_all
  ultimately show "unat (ucast (PCI_SLOT fn) :: u8) = unat fn div 8 mod 32" "unat (ucast (PCI_FUNC fn) :: u8) = unat fn mod 8"
    by (simp_all add: unsigned_ucast_eq take_bit_eq_mod devfn_nat)
qed

lemma devfn_eq:
  assumes "fn < 256" and "gn < 256" and "unat fn div 8 mod 32 = unat gn div 8 mod 32" and "unat fn mod 8 = unat gn mod 8"
  shows "fn = (gn :: u32)"
proof -
  have "unat fn < 256" "unat gn < 256" using assms(1,2) by (simp_all add: word_less_nat_alt)
  then have "unat fn div 8 = unat gn div 8" using assms(3) by simp
  then have "unat fn = unat gn" using assms(4) by (metis div_mult_mod_eq)
  then show ?thesis by (simp add: word_unat_eq_iff)
qed

text \<open>
  Domain, bus, device number and function tell two cards of a machine apart, whose domains have numbers below 65536: cards with equal
  coordinates sit on buses with the same number and domain, at the same place.
\<close>

lemma coordinates_identify:
  assumes "pd_devfn d < 256" and "pd_devfn e < 256"
    and "pci_buses st (pd_bus d) = Some b" and "pci_buses st (pd_bus e) = Some c"
    and "0 \<le> pb_domain b" "pb_domain b < 65536" "0 \<le> pb_domain c" "pb_domain c < 65536"
    and "kfio_pci_get_domain st d = kfio_pci_get_domain st e" and "kfio_pci_get_bus st d = kfio_pci_get_bus st e"
    and "kfio_pci_get_devicenum d = kfio_pci_get_devicenum e" and "kfio_pci_get_function d = kfio_pci_get_function e"
  shows "pd_devfn d = pd_devfn e \<and> pb_number b = pb_number c \<and> pb_domain b = pb_domain c"
proof -
  have "pd_devfn d = pd_devfn e"
    using assms(1,2,11,12) devfn_cast [of "pd_devfn d"] devfn_cast [of "pd_devfn e"]
    by (intro devfn_eq) (simp_all add: kfio_pci_get_devicenum_def kfio_pci_get_function_def)
  moreover have "(of_int (pb_domain b) :: u16) = of_int (pb_domain c)" "pb_number b = pb_number c"
    using assms(3,4,9,10) by (simp_all add: kfio_pci_get_domain_def kfio_pci_get_bus_def)
  moreover from this(1) have "pb_domain b = pb_domain c"
    using assms(5-8) by (simp add: word_of_int_eq_iff take_bit_eq_mod)
  ultimately show ?thesis by blast
qed

text \<open>The length of a resource of 4 GiB is 0 for the core, and a domain above 65535 has the number of another one.\<close>

lemma resource_len_cut: "pd_resource_len d (unat bar) = 2 ^ 32 \<Longrightarrow> kfio_pci_resource_len d bar = 0"
  by (simp add: kfio_pci_resource_len_def)

lemma domain_cut:
  "pci_buses st (pd_bus d) = Some b \<Longrightarrow> pb_domain b = 0x10000 + k \<Longrightarrow> kfio_pci_get_domain st d = Some (of_int k)"
  by (simp add: kfio_pci_get_domain_def)

lemma climb_reaches_top:
  assumes "buses_ok rank st" and "pci_buses st b \<noteq> None" and "rank b < n"
  shows "\<exists>t. climb n st b = Some t \<and> kfio_pci_bus_istop st t = Some True"
  using assms(2,3)
proof (induction n arbitrary: b)
  case (Suc n)
  then obtain bus where b: "pci_buses st b = Some bus" by auto
  show ?case
  proof (cases "pb_self bus = NULL")
    case False
    then have "pci_buses st (pb_parent bus) \<noteq> None" "rank (pb_parent bus) < rank b"
      using assms(1) b by (simp_all add: buses_ok_def)
    then have "pci_buses st (pb_parent bus) \<noteq> None" "rank (pb_parent bus) < n" using Suc.prems(2) by simp_all
    then show ?thesis using Suc.IH [of "pb_parent bus"] b False by (simp add: kfio_pci_bus_istop_def kfio_pci_bus_parent_def)
  qed (simp add: b kfio_pci_bus_istop_def)
qed simp

lemma request_free_one:
  "vec < length msi \<Longrightarrow> kfio_request_msix 0 msi vec dev irqs = Some (rc, irqs') \<Longrightarrow> kfio_free_msix msi vec dev irqs' = Some irqs"
  by (auto simp: kfio_request_msix_def kfio_free_msix_def Let_def)

lemma free_all_append: "free_all msi (vs @ ws) dev irqs = Option.bind (free_all msi vs dev irqs) (free_all msi ws dev)"
  by (induction vs arbitrary: irqs) (auto split: bind_splits)

text \<open>A card that requests all its vectors and frees them in the opposite order leaves the interrupts as they were, even if vectors are shared.\<close>

lemma request_free_all:
  "request_all msi vs dev irqs = Some irqs' \<Longrightarrow> free_all msi (rev vs) dev irqs' = Some irqs"
proof (induction vs arbitrary: irqs)
  case (Cons v vs)
  then obtain rc irqs1 where r: "kfio_request_msix 0 msi v dev irqs = Some (rc, irqs1)" and rest: "request_all msi vs dev irqs1 = Some irqs'"
    by (auto split: bind_splits)
  have "v < length msi" using r by (auto simp: kfio_request_msix_def split: if_splits)
  then have "kfio_free_msix msi v dev irqs1 = Some irqs" using request_free_one r by blast
  then show ?case using Cons.IH [OF rest] by (simp add: free_all_append)
qed simp

text \<open>
  Mapping and unmapping the registers leaves the kernel's mappings as they were, whether mapping succeeded or not.  The handle keeps the
  address, so unmapping twice takes away a mapping that another owner of the same address has.
\<close>

lemma map_unmap_csr:
  assumes "kfio_pci_map_csr res_start remap = (rc, v)"
  shows "kfio_pci_unmap_csr \<lparr>csr_virt = v, csr_hdl = NULL, bar2_csr_virt = b2\<rparr> (if v = NULL then maps else v # maps) = maps"
    and "rc = 0 \<longleftrightarrow> v \<noteq> NULL"
  using assms by (auto simp: kfio_pci_unmap_csr_def kfio_pci_map_csr_def Let_def)

end
