(* ===== verification/Spec2Isabelle.thy ===== *)
theory Spec2Isabelle
  imports Prelude Six_Lock State_Var Ranges Bitops Fusion_List Atomic_List Scatter Scatter_Dma Kblock_Bio Kblock_Mq Kblock_Disk Kinfo_Data Kinfo_Tree Kinfo_Os Kcpu Kpci Atomics Kscsi_Host Kscsi_Cmd Kcondvar Ktime Kmodule Kinfo_Seq Kcsr Kwait Kblock_Plug Kblock_Expose Kblock_Ops Kmem Klocks Kpci_Dev
begin

text \<open>
  \<^bold>\<open>Verification of the porting layer of the iomemory-vsl4 driver.\<close>

  The repository is the Linux driver of the ioMemory flash cards.  Its core comes as a prebuilt object;
  the sources under \<open>root/usr/src/iomemory-vsl4-4.3.7\<close> are the porting layer between that core and
  the kernel: locks and state variables, containers, scatter-gather lists, the block device, a SCSI host, the PCI device, and the
  information nodes that appear under \<open>/proc/fusion\<close>.  This development models that layer.

  \<^bold>\<open>Parts and theories.\<close>

  \<^item> \<open>Prelude\<close>: integer types, error numbers, transition systems and the contract of their
    invariants, generic lemmas.

  \<^item> \<open>Six_Lock\<close> (\<open>six_lock.c\<close>): the lock with seven modes and its queue of waiters.  The record
    \<open>fusion_sixsem_t\<close> is the C structure; an upgrade is split where it waits on its condition variable,
    and \<open>six_step\<close> interleaves any number of clients.  Shown: no two clients ever hold modes that
    exclude each other, the counts are the holders, nobody overtakes the queue; and what the faulty
    serial comparison and the exit on a full count do.

  \<^item> \<open>State_Var\<close> (\<open>state.c\<close>, \<open>include/fio/port/state.h\<close>): state variables with waiters and transition
    tables.  Shown: no wakeup is lost under any interleaving, a transition takes the first arc that applies
    and stays within the table's states.

  \<^item> \<open>Ranges\<close> (\<open>ranges.h\<close>), \<open>Bitops\<close> (\<open>bitops.h\<close>, \<open>byteswap.h\<close>, \<open>unaligned.h\<close>, the bit functions of
    \<open>arch/x86_common\<close>): pure functions on words, compared with their meaning on sets of blocks and bits.

  \<^item> \<open>Fusion_List\<close> (\<open>list.h\<close>), \<open>Atomic_List\<close> (\<open>atomic_list.h\<close>): the intrusive doubly linked list on a heap of
    pointers, refined to HOL lists, with its users' view as a locale for queues and stacks; and the
    lock-free list with its compare-and-swap steps interleaved.

  \<^item> \<open>Scatter\<close>, \<open>Scatter_Dma\<close> (\<open>kscatter.c\<close>): scatter-gather lists, the mapping of buffers, pages and bios,
    DMA maps and slices.  Shown: the bytes of a list are the bytes that were mapped, and which references to pages remain.

  \<^item> \<open>Kblock_Bio\<close>, \<open>Kblock_Plug\<close>, \<open>Kblock_Mq\<close>, \<open>Kblock_Disk\<close>, \<open>Kblock_Expose\<close>, \<open>Kblock_Ops\<close> (\<open>kblock.c\<close>, \<open>kblock.h\<close>, \<open>kbio.h\<close>): the three ways a request
    reaches the core, completion, and the life cycle of a disk.  Shown: plugged bios are submitted exactly once
    and in order, also when the block worker flushes them, completion ends every bio, the reference count is the number of openers; the
    thread that exposes a disk and the worker that adds it, as threads of \<open>Kcondvar\<close>, never use the freed parameter and both return.

  \<^item> \<open>Kinfo_Data\<close>, \<open>Kinfo_Tree\<close>, \<open>Kinfo_Os\<close> (\<open>common_kinfo.c\<close>, \<open>kinfo.c\<close>): data handles, the tree of nodes and its
    proc files.  Shown: what a handle keeps and when it reports an overflow, that creation adds and removal frees
    exactly what it should, that full names lead back to their nodes, and that numbers survive a write and a read.

  \<^item> \<open>Kcpu\<close> (\<open>kcpu.c\<close>, \<open>khotplug.c\<close>): the map from processors to read queues, the processor topology, threads bound to
    processors, and the notification of processors that come and go.  Shown: every processor gets a queue that exists when the nodes are
    numbered without gaps.

  \<^item> \<open>Kpci\<close>, \<open>Kpci_Dev\<close> (\<open>pci.c\<close>): probe and removal of a card, the command register, message interrupts, node overrides, slot numbers,
    register maps, the identity of a card and the bus hierarchy.  Shown: the override list is a finite map, what each failure of a probe leaves behind, and which entries of the
    BIOS table a slot number comes from, that coordinates identify a card, and that interrupts and mappings given back leave nothing behind.

  \<^item> \<open>Kscsi_Host\<close>, \<open>Kscsi_Cmd\<close> (\<open>kscsi_host.c\<close>, \<open>kscsi.c\<close>): the SCSI host of each target with its units, and the commands.  Calls that
    take the list's lock more than once are sections of \<open>lu_step\<close>, which \<open>scsi_step\<close> interleaves.  Shown: units are counted per
    target, one host per target under every interleaving, how a host is used after it was destroyed, that a command is completed
    once, and the ends of a queued command.

  \<^item> \<open>Atomics\<close> (\<open>arch/x86_common/atomic.h\<close>, \<open>arch/ppc/atomic.h\<close>): the atomic integers in all their implementations, each an interpretation of the
    locale \<open>atomic_cell\<close>.  Shown: the implementations agree; a reference count returns the number of holders.

  \<^item> \<open>Kcondvar\<close> (\<open>kfio.c\<close>, \<open>kcondvar.c\<close>): spinlocks with the interrupt flags of their holder, and condition variables, whose waits are
    split at every point where another thread can run (\<open>cv_step\<close>).  Shown: no wakeup is lost, and interrupts are restored.
    \<open>Six_Lock\<close>, \<open>State_Var\<close> and \<open>Kblock_Disk\<close> take waits and wakeups as this theory shows them to be.

  \<^item> \<open>Klocks\<close> (\<open>kfio.c\<close>, \<open>kfio_common.c\<close>): mutexes, reader-writer semaphores and reader-writer spinlocks, the last two as interpretations of the locale
    \<open>rw_lock\<close>.  Shown: a writer is the only holder, whatever the threads do.

  \<^item> \<open>Kmem\<close> (\<open>kmem.c\<close>, \<open>kcache.c\<close> and their headers): allocation flags, the page count of a buffer, and object caches.  Shown: the page count is
    the number of entries that \<open>Scatter\<close> takes for the buffer, when an allocation may sleep, and that a cache counts its objects.

  \<^item> \<open>Ktime\<close> (\<open>ktime.c\<close>, \<open>kfio_common.c\<close>, \<open>common-linux/div64.h\<close>): conversions of time, the division of the 32-bit build, \<open>kfio_strncpy\<close>.
    Shown: timeouts are rounded up and back, the division is at most one off, the copy is that of the C library.

  \<^item> \<open>Kwait\<close> (\<open>kcondvar.c\<close>, \<open>sched.c\<close>, \<open>tsc.h\<close>): what timed waits return, on \<open>Kcondvar\<close> and \<open>Ktime\<close>, delays and time stamps.
    Shown: elapsed times are right to a tick, except for waits that end within the first one.

  \<^item> \<open>Kcsr\<close> (\<open>kcsr.c\<close>, \<open>byteswap.h\<close>): the card's registers on hosts of both byte orders.  Shown: the card sees the same bytes, and
    what is written is read.

  \<^item> \<open>Kmodule\<close> (\<open>main.c\<close>, \<open>kinit.c\<close>, \<open>kfile.c\<close>, \<open>cdev.c\<close>, \<open>errno.c\<close>, \<open>kmsg.c\<close>, \<open>sysrq.c\<close>): loading and unloading, sequence files, the
    control device, error and log messages, keys.  Shown: loading registers everything or nothing, a sequence file holds its text or reports an
    overflow, the wait for a device is bounded, every error number has a message.

  \<^item> \<open>Kinfo_Seq\<close> (\<open>kinfo.c\<close>, \<open>kfile.c\<close>): sequence nodes, whose data handles write into the buffer of a sequence file, and the tables of file
    operations.  Shown: a pass of the reader appends the text of the items, and what a pass without memory does.

  The block device maps bios with \<open>Scatter\<close>'s model where the source calls \<open>kfio_sgl_map_bio\<close>, and SCSI commands
  map their pages with the same model; the reference counts of SCSI hosts are atomic integers of \<open>Atomics\<close>; the walk over the node tree
  writes through the data handles of \<open>Kinfo_Data\<close>, and the proc files use the nodes of \<open>Kinfo_Tree\<close>.

  \<^bold>\<open>Conventions.\<close>  C structures are records and enumerations datatypes, unsigned integers are words of their width.
  Pointers are 64-bit words; memory is a map from addresses where aliasing matters and a list where the
  code uses an array.  The release build is modelled: \<open>kassert\<close> is empty.  Kernel functions, and the functions
  of the prebuilt core, are arguments of the definitions; hypotheses about them are stated with each theorem.
  A function that sleeps is split at the sleep.  Loops that follow pointers take fuel; the theorems
  state a number of iterations that is enough (the size of the list or tree) and that the result is then
  returned, so None never hides a result.  Fixed limits such as the sizes of buffers are those of the source.

  \<^bold>\<open>Not modelled.\<close>  Functions that only rename a kernel function (scheduling of work, proc entries,
  configuration space, printing, copies to and from user space); module parameters and debugging flags;
  the PowerPC bit operations, whose header does not compile; the prebuilt core.  The order of memory accesses of the processor is taken to be sequentially
  consistent, as the x86 instructions used are locked.
\<close>

end
